(* ===== verification/Prelude.thy ===== *)
theory Prelude
  imports Main "HOL-Library.Word" "HOL-Library.Signed_Division" "HOL-Library.Monad_Syntax"
begin

text \<open>
  What the component theories share: the C integer types as words, the errno values of the
  kernel, the \<open>option\<close> monad with \<open>None\<close> for a kernel Oops (a NULL or dangling
  dereference, an access outside an array), and the lemma collections the component proofs
  pass to the simplifier.
\<close>

section \<open>Machine integers and addresses\<close>

unbundle bit_operations_syntax

type_synonym u8 = "8 word"
type_synonym u16 = "16 word"
type_synonym u32 = "32 word"
type_synonym u64 = "64 word"

text \<open>An address (\<open>unsigned long\<close>); 0 is the NULL pointer.\<close>

type_synonym addr = "64 word"

text \<open>Process ids, for wait queues and interleavings.\<close>

type_synonym pid = nat

section \<open>Error numbers\<close>

text \<open>The errno values of \<open><linux/errno.h>\<close>; the code returns them negated.\<close>

abbreviation (input) EPERM :: int where "EPERM \<equiv> 1"
abbreviation (input) EINTR :: int where "EINTR \<equiv> 4"
abbreviation (input) EIO :: int where "EIO \<equiv> 5"
abbreviation (input) ENXIO :: int where "ENXIO \<equiv> 6"
abbreviation (input) EAGAIN :: int where "EAGAIN \<equiv> 11"
abbreviation (input) ENOMEM :: int where "ENOMEM \<equiv> 12"
abbreviation (input) EFAULT :: int where "EFAULT \<equiv> 14"
abbreviation (input) EBUSY :: int where "EBUSY \<equiv> 16"
abbreviation (input) ENODEV :: int where "ENODEV \<equiv> 19"
abbreviation (input) EINVAL :: int where "EINVAL \<equiv> 22"
abbreviation (input) ERESTARTSYS :: int where "ERESTARTSYS \<equiv> 512"

section \<open>Lemma collections\<close>

named_theorems wf_intros \<open>introduction rules of the well-formedness invariants\<close>
named_theorems frame_simps \<open>what an operation leaves unchanged\<close>
named_theorems step_simps \<open>unfolding equations of the one-step operations\<close>

section \<open>The Oops monad\<close>

text \<open>\<open>None\<close> is an Oops; a sequence of statements stops at the first one.\<close>

lemma bind_Some_iff: "Option.bind m f = Some y \<longleftrightarrow> (\<exists>x. m = Some x \<and> f x = Some y)"
  by (cases m) auto

lemma not_None_bind: "m = Some x \<Longrightarrow> f x \<noteq> None \<Longrightarrow> Option.bind m f \<noteq> None"
  by simp

section \<open>Words\<close>

text \<open>A 16-bit value stored in a 32-bit field and cut back is the value.\<close>

lemma sint_u32_range: "- (2 ^ 31) \<le> sint (x :: u32)" "sint (x :: u32) < 2 ^ 31"
  using sint_ge [of x] sint_lt [of x] by simp_all

lemma sint_word_of_int_u32:
  "- (2 ^ 31) \<le> i \<Longrightarrow> i < 2 ^ 31 \<Longrightarrow> sint (word_of_int i :: u32) = i"
  by (simp add: sint_sbintrunc' signed_take_bit_int_eq_self)

lemma ucast_u16_u32_u16 [simp]: "ucast (ucast (v :: u16) :: u32) = v"
  by (rule bit_word_eqI) (simp add: bit_simps)

lemma unat_u8_less_256: "unat (b :: u8) < 256"
  using unsigned_less [of b, where ?'a = nat] by simp

lemma unat_u8_le_255: "unat (b :: u8) \<le> 255"
  using unat_u8_less_256 [of b] by linarith

section \<open>Lists\<close>

lemma nth_list_update_list: "i < length xs \<Longrightarrow> (xs[i := v]) ! j = (if i = j then v else xs ! j)"
  by (cases "i = j") simp_all

lemma take_Suc_update: "i < length xs \<Longrightarrow> take (Suc i) (xs[i := v]) = take i xs @ [v]"
  by (simp add: take_Suc_conv_app_nth)

lemma length_3_conv: "length xs = 3 \<longleftrightarrow> (\<exists>a b c. xs = [a, b, c])"
  by (auto simp: length_Suc_conv numeral_3_eq_3)

section \<open>Counters that are taken and given back\<close>

text \<open>
  The contract of an atomic counter or a semaphore: \<open>take\<close> decrements it unless it is 0,
  \<open>give\<close> increments it. The client keeps the list of the holders; as long as everybody who
  gives has taken, free units and holders add up.
\<close>

locale token_counter =
  fixes take :: "'c \<Rightarrow> 'c option"
    and give :: "'c \<Rightarrow> 'c"
    and free :: "'c \<Rightarrow> nat"
    and valid :: "'c \<Rightarrow> bool"
  assumes take_Some: "valid c \<Longrightarrow> take c = Some c' \<Longrightarrow> valid c' \<and> free c = Suc (free c')"
    and take_None: "valid c \<Longrightarrow> take c = None \<longleftrightarrow> free c = 0"
    and give_free: "valid c \<Longrightarrow> valid (give c) \<and> free (give c) = Suc (free c)"
begin

definition balanced :: "nat \<Rightarrow> 'c \<Rightarrow> 'h list \<Rightarrow> bool" where
  "balanced n c hs \<longleftrightarrow> valid c \<and> free c + length hs = n"

lemma take_balanced: "balanced n c hs \<Longrightarrow> take c = Some c' \<Longrightarrow> balanced n c' (h # hs)"
  using take_Some [of c c'] by (simp add: balanced_def)

lemma give_balanced: "balanced n c hs \<Longrightarrow> h \<in> set hs \<Longrightarrow> balanced n (give c) (remove1 h hs)"
  using give_free [of c] length_pos_if_in_set [of h hs]
  by (simp add: balanced_def length_remove1 del: length_greater_0_conv)

text \<open>With one unit there is at most one holder, and the holder keeps everybody else out.\<close>

lemma one_holder: "balanced 1 c hs \<Longrightarrow> length hs \<le> 1"
  by (simp add: balanced_def)

lemma held_is_busy: "balanced 1 c hs \<Longrightarrow> hs \<noteq> [] \<Longrightarrow> take c = None"
  using take_None [of c] by (cases hs) (simp_all add: balanced_def)

text \<open>A unit given by somebody who has not taken one raises the bound for good.\<close>

lemma spurious_give: "balanced n c hs \<Longrightarrow> balanced (Suc n) (give c) hs"
  using give_free [of c] by (simp add: balanced_def)

end

section \<open>Runs of a step relation\<close>

text \<open>If no run is longer than a bound, some run ends in a state without a step.\<close>

lemma bounded_run_ends:
  assumes "\<And>n s. (r ^^ n) s0 s \<Longrightarrow> n \<le> (b :: nat)"
  shows "\<exists>n s. (r ^^ n) s0 s \<and> (\<nexists>s'. r s s')"
proof (rule ccontr)
  assume none: "\<not> ?thesis"
  have "\<exists>s. (r ^^ n) s0 s" for n
  proof (induction n)
    case (Suc n)
    then obtain s where "(r ^^ n) s0 s" by blast
    moreover from this obtain s' where "r s s'" using none by blast
    ultimately show ?case by auto
  qed auto
  then obtain s where "(r ^^ Suc b) s0 s" by blast
  then have "Suc b \<le> b" by (rule assms)
  then show False by simp
qed

section \<open>Character device registration\<close>

text \<open>How many device numbers a driver holds, and whether its cdev is live.\<close>

record chrdev_registry =
  region :: "u32 option"
  cdev_live :: bool

end
