(* ===== verification/Sensors.thy ===== *)
theory Sensors
  imports Prelude
begin

text \<open>
  The sensor buffers: \<open>struct lunix_msr_data_struct\<close> and \<open>struct lunix_sensor_struct\<close>
  of \<open>lunix.h\<close> and the operations of \<open>lunix-sensors.c\<close>. Every sensor owns three pages,
  one per kind of measurement. The pages live in an explicit page heap, so that aliasing, leaks
  and double frees can be stated.
\<close>

section \<open>Data\<close>

text \<open>\<open>enum lunix_msr_enum\<close>; \<open>N_LUNIX_MSR\<close> counts the kinds.\<close>

datatype lunix_msr_enum = BATT | TEMP | LIGHT

definition N_LUNIX_MSR :: nat where "N_LUNIX_MSR = 3"

fun msr_index :: "lunix_msr_enum \<Rightarrow> nat" where
  "msr_index BATT = 0"
| "msr_index TEMP = 1"
| "msr_index LIGHT = 2"

text \<open>The kinds are ordered as the C enum orders them.\<close>

instantiation lunix_msr_enum :: linorder
begin

definition less_eq_lunix_msr_enum :: "lunix_msr_enum \<Rightarrow> lunix_msr_enum \<Rightarrow> bool" where
  "less_eq_lunix_msr_enum a b \<longleftrightarrow> msr_index a \<le> msr_index b"

definition less_lunix_msr_enum :: "lunix_msr_enum \<Rightarrow> lunix_msr_enum \<Rightarrow> bool" where
  "less_lunix_msr_enum a b \<longleftrightarrow> msr_index a < msr_index b"

instance
proof
  fix a b :: lunix_msr_enum
  show "a \<le> b \<Longrightarrow> b \<le> a \<Longrightarrow> a = b"
    by (cases a; cases b) (simp_all add: less_eq_lunix_msr_enum_def)
qed (auto simp: less_eq_lunix_msr_enum_def less_lunix_msr_enum_def)

end

lemma msr_index_less [simp]: "msr_index k < N_LUNIX_MSR"
  by (cases k) (simp_all add: N_LUNIX_MSR_def)

definition LUNIX_MSR_MAGIC :: u32 where "LUNIX_MSR_MAGIC = 0xF00DF00D"

definition LUNIX_SENSOR_CNT :: int where "LUNIX_SENSOR_CNT = 16"

text \<open>The content of a measurement page; \<open>values\<close> fills the rest of the 4096 bytes.\<close>

record lunix_msr_data_struct =
  magic :: u32
  last_update :: u32
  msr_values :: "u32 list"

definition values_per_page :: nat where "values_per_page = (4096 - 8) div 4"

definition zeroed_page :: lunix_msr_data_struct where
  "zeroed_page = \<lparr>magic = 0, last_update = 0, msr_values = replicate values_per_page 0\<rparr>"

text \<open>The page heap: the allocated pages by address.\<close>

type_synonym page_heap = "addr \<rightharpoonup> lunix_msr_data_struct"

text \<open>
  \<open>struct lunix_sensor_struct\<close>: the array of page pointers, the spinlock (held or not) and
  the processes on the wait queue.
\<close>

record lunix_sensor_struct =
  msr_data :: "addr list"
  sensor_lock :: bool
  wq :: "pid list"

text \<open>What \<open>kzalloc\<close> returns for one sensor: every field zero.\<close>

definition zeroed_sensor :: lunix_sensor_struct where
  "zeroed_sensor = \<lparr>msr_data = replicate N_LUNIX_MSR 0, sensor_lock = False, wq = []\<rparr>"

section \<open>Initialization and destruction\<close>

text \<open>
  \<open>get_zeroed_page\<close> is the kernel's: the parameter \<open>gzp\<close> gives its answer from the
  heap and the number of calls made so far, 0 being failure. What the code relies on is
  \<open>fresh_pages\<close>: the answer is no page in use.
\<close>

type_synonym page_alloc = "page_heap \<Rightarrow> nat \<Rightarrow> addr"

definition fresh_pages :: "page_alloc \<Rightarrow> bool" where
  "fresh_pages gzp \<longleftrightarrow> (\<forall>m n. m 0 = None \<longrightarrow> gzp m n \<noteq> 0 \<longrightarrow> m (gzp m n) = None)"

text \<open>The heap and the call counter are threaded through the allocations.\<close>

type_synonym alloc_state = "page_heap \<times> nat"

text \<open>The second loop of \<open>lunix_sensor_init\<close>; it stops at the first failed allocation.\<close>

fun sensor_init_loop ::
  "page_alloc \<Rightarrow> nat list \<Rightarrow> lunix_sensor_struct \<Rightarrow> alloc_state \<Rightarrow> int \<times> lunix_sensor_struct \<times> alloc_state"
where
  "sensor_init_loop gzp [] s (m, n) = (0, s, (m, n))"
| "sensor_init_loop gzp (i # is) s (m, n) =
     (let p = gzp m n in
      if p = 0 then (- ENOMEM, s, (m, Suc n))
      else sensor_init_loop gzp is
             (s\<lparr>msr_data := (msr_data s)[i := p]\<rparr>)
             (m(p \<mapsto> zeroed_page\<lparr>magic := LUNIX_MSR_MAGIC\<rparr>), Suc n))"

definition lunix_sensor_init ::
  "page_alloc \<Rightarrow> lunix_sensor_struct \<Rightarrow> alloc_state \<Rightarrow> int \<times> lunix_sensor_struct \<times> alloc_state"
where
  "lunix_sensor_init gzp s k =
     (let s1 = s\<lparr>sensor_lock := False, wq := []\<rparr>;
          s2 = s1\<lparr>msr_data := map (\<lambda>_. 0) [0..<N_LUNIX_MSR]\<rparr>
      in sensor_init_loop gzp [0..<N_LUNIX_MSR] s2 k)"

text \<open>\<open>free_page\<close>; freeing a page that is not in use is an Oops.\<close>

definition free_page :: "addr \<Rightarrow> page_heap \<Rightarrow> page_heap option" where
  "free_page p m = (case m p of None \<Rightarrow> None | Some _ \<Rightarrow> Some (m(p := None)))"

fun sensor_destroy_loop :: "addr list \<Rightarrow> page_heap \<Rightarrow> page_heap option" where
  "sensor_destroy_loop [] m = Some m"
| "sensor_destroy_loop (p # ps) m =
     (if p \<noteq> 0 then Option.bind (free_page p m) (sensor_destroy_loop ps)
      else sensor_destroy_loop ps m)"

definition lunix_sensor_destroy :: "lunix_sensor_struct \<Rightarrow> page_heap \<Rightarrow> page_heap option" where
  "lunix_sensor_destroy s m =
     sensor_destroy_loop (map (\<lambda>i. msr_data s ! i) [0..<N_LUNIX_MSR]) m"

section \<open>Update\<close>

text \<open>
  Stores through a page pointer; a page that is not in use, or has no room for the value, is an
  Oops. \<open>get_seconds()\<close> is an \<open>unsigned long\<close>, cut to 32 bits by the store.
\<close>

definition put_value :: "addr \<Rightarrow> u32 \<Rightarrow> page_heap \<Rightarrow> page_heap option" where
  "put_value p v m =
     (case m p of None \<Rightarrow> None
      | Some d \<Rightarrow> if msr_values d = [] then None
                  else Some (m(p \<mapsto> d\<lparr>msr_values := (msr_values d)[0 := v]\<rparr>)))"

definition put_magic :: "addr \<Rightarrow> u32 \<Rightarrow> page_heap \<Rightarrow> page_heap option" where
  "put_magic p v m = (case m p of None \<Rightarrow> None | Some d \<Rightarrow> Some (m(p \<mapsto> d\<lparr>magic := v\<rparr>)))"

definition put_last_update :: "addr \<Rightarrow> u32 \<Rightarrow> page_heap \<Rightarrow> page_heap option" where
  "put_last_update p v m =
     (case m p of None \<Rightarrow> None | Some d \<Rightarrow> Some (m(p \<mapsto> d\<lparr>last_update := v\<rparr>)))"

text \<open>Loads through a page pointer.\<close>

definition get_value :: "addr \<Rightarrow> page_heap \<Rightarrow> u32 option" where
  "get_value p m =
     (case m p of None \<Rightarrow> None
      | Some d \<Rightarrow> (case msr_values d of [] \<Rightarrow> None | v # _ \<Rightarrow> Some v))"

definition get_last_update :: "addr \<Rightarrow> page_heap \<Rightarrow> u32 option" where
  "get_last_update p m = map_option last_update (m p)"

text \<open>
  The spinlock: taking one that is held never returns, which is \<open>None\<close> here. The wait queue:
  \<open>wake_up_interruptible\<close> takes every sleeper off the queue and makes it runnable.
\<close>

definition spin_lock :: "lunix_sensor_struct \<Rightarrow> lunix_sensor_struct option" where
  "spin_lock s = (if sensor_lock s then None else Some (s\<lparr>sensor_lock := True\<rparr>))"

definition spin_unlock :: "lunix_sensor_struct \<Rightarrow> lunix_sensor_struct" where
  "spin_unlock s = s\<lparr>sensor_lock := False\<rparr>"

definition wake_up_interruptible :: "lunix_sensor_struct \<Rightarrow> lunix_sensor_struct \<times> pid list" where
  "wake_up_interruptible s = (s\<lparr>wq := []\<rparr>, wq s)"

definition lunix_sensor_update ::
  "lunix_sensor_struct \<Rightarrow> u16 \<Rightarrow> u16 \<Rightarrow> u16 \<Rightarrow> u64 \<Rightarrow> page_heap
     \<Rightarrow> (lunix_sensor_struct \<times> page_heap \<times> pid list) option"
where
  "lunix_sensor_update s batt temp light now m = do {
     s \<leftarrow> spin_lock s;
     m \<leftarrow> put_value (msr_data s ! msr_index BATT) (ucast batt) m;
     m \<leftarrow> put_value (msr_data s ! msr_index TEMP) (ucast temp) m;
     m \<leftarrow> put_value (msr_data s ! msr_index LIGHT) (ucast light) m;
     m \<leftarrow> put_magic (msr_data s ! msr_index LIGHT) LUNIX_MSR_MAGIC m;
     m \<leftarrow> put_magic (msr_data s ! msr_index TEMP) LUNIX_MSR_MAGIC m;
     m \<leftarrow> put_magic (msr_data s ! msr_index BATT) LUNIX_MSR_MAGIC m;
     m \<leftarrow> put_last_update (msr_data s ! msr_index LIGHT) (ucast now) m;
     m \<leftarrow> put_last_update (msr_data s ! msr_index TEMP) (ucast now) m;
     m \<leftarrow> put_last_update (msr_data s ! msr_index BATT) (ucast now) m;
     let s = spin_unlock s;
     let (s, woken) = wake_up_interruptible s;
     Some (s, m, woken)
   }"

section \<open>Well-formedness\<close>

definition wf_page :: "page_heap \<Rightarrow> addr \<Rightarrow> bool" where
  "wf_page m p \<longleftrightarrow> p \<noteq> 0 \<and>
     (case m p of None \<Rightarrow> False
      | Some d \<Rightarrow> magic d = LUNIX_MSR_MAGIC \<and> length (msr_values d) = values_per_page)"

text \<open>An initialized sensor: three different pages in use, each with the magic number.\<close>

definition wf_sensor :: "page_heap \<Rightarrow> lunix_sensor_struct \<Rightarrow> bool" where
  "wf_sensor m s \<longleftrightarrow> length (msr_data s) = N_LUNIX_MSR \<and> distinct (msr_data s)
     \<and> list_all (wf_page m) (msr_data s) \<and> \<not> sensor_lock s"

text \<open>What a reader of the measurement sees: the raw 16-bit value and its timestamp.\<close>

definition sensor_peek :: "page_heap \<Rightarrow> lunix_sensor_struct \<Rightarrow> lunix_msr_enum \<Rightarrow> (u16 \<times> u32) option" where
  "sensor_peek m s k = do {
     v \<leftarrow> get_value (msr_data s ! msr_index k) m;
     t \<leftarrow> get_last_update (msr_data s ! msr_index k) m;
     Some (ucast v, t)
   }"

lemma values_per_page_eq: "values_per_page = 1022"
  by (simp add: values_per_page_def)

lemma zeroed_page_fields [simp]:
  "last_update zeroed_page = 0" "magic zeroed_page = 0"
  "length (msr_values zeroed_page) = values_per_page"
  by (simp_all add: zeroed_page_def)

lemma upt_N_LUNIX_MSR: "[0..<N_LUNIX_MSR] = [0, 1, 2]"
  by (simp add: N_LUNIX_MSR_def upt_rec)

lemma wf_sensor_pages:
  assumes "wf_sensor m s"
  obtains a b c where "msr_data s = [a, b, c]" "a \<noteq> b" "a \<noteq> c" "b \<noteq> c"
    "wf_page m a" "wf_page m b" "wf_page m c" "\<not> sensor_lock s"
  using assms by (auto simp: wf_sensor_def N_LUNIX_MSR_def length_3_conv)

lemma wf_page_Some:
  assumes "wf_page m p"
  obtains d v vs where "m p = Some d" "msr_values d = v # vs"
    "length (v # vs) = values_per_page" "magic d = LUNIX_MSR_MAGIC"
  using assms by (cases "msr_values (the (m p))")
    (auto simp: wf_page_def values_per_page_eq split: option.splits)

lemmas page_access_defs = put_value_def put_magic_def put_last_update_def get_value_def get_last_update_def


section \<open>What an update does\<close>

text \<open>The page of one measurement after an update.\<close>

definition measured_page :: "u16 \<Rightarrow> u64 \<Rightarrow> lunix_msr_data_struct \<Rightarrow> lunix_msr_data_struct" where
  "measured_page v now d =
     d\<lparr>msr_values := (msr_values d)[0 := ucast v], magic := LUNIX_MSR_MAGIC, last_update := ucast now\<rparr>"

lemma lunix_sensor_update_eq:
  assumes s: "msr_data s = [a, b, c]" "a \<noteq> b" "a \<noteq> c" "b \<noteq> c" "\<not> sensor_lock s"
    and a: "m a = Some da" "msr_values da \<noteq> []"
    and b: "m b = Some db" "msr_values db \<noteq> []"
    and c: "m c = Some dc" "msr_values dc \<noteq> []"
  shows "lunix_sensor_update s batt temp light now m =
    Some (s\<lparr>wq := []\<rparr>,
      m(a \<mapsto> measured_page batt now da, b \<mapsto> measured_page temp now db, c \<mapsto> measured_page light now dc),
      wq s)"
proof -
  have "s\<lparr>sensor_lock := False, wq := []\<rparr> = s\<lparr>wq := []\<rparr>"
    using s(5) by (cases s) simp
  then show ?thesis
    using s(1-4) s(5) a b c
    by (simp add: lunix_sensor_update_def page_access_defs spin_lock_def spin_unlock_def
        wake_up_interruptible_def measured_page_def fun_upd_twist)
qed

lemma measured_page_fields [simp]:
  "magic (measured_page v now d) = LUNIX_MSR_MAGIC"
  "last_update (measured_page v now d) = ucast now"
  "length (msr_values (measured_page v now d)) = length (msr_values d)"
  by (simp_all add: measured_page_def)

lemma get_measured [simp]:
  "m p = Some (measured_page v now d) \<Longrightarrow> msr_values d \<noteq> [] \<Longrightarrow> get_value p m = Some (ucast v)"
  "m p = Some (measured_page v now d) \<Longrightarrow> get_last_update p m = Some (ucast now)"
  by (cases "msr_values d"; simp add: page_access_defs measured_page_def)+

text \<open>
  The contract in one statement: on an initialized sensor the update succeeds, keeps the sensor
  initialized, stores the three values with one timestamp, wakes every sleeper and touches no
  other page.
\<close>

lemma lunix_sensor_update_works:
  assumes wf: "wf_sensor m s"
  obtains s' m' where
    "lunix_sensor_update s batt temp light now m = Some (s', m', wq s)"
    "wf_sensor m' s'" "msr_data s' = msr_data s" "wq s' = []"
    "sensor_peek m' s' BATT = Some (batt, ucast now)"
    "sensor_peek m' s' TEMP = Some (temp, ucast now)"
    "sensor_peek m' s' LIGHT = Some (light, ucast now)"
    "\<And>p. p \<notin> set (msr_data s) \<Longrightarrow> m' p = m p"
    "dom m' = dom m"
proof -
  obtain a b c where s: "msr_data s = [a, b, c]" "a \<noteq> b" "a \<noteq> c" "b \<noteq> c" "\<not> sensor_lock s"
    and wfp: "wf_page m a" "wf_page m b" "wf_page m c"
    using wf by (rule wf_sensor_pages)
  from wfp obtain da db dc where
    a: "m a = Some da" "msr_values da \<noteq> []" and b: "m b = Some db" "msr_values db \<noteq> []"
    and c: "m c = Some dc" "msr_values dc \<noteq> []"
    by (metis wf_page_Some list.distinct(1))
  let ?m = "m(a \<mapsto> measured_page batt now da, b \<mapsto> measured_page temp now db, c \<mapsto> measured_page light now dc)"
  let ?s = "s\<lparr>wq := []\<rparr>"
  have upd: "lunix_sensor_update s batt temp light now m = Some (?s, ?m, wq s)"
    by (rule lunix_sensor_update_eq [OF s a b c])
  have "wf_sensor ?m ?s"
    using s wfp a b c by (simp add: wf_sensor_def N_LUNIX_MSR_def wf_page_def)
  moreover have "sensor_peek ?m ?s BATT = Some (batt, ucast now)"
    "sensor_peek ?m ?s TEMP = Some (temp, ucast now)"
    "sensor_peek ?m ?s LIGHT = Some (light, ucast now)"
    using s a b c by (simp_all add: sensor_peek_def)
  moreover have "dom ?m = dom m" using a b c by auto
  ultimately show thesis using that [of ?s ?m] upd s(1) by auto
qed


section \<open>The interface of a measurement store\<close>

text \<open>
  What the packet protocol (the writer) and the character devices (the readers) rely on. A store
  object has its own cells in a heap; an update of a good object succeeds, makes the three values
  readable under one timestamp, hands over the sleepers and disturbs no object with other cells.
\<close>

locale measurement_store =
  fixes upd :: "'s \<Rightarrow> u16 \<Rightarrow> u16 \<Rightarrow> u16 \<Rightarrow> u64 \<Rightarrow> 'h \<Rightarrow> ('s \<times> 'h \<times> pid list) option"
    and peek :: "'h \<Rightarrow> 's \<Rightarrow> lunix_msr_enum \<Rightarrow> (u16 \<times> u32) option"
    and good :: "'h \<Rightarrow> 's \<Rightarrow> bool"
    and cells :: "'s \<Rightarrow> addr set"
    and sleepers :: "'s \<Rightarrow> pid list"
  assumes upd_succeeds: "good h s \<Longrightarrow> \<exists>s' h'. upd s b t l now h = Some (s', h', sleepers s)"
    and upd_good: "good h s \<Longrightarrow> upd s b t l now h = Some (s', h', w) \<Longrightarrow> good h' s'"
    and upd_cells: "good h s \<Longrightarrow> upd s b t l now h = Some (s', h', w) \<Longrightarrow> cells s' = cells s"
    and upd_sleepers: "good h s \<Longrightarrow> upd s b t l now h = Some (s', h', w) \<Longrightarrow> sleepers s' = []"
    and peek_upd: "good h s \<Longrightarrow> upd s b t l now h = Some (s', h', w) \<Longrightarrow>
      peek h' s' k = Some (case k of BATT \<Rightarrow> b | TEMP \<Rightarrow> t | LIGHT \<Rightarrow> l, ucast now)"
    and other_good: "good h s \<Longrightarrow> upd s b t l now h = Some (s', h', w) \<Longrightarrow>
      good h s2 \<Longrightarrow> cells s2 \<inter> cells s = {} \<Longrightarrow> good h' s2"
    and other_peek: "good h s \<Longrightarrow> upd s b t l now h = Some (s', h', w) \<Longrightarrow>
      good h s2 \<Longrightarrow> cells s2 \<inter> cells s = {} \<Longrightarrow> peek h' s2 k = peek h s2 k"
begin

text \<open>An array of objects, all good, no two sharing a cell.\<close>

definition all_good :: "'h \<Rightarrow> 's list \<Rightarrow> bool" where
  "all_good h ss \<longleftrightarrow> (\<forall>i < length ss. good h (ss ! i) \<and>
     (\<forall>j < length ss. i \<noteq> j \<longrightarrow> cells (ss ! i) \<inter> cells (ss ! j) = {}))"

lemma all_goodD:
  "all_good h ss \<Longrightarrow> i < length ss \<Longrightarrow> good h (ss ! i)"
  "all_good h ss \<Longrightarrow> i < length ss \<Longrightarrow> j < length ss \<Longrightarrow> i \<noteq> j \<Longrightarrow> cells (ss ! i) \<inter> cells (ss ! j) = {}"
  by (simp_all add: all_good_def)

text \<open>Updating one object of the array: the rule both clients use.\<close>

lemma update_nth:
  assumes all: "all_good h ss" and i: "i < length ss"
  obtains s' h' where
    "upd (ss ! i) b t l now h = Some (s', h', sleepers (ss ! i))"
    "all_good h' (ss[i := s'])" "sleepers s' = []"
    "\<And>k. peek h' (ss[i := s'] ! i) k = Some (case k of BATT \<Rightarrow> b | TEMP \<Rightarrow> t | LIGHT \<Rightarrow> l, ucast now)"
    "\<And>j k. j < length ss \<Longrightarrow> j \<noteq> i \<Longrightarrow> peek h' (ss[i := s'] ! j) k = peek h (ss ! j) k"
proof -
  from all i have g: "good h (ss ! i)" by (rule all_goodD)
  from upd_succeeds [OF g] obtain s' h' where
    u: "upd (ss ! i) b t l now h = Some (s', h', sleepers (ss ! i))" by blast
  have others: "good h' (ss ! j)" "peek h' (ss ! j) k = peek h (ss ! j) k"
    if "j < length ss" "j \<noteq> i" for j k
    using other_good [OF g u] other_peek [OF g u] all_goodD [OF all] that i by blast+
  have "all_good h' (ss[i := s'])"
    using all_goodD(2) [OF all] others(1) upd_good [OF g u] upd_cells [OF g u] i
    unfolding all_good_def by (simp add: nth_list_update_list)
  then show thesis
    using that [of s' h'] u upd_sleepers [OF g u] peek_upd [OF g u] others(2) i by simp
qed

end

text \<open>The sensors of \<open>lunix-sensors.c\<close> are such a store; the cells are the three pages.\<close>

lemma sensor_peek_cong:
  "msr_data s' = msr_data s \<Longrightarrow> (\<And>p. p \<in> set (msr_data s) \<Longrightarrow> m' p = m p) \<Longrightarrow>
    length (msr_data s) = N_LUNIX_MSR \<Longrightarrow> sensor_peek m' s' k = sensor_peek m s k"
  by (simp add: sensor_peek_def page_access_defs)

lemma wf_sensor_cong:
  assumes "wf_sensor m s" "\<And>p. p \<in> set (msr_data s) \<Longrightarrow> m' p = m p"
  shows "wf_sensor m' s"
  using assms by (simp add: wf_sensor_def list_all_iff wf_page_def)

interpretation sensor_store: measurement_store
  lunix_sensor_update sensor_peek wf_sensor "\<lambda>s. set (msr_data s)" wq
proof
  fix m s b t l now s' m' w s2 k
  show "\<exists>s' m'. lunix_sensor_update s b t l now m = Some (s', m', wq s)" if "wf_sensor m s"
    using that by (rule lunix_sensor_update_works) blast
  assume wf: "wf_sensor m s" and u: "lunix_sensor_update s b t l now m = Some (s', m', w)"
  note works = lunix_sensor_update_works [OF wf, of b t l now, unfolded u, simplified]
  show "wf_sensor m' s'" using works by metis
  show "set (msr_data s') = set (msr_data s)" using works by metis
  show "wq s' = []" using works by metis
  show "sensor_peek m' s' k = Some (case k of BATT \<Rightarrow> b | TEMP \<Rightarrow> t | LIGHT \<Rightarrow> l, ucast now)"
    by (rule works) (cases k; simp)
  assume wf2: "wf_sensor m s2" and disj: "set (msr_data s2) \<inter> set (msr_data s) = {}"
  have same: "\<And>p. p \<in> set (msr_data s2) \<Longrightarrow> m' p = m p"
    by (rule works) (use disj in blast)
  show "wf_sensor m' s2" using wf2 same by (rule wf_sensor_cong)
  show "sensor_peek m' s2 k = sensor_peek m s2 k"
    using wf2 same by (intro sensor_peek_cong) (simp_all add: wf_sensor_def)
qed

text \<open>All sensors of the driver initialized, no page shared.\<close>

definition wf_sensors :: "page_heap \<Rightarrow> lunix_sensor_struct list \<Rightarrow> bool" where
  "wf_sensors m ss \<longleftrightarrow> (\<forall>i < length ss. wf_sensor m (ss ! i) \<and>
     (\<forall>j < length ss. i \<noteq> j \<longrightarrow> set (msr_data (ss ! i)) \<inter> set (msr_data (ss ! j)) = {}))"

lemma wf_sensors_all_good: "wf_sensors m ss = sensor_store.all_good m ss"
  by (simp add: wf_sensors_def sensor_store.all_good_def)

lemma wf_sensors_nth [wf_intros]: "wf_sensors m ss \<Longrightarrow> i < length ss \<Longrightarrow> wf_sensor m (ss ! i)"
  by (simp add: wf_sensors_def)

lemma wf_sensors_disjoint:
  "wf_sensors m ss \<Longrightarrow> i < length ss \<Longrightarrow> j < length ss \<Longrightarrow> i \<noteq> j \<Longrightarrow>
    set (msr_data (ss ! i)) \<inter> set (msr_data (ss ! j)) = {}"
  by (simp add: wf_sensors_def)

lemma wf_sensors_Nil [simp]: "wf_sensors m []"
  by (simp add: wf_sensors_def)

lemma wf_sensors_snoc:
  "wf_sensors m (ss @ [s]) \<longleftrightarrow> wf_sensors m ss \<and> wf_sensor m s
     \<and> (\<forall>i < length ss. set (msr_data (ss ! i)) \<inter> set (msr_data s) = {})"
  (is "?l \<longleftrightarrow> ?r")
proof
  assume l: ?l
  have "wf_sensor m (ss ! i)" if "i < length ss" for i
    using wf_sensors_nth [OF l, of i] that by (simp add: nth_append)
  moreover have "wf_sensor m s"
    using wf_sensors_nth [OF l, of "length ss"] by simp
  moreover have "set (msr_data (ss ! i)) \<inter> set (msr_data (ss ! j)) = {}"
    if "i < length ss" "j < length ss" "i \<noteq> j" for i j
    using wf_sensors_disjoint [OF l, of i j] that by (simp add: nth_append)
  moreover have "set (msr_data (ss ! i)) \<inter> set (msr_data s) = {}" if "i < length ss" for i
    using wf_sensors_disjoint [OF l, of i "length ss"] that by (simp add: nth_append)
  ultimately show ?r by (simp add: wf_sensors_def)
next
  assume ?r
  then show ?l
    by (simp add: wf_sensors_def nth_append All_less_Suc) (simp add: Int_commute)
qed

lemma wf_sensors_cong:
  assumes wf: "wf_sensors m ss" and same: "\<And>p. p \<in> dom m \<Longrightarrow> m' p = m p"
  shows "wf_sensors m' ss"
proof -
  have "p \<in> dom m" if "i < length ss" "p \<in> set (msr_data (ss ! i))" for i p
    using wf_sensors_nth [OF wf that(1)] that(2)
    by (auto simp: wf_sensor_def list_all_iff wf_page_def split: option.splits)
  then show ?thesis
    using wf wf_sensor_cong [of m _ m'] same unfolding wf_sensors_def by metis
qed

section \<open>Initialization, failures included\<close>

text \<open>The page \<open>lunix_sensor_init\<close> prepares.\<close>

definition init_page :: lunix_msr_data_struct where
  "init_page = zeroed_page\<lparr>magic := LUNIX_MSR_MAGIC\<rparr>"

lemma wf_init_page: "p \<noteq> 0 \<Longrightarrow> m p = Some init_page \<Longrightarrow> wf_page m p"
  by (simp add: wf_page_def init_page_def)

lemma sensor_init_unfold:
  "lunix_sensor_init gzp s (m, n) =
     (let s0 = s\<lparr>sensor_lock := False, wq := []\<rparr>; a = gzp m n in
      if a = 0 then (- ENOMEM, s0\<lparr>msr_data := [0, 0, 0]\<rparr>, (m, n + 1)) else
      let m1 = m(a \<mapsto> init_page); b = gzp m1 (n + 1) in
      if b = 0 then (- ENOMEM, s0\<lparr>msr_data := [a, 0, 0]\<rparr>, (m1, n + 2)) else
      let m2 = m1(b \<mapsto> init_page); c = gzp m2 (n + 2) in
      if c = 0 then (- ENOMEM, s0\<lparr>msr_data := [a, b, 0]\<rparr>, (m2, n + 3)) else
      (0, s0\<lparr>msr_data := [a, b, c]\<rparr>, (m2(c \<mapsto> init_page), n + 3)))"
  by (simp add: lunix_sensor_init_def upt_N_LUNIX_MSR Let_def init_page_def
      numeral_2_eq_2 numeral_3_eq_3)

text \<open>
  Whatever the allocator answers: the pages taken are the non-NULL pointers of the array, each
  was free before, the rest of the heap is untouched; the result is 0 exactly when all three
  allocations succeeded, and then the sensor is initialized.
\<close>

lemma lunix_sensor_init_works:
  assumes fresh: "fresh_pages gzp" and null: "m 0 = None"
    and run: "lunix_sensor_init gzp s (m, n) = (r, s', (m', n'))"
  shows "r = 0 \<or> r = - ENOMEM"
    and "r = 0 \<Longrightarrow> wf_sensor m' s'"
    and "r = 0 \<longleftrightarrow> 0 \<notin> set (msr_data s')"
    and "\<And>p. p \<in> set (msr_data s') \<Longrightarrow> p \<noteq> 0 \<Longrightarrow> m p = None \<and> m' p = Some init_page"
    and "\<And>p. p \<notin> set (msr_data s') - {0} \<Longrightarrow> m' p = m p"
    and "length (msr_data s') = N_LUNIX_MSR" "distinct (filter (\<lambda>p. p \<noteq> 0) (msr_data s'))"
    and "wq s' = []" "\<not> sensor_lock s'"
proof -
  have fr: "\<And>m n. m 0 = None \<Longrightarrow> gzp m n \<noteq> 0 \<Longrightarrow> m (gzp m n) = None"
    using fresh by (simp add: fresh_pages_def)
  define a where "a = gzp m n"
  define m1 where "m1 = m(a \<mapsto> init_page)"
  define b where "b = gzp m1 (n + 1)"
  define m2 where "m2 = m1(b \<mapsto> init_page)"
  define c where "c = gzp m2 (n + 2)"
  note run' = run [unfolded sensor_init_unfold Let_def, folded a_def, folded m1_def,
      folded b_def, folded m2_def, folded c_def]
  have a: "a \<noteq> 0 \<Longrightarrow> m a = None" using fr [of m n] null by (simp add: a_def)
  have b: "b \<noteq> 0 \<Longrightarrow> a \<noteq> 0 \<Longrightarrow> m b = None \<and> b \<noteq> a"
    using fr [of m1 "n + 1"] null by (auto simp: b_def m1_def split: if_splits)
  have c: "c \<noteq> 0 \<Longrightarrow> b \<noteq> 0 \<Longrightarrow> a \<noteq> 0 \<Longrightarrow> m c = None \<and> c \<noteq> a \<and> c \<noteq> b"
    using fr [of m2 "n + 2"] null by (auto simp: c_def m2_def m1_def split: if_splits)
  consider (a) "a = 0" | (b) "a \<noteq> 0" "b = 0" | (c) "a \<noteq> 0" "b \<noteq> 0" "c = 0"
    | (ok) "a \<noteq> 0" "b \<noteq> 0" "c \<noteq> 0" by blast
  note outcomes = this
  show "r = 0 \<or> r = - ENOMEM" using run' by (auto split: if_splits)
  show "r = 0 \<Longrightarrow> wf_sensor m' s'"
    using run' a b c by (auto simp: wf_sensor_def N_LUNIX_MSR_def m1_def m2_def
        intro!: wf_init_page split: if_splits)
  show "r = 0 \<longleftrightarrow> 0 \<notin> set (msr_data s')" using run' by (auto split: if_splits)
  show "length (msr_data s') = N_LUNIX_MSR" "wq s' = []" "\<not> sensor_lock s'"
    using run' by (auto simp: N_LUNIX_MSR_def split: if_splits)
  show "distinct (filter (\<lambda>p. p \<noteq> 0) (msr_data s'))"
    using run' a b c by (cases rule: outcomes) auto
  show "m p = None \<and> m' p = Some init_page" if "p \<in> set (msr_data s')" "p \<noteq> 0" for p
    using run' a b c that by (cases rule: outcomes) (auto simp: m1_def m2_def)
  show "m' p = m p" if "p \<notin> set (msr_data s') - {0}" for p
    using run' a b c that by (cases rule: outcomes) (auto simp: m1_def m2_def)
qed


section \<open>Destruction\<close>

lemma sensor_destroy_loop_eq:
  "distinct (filter (\<lambda>p. p \<noteq> 0) ps) \<Longrightarrow> \<forall>p \<in> set ps. p \<noteq> 0 \<longrightarrow> m p \<noteq> None \<Longrightarrow>
    sensor_destroy_loop ps m = Some (\<lambda>p. if p \<in> set ps - {0} then None else m p)"
proof (induction ps arbitrary: m)
  case Nil
  then show ?case by simp
next
  case (Cons p ps)
  show ?case
  proof (cases "p = 0")
    case True
    with Cons show ?thesis by (auto cong: if_cong)
  next
    case False
    then obtain d where "m p = Some d" using Cons.prems(2) by auto
    moreover have "sensor_destroy_loop ps (m(p := None)) =
        Some (\<lambda>q. if q \<in> set ps - {0} then None else (m(p := None)) q)"
      using Cons.prems False by (intro Cons.IH) auto
    ultimately show ?thesis
      using False by (auto simp: free_page_def fun_eq_iff)
  qed
qed

lemma lunix_sensor_destroy_eq:
  assumes "length (msr_data s) = N_LUNIX_MSR" "distinct (filter (\<lambda>p. p \<noteq> 0) (msr_data s))"
    and "\<forall>p \<in> set (msr_data s). p \<noteq> 0 \<longrightarrow> m p \<noteq> None"
  shows "lunix_sensor_destroy s m = Some (\<lambda>p. if p \<in> set (msr_data s) - {0} then None else m p)"
proof -
  have "map (\<lambda>i. msr_data s ! i) [0..<N_LUNIX_MSR] = msr_data s"
    using assms(1) by (metis map_nth)
  then show ?thesis
    using sensor_destroy_loop_eq [OF assms(2,3)] by (simp add: lunix_sensor_destroy_def)
qed

text \<open>Destroying what an initialization left, complete or not, gives the heap back.\<close>

lemma lunix_sensor_init_destroy:
  assumes fresh: "fresh_pages gzp" and null: "m 0 = None"
    and run: "lunix_sensor_init gzp s (m, n) = (r, s', (m', n'))"
  shows "lunix_sensor_destroy s' m' = Some m"
proof -
  note works = lunix_sensor_init_works [OF fresh null run]
  have "lunix_sensor_destroy s' m' = Some (\<lambda>p. if p \<in> set (msr_data s') - {0} then None else m' p)"
    using works(4) by (intro lunix_sensor_destroy_eq works(6) works(7)) auto
  also have "(\<lambda>p. if p \<in> set (msr_data s') - {0} then None else m' p) = m"
    using works(4,5) by (auto simp: fun_eq_iff)
  finally show ?thesis .
qed

lemma wf_sensor_destroy:
  assumes "wf_sensor m s"
  shows "lunix_sensor_destroy s m = Some (\<lambda>p. if p \<in> set (msr_data s) then None else m p)"
proof -
  have nz: "0 \<notin> set (msr_data s)"
    using assms by (auto simp: wf_sensor_def list_all_iff wf_page_def)
  then have "filter (\<lambda>p. p \<noteq> 0) (msr_data s) = msr_data s" by (auto simp: filter_id_conv)
  with nz show ?thesis
    using assms lunix_sensor_destroy_eq [of s m]
    by (auto simp: wf_sensor_def list_all_iff wf_page_def split: option.splits)
qed

end
