(* ===== verification/Protocol.thy ===== *)
theory Protocol
  imports Sensors
begin

text \<open>
  The XMesh packet protocol of \<open>lunix-protocol.h\<close> and \<open>lunix-protocol.c\<close>: the state
  of the receiver, the byte loop \<open>lunix_protocol_parse_state\<close> and the entry point
  \<open>lunix_protocol_received_buf\<close>, as the code has them. The constant \<open>LUNIX_DEBUG\<close> of
  the build changes the loop, so it is an argument \<open>dbg\<close> of the functions.
\<close>

section \<open>Constants and state\<close>

definition MAX_PACKET_LEN :: nat where "MAX_PACKET_LEN = 300"
definition PACKET_SIGNATURE_OFFSET :: nat where "PACKET_SIGNATURE_OFFSET = 4"
definition NODE_OFFSET :: nat where "NODE_OFFSET = 9"
definition VREF_OFFSET :: nat where "VREF_OFFSET = 18"
definition TEMPERATURE_OFFSET :: nat where "TEMPERATURE_OFFSET = 20"
definition LIGHT_OFFSET :: nat where "LIGHT_OFFSET = 22"

lemmas offset_defs = PACKET_SIGNATURE_OFFSET_def NODE_OFFSET_def VREF_OFFSET_def
  TEMPERATURE_OFFSET_def LIGHT_OFFSET_def

text \<open>The states of the machine, the constants 1 to 9 of the header.\<close>

datatype protocol_phase =
    SEEKING_START_BYTE
  | SEEKING_PACKET_TYPE
  | SEEKING_DESTINATION_ADDRESS
  | SEEKING_AM_TYPE
  | SEEKING_AM_GROUP
  | SEEKING_PAYLOAD_LENGTH
  | SEEKING_PAYLOAD
  | SEEKING_CRC
  | SEEKING_END_BYTE

text \<open>
  \<open>struct lunix_protocol_state_struct\<close>. The counters are C ints that are only set to
  constants or to an unsigned char and incremented, so they are naturals. Nothing writes
  \<open>payload_length\<close>: the code uses a local variable of that name.
\<close>

record lunix_protocol_state_struct =
  phase :: protocol_phase
  bytes_read :: nat
  bytes_to_read :: nat
  pos :: nat
  next_is_special :: u8
  payload_length :: u8
  packet :: "u8 list"

section \<open>Helpers\<close>

text \<open>\<open>uint16_from_packet\<close>: two bytes, little-endian.\<close>

definition uint16_from_packet :: "u8 list \<Rightarrow> nat \<Rightarrow> u16" where
  "uint16_from_packet p off = ucast (p ! off) OR push_bit 8 (ucast (p ! Suc off))"

definition set_state ::
  "lunix_protocol_state_struct \<Rightarrow> protocol_phase \<Rightarrow> nat \<Rightarrow> nat \<Rightarrow> lunix_protocol_state_struct"
where
  "set_state statep st btr br = statep\<lparr>phase := st, bytes_to_read := btr, bytes_read := br\<rparr>"

definition lunix_protocol_init :: "lunix_protocol_state_struct \<Rightarrow> lunix_protocol_state_struct" where
  "lunix_protocol_init st =
     set_state (st\<lparr>pos := 0, next_is_special := 0\<rparr>) SEEKING_START_BYTE 1 0"

section \<open>The byte loop\<close>

text \<open>
  One pass of the loop body after the two guards: the escape handling when \<open>use_specials\<close>
  is 1, a plain store otherwise. \<open>0x7E\<close> and \<open>0x7D\<close> announce a special byte and are
  not stored; the byte after \<open>0x7D\<close> is stored with bit 5 flipped.
\<close>

definition store_byte :: "lunix_protocol_state_struct \<Rightarrow> u8 \<Rightarrow> lunix_protocol_state_struct" where
  "store_byte st b = st\<lparr>packet := (packet st)[pos st := b]\<rparr>"

definition bump :: "lunix_protocol_state_struct \<Rightarrow> lunix_protocol_state_struct" where
  "bump st = st\<lparr>pos := pos st + 1, bytes_read := bytes_read st + 1\<rparr>"

definition parse_byte ::
  "bool \<Rightarrow> lunix_protocol_state_struct \<Rightarrow> u8 \<Rightarrow> lunix_protocol_state_struct"
where
  "parse_byte use_specials st b =
     (if use_specials then
        if next_is_special st \<noteq> 0 then
          let st = (if next_is_special st = 0x7E then store_byte st b else st);
              st = (if next_is_special st = 0x7D then store_byte st (b XOR 0x20) else st)
          in (bump st)\<lparr>next_is_special := 0\<rparr>
        else if b = 0x7E \<or> b = 0x7D then st\<lparr>next_is_special := b\<rparr>
        else bump (store_byte st b)
      else bump (store_byte st b))"

text \<open>
  The loop of \<open>lunix_protocol_parse_state\<close>. It returns -1 on the 50th pass of a debug build
  and when the packet buffer is full, otherwise 1 or 0 by whether the field is complete. The
  index into \<open>data\<close> is returned with the state.
\<close>

function parse_loop ::
  "bool \<Rightarrow> u8 list \<Rightarrow> bool \<Rightarrow> int \<Rightarrow> lunix_protocol_state_struct \<Rightarrow> nat
     \<Rightarrow> int \<times> lunix_protocol_state_struct \<times> nat"
where
  "parse_loop dbg data use_specials iter st i =
     (if i < length data \<and> bytes_read st < bytes_to_read st then
        if dbg \<and> iter + 1 = 50 then (-1, st, i)
        else if pos st = MAX_PACKET_LEN then (-1, st\<lparr>pos := 0\<rparr>, i)
        else parse_loop dbg data use_specials (iter + 1) (parse_byte use_specials st (data ! i)) (Suc i)
      else (if bytes_read st = bytes_to_read st then 1 else 0, st, i))"
  by pat_completeness auto
termination
  by (relation "measure (\<lambda>(dbg, data, sp, iter, st, i). length data - i)") auto

declare parse_loop.simps [simp del]

definition lunix_protocol_parse_state ::
  "bool \<Rightarrow> lunix_protocol_state_struct \<Rightarrow> u8 list \<Rightarrow> nat \<Rightarrow> bool
     \<Rightarrow> int \<times> lunix_protocol_state_struct \<times> nat"
where
  "lunix_protocol_parse_state dbg st data i use_specials = parse_loop dbg data use_specials 0 st i"

section \<open>Sensor update from a packet\<close>

text \<open>
  The globals the protocol acts on: the sensor array, its length parameter
  \<open>lunix_sensor_cnt\<close>, the page heap, and the processes made runnable so far.
\<close>

record lunix_world =
  sensors :: "lunix_sensor_struct list"
  lunix_sensor_cnt :: int
  pages :: page_heap
  runnable :: "pid list"

text \<open>
  An index outside the array is an Oops. The warning about an id out of bounds is output only
  and leaves no trace in the state.
\<close>

definition lunix_protocol_update_sensors ::
  "lunix_protocol_state_struct \<Rightarrow> u64 \<Rightarrow> lunix_world \<Rightarrow> lunix_world option"
where
  "lunix_protocol_update_sensors st now w =
     (if packet st ! PACKET_SIGNATURE_OFFSET = 0x0B then
        let nodeid = uint16_from_packet (packet st) NODE_OFFSET;
            batt = uint16_from_packet (packet st) VREF_OFFSET;
            temp = uint16_from_packet (packet st) TEMPERATURE_OFFSET;
            light = uint16_from_packet (packet st) LIGHT_OFFSET
        in if 0 < uint nodeid \<and> uint nodeid \<le> lunix_sensor_cnt w then
             let k = unat nodeid - 1 in
             if length (sensors w) \<le> k then None
             else do {
               (s, m, woken) \<leftarrow> lunix_sensor_update (sensors w ! k) batt temp light now (pages w);
               Some (w\<lparr>sensors := (sensors w)[k := s], pages := m, runnable := runnable w @ woken\<rparr>)
             }
           else Some w
      else Some w)"

section \<open>The entry point\<close>

text \<open>
  One \<open>if (state->state == cur) if (parse_state(...) == 1) set_state(...)\<close> of
  \<open>lunix_protocol_received_buf\<close>: the state and the index flow from one to the next.
\<close>

definition rx_stage ::
  "bool \<Rightarrow> u8 list \<Rightarrow> protocol_phase \<Rightarrow> bool
     \<Rightarrow> (lunix_protocol_state_struct \<Rightarrow> lunix_protocol_state_struct)
     \<Rightarrow> lunix_protocol_state_struct \<times> nat \<Rightarrow> lunix_protocol_state_struct \<times> nat"
where
  "rx_stage dbg buf cur use_specials on_done si =
     (case si of (st, i) \<Rightarrow>
        if phase st = cur then
          (case lunix_protocol_parse_state dbg st buf i use_specials of
             (r, st', i') \<Rightarrow> if r = 1 then (on_done st', i') else (st', i'))
        else (st, i))"

text \<open>The eight fields before the end byte.\<close>

definition rx_fields ::
  "bool \<Rightarrow> lunix_protocol_state_struct \<Rightarrow> u8 list \<Rightarrow> lunix_protocol_state_struct \<times> nat"
where
  "rx_fields dbg st buf =
     (let si = (st, 0);
          si = rx_stage dbg buf SEEKING_START_BYTE False (\<lambda>s. set_state s SEEKING_PACKET_TYPE 1 0) si;
          si = rx_stage dbg buf SEEKING_PACKET_TYPE False (\<lambda>s. set_state s SEEKING_DESTINATION_ADDRESS 2 0) si;
          si = rx_stage dbg buf SEEKING_DESTINATION_ADDRESS True (\<lambda>s. set_state s SEEKING_AM_TYPE 1 0) si;
          si = rx_stage dbg buf SEEKING_AM_TYPE True (\<lambda>s. set_state s SEEKING_AM_GROUP 1 0) si;
          si = rx_stage dbg buf SEEKING_AM_GROUP True (\<lambda>s. set_state s SEEKING_PAYLOAD_LENGTH 1 0) si;
          si = rx_stage dbg buf SEEKING_PAYLOAD_LENGTH True
                 (\<lambda>s. set_state s SEEKING_PAYLOAD (unat (packet s ! (pos s - 1))) 0) si;
          si = rx_stage dbg buf SEEKING_PAYLOAD True (\<lambda>s. set_state s SEEKING_CRC 2 0) si
      in rx_stage dbg buf SEEKING_CRC True (\<lambda>s. set_state s SEEKING_END_BYTE 1 0) si)"

definition lunix_protocol_received_buf ::
  "bool \<Rightarrow> u64 \<Rightarrow> lunix_protocol_state_struct \<Rightarrow> u8 list \<Rightarrow> lunix_world
     \<Rightarrow> (lunix_protocol_state_struct \<times> lunix_world) option"
where
  "lunix_protocol_received_buf dbg now st buf w =
     (case rx_fields dbg st buf of (st, i) \<Rightarrow>
        if phase st = SEEKING_END_BYTE then
          (case lunix_protocol_parse_state dbg st buf i False of
             (r, st', i') \<Rightarrow>
               if r = 1 then do {
                 w' \<leftarrow> lunix_protocol_update_sensors st' now w;
                 Some (set_state (st'\<lparr>pos := 0, next_is_special := 0\<rparr>) SEEKING_START_BYTE 1 0, w')
               }
               else Some (st', w))
        else Some (st, w))"

end
