(* ===== verification/Receiver.thy ===== *)
theory Receiver
  imports Protocol
begin

text \<open>
  A reference receiver for the packet protocol, one byte at a time, and the proof that
  \<open>lunix_protocol_received_buf\<close> computes it. The invariants of the receiver state are
  proved here on the reference and carried over.
\<close>

section \<open>Fields\<close>

instantiation protocol_phase :: linorder
begin

fun phase_number :: "protocol_phase \<Rightarrow> nat" where
  "phase_number SEEKING_START_BYTE = 1"
| "phase_number SEEKING_PACKET_TYPE = 2"
| "phase_number SEEKING_DESTINATION_ADDRESS = 3"
| "phase_number SEEKING_AM_TYPE = 4"
| "phase_number SEEKING_AM_GROUP = 5"
| "phase_number SEEKING_PAYLOAD_LENGTH = 6"
| "phase_number SEEKING_PAYLOAD = 7"
| "phase_number SEEKING_CRC = 8"
| "phase_number SEEKING_END_BYTE = 9"

definition less_eq_protocol_phase :: "protocol_phase \<Rightarrow> protocol_phase \<Rightarrow> bool" where
  "less_eq_protocol_phase a b \<longleftrightarrow> phase_number a \<le> phase_number b"

definition less_protocol_phase :: "protocol_phase \<Rightarrow> protocol_phase \<Rightarrow> bool" where
  "less_protocol_phase a b \<longleftrightarrow> phase_number a < phase_number b"

instance
proof
  fix a b :: protocol_phase
  show "a \<le> b \<Longrightarrow> b \<le> a \<Longrightarrow> a = b"
    by (cases a; cases b) (simp_all add: less_eq_protocol_phase_def)
qed (auto simp: less_eq_protocol_phase_def less_protocol_phase_def)

end

text \<open>Which fields honour escapes, where a field starts in the packet, how long it is.\<close>

fun escaped :: "protocol_phase \<Rightarrow> bool" where
  "escaped SEEKING_START_BYTE = False"
| "escaped SEEKING_PACKET_TYPE = False"
| "escaped SEEKING_END_BYTE = False"
| "escaped _ = True"

definition announced :: "u8 list \<Rightarrow> nat" where
  "announced p = unat (p ! 6)"

fun field_start :: "protocol_phase \<Rightarrow> u8 list \<Rightarrow> nat" where
  "field_start SEEKING_START_BYTE p = 0"
| "field_start SEEKING_PACKET_TYPE p = 1"
| "field_start SEEKING_DESTINATION_ADDRESS p = 2"
| "field_start SEEKING_AM_TYPE p = 4"
| "field_start SEEKING_AM_GROUP p = 5"
| "field_start SEEKING_PAYLOAD_LENGTH p = 6"
| "field_start SEEKING_PAYLOAD p = 7"
| "field_start SEEKING_CRC p = 7 + announced p"
| "field_start SEEKING_END_BYTE p = 9 + announced p"

fun field_len :: "protocol_phase \<Rightarrow> u8 list \<Rightarrow> nat" where
  "field_len SEEKING_DESTINATION_ADDRESS p = 2"
| "field_len SEEKING_PAYLOAD p = announced p"
| "field_len SEEKING_CRC p = 2"
| "field_len _ p = 1"

text \<open>
  The invariant. Between calls a field is never complete (\<open>proto_inv\<close>); inside a call it may
  be (\<open>proto_shape\<close>).
\<close>

definition proto_shape :: "lunix_protocol_state_struct \<Rightarrow> bool" where
  "proto_shape st \<longleftrightarrow> length (packet st) = MAX_PACKET_LEN
     \<and> bytes_to_read st = field_len (phase st) (packet st)
     \<and> pos st = field_start (phase st) (packet st) + bytes_read st
     \<and> bytes_read st \<le> bytes_to_read st
     \<and> next_is_special st \<in> {0, 0x7E, 0x7D}
     \<and> (next_is_special st \<noteq> 0 \<longrightarrow> escaped (phase st) \<and> bytes_read st < bytes_to_read st)"

definition proto_inv :: "lunix_protocol_state_struct \<Rightarrow> bool" where
  "proto_inv st \<longleftrightarrow> proto_shape st \<and> bytes_read st < bytes_to_read st"

section \<open>The reference receiver\<close>

text \<open>Moving to the next field when one is complete; the end byte has no successor here.\<close>

fun next_field :: "lunix_protocol_state_struct \<Rightarrow> lunix_protocol_state_struct" where
  "next_field st = (case phase st of
     SEEKING_START_BYTE \<Rightarrow> set_state st SEEKING_PACKET_TYPE 1 0
   | SEEKING_PACKET_TYPE \<Rightarrow> set_state st SEEKING_DESTINATION_ADDRESS 2 0
   | SEEKING_DESTINATION_ADDRESS \<Rightarrow> set_state st SEEKING_AM_TYPE 1 0
   | SEEKING_AM_TYPE \<Rightarrow> set_state st SEEKING_AM_GROUP 1 0
   | SEEKING_AM_GROUP \<Rightarrow> set_state st SEEKING_PAYLOAD_LENGTH 1 0
   | SEEKING_PAYLOAD_LENGTH \<Rightarrow> set_state st SEEKING_PAYLOAD (announced (packet st)) 0
   | SEEKING_PAYLOAD \<Rightarrow> set_state st SEEKING_CRC 2 0
   | SEEKING_CRC \<Rightarrow> set_state st SEEKING_END_BYTE 1 0
   | SEEKING_END_BYTE \<Rightarrow> st)"

declare next_field.simps [simp del]

definition field_done :: "lunix_protocol_state_struct \<Rightarrow> bool" where
  "field_done st \<longleftrightarrow> bytes_read st = bytes_to_read st"

text \<open>An empty payload is complete at once, hence the second step.\<close>

definition settle :: "lunix_protocol_state_struct \<Rightarrow> lunix_protocol_state_struct" where
  "settle st = (if field_done st then
     (let st' = next_field st in if field_done st' then next_field st' else st') else st)"

text \<open>
  Consuming bytes up to the end of the first packet: the state, the bytes left over, and whether
  a packet was completed.
\<close>

fun rx_run ::
  "lunix_protocol_state_struct \<Rightarrow> u8 list \<Rightarrow> lunix_protocol_state_struct \<times> u8 list \<times> bool"
where
  "rx_run st [] = (st, [], False)"
| "rx_run st (b # bs) =
     (let st' = parse_byte (escaped (phase st)) st b in
      if phase st = SEEKING_END_BYTE then (st', bs, True) else rx_run (settle st') bs)"

section \<open>Preservation\<close>

lemma parse_byte_phase [simp]:
  "phase (parse_byte sp st b) = phase st" "bytes_to_read (parse_byte sp st b) = bytes_to_read st"
  by (simp_all add: parse_byte_def store_byte_def bump_def)

lemma field_start_bound: "field_start ph p + field_len ph p \<le> 265"
  using unat_u8_le_255 [of "p ! 6"] by (cases ph) (simp_all add: announced_def)

lemma proto_shape_pos: "proto_shape st \<Longrightarrow> pos st \<le> 265"
  using field_start_bound [of "phase st" "packet st"] by (simp add: proto_shape_def)

lemma proto_inv_pos: "proto_inv st \<Longrightarrow> pos st < 265"
  using field_start_bound [of "phase st" "packet st"] by (simp add: proto_inv_def proto_shape_def)


lemma announced_update:
  "pos st \<noteq> 6 \<Longrightarrow> announced ((packet st)[pos st := b]) = announced (packet st)"
  by (simp add: announced_def)

lemma field_update:
  assumes "proto_shape st" "bytes_read st < bytes_to_read st"
  shows "field_start (phase st) ((packet st)[pos st := b]) = field_start (phase st) (packet st)"
    and "field_len (phase st) ((packet st)[pos st := b]) = field_len (phase st) (packet st)"
  using assms announced_update [of st b]
  by (cases "phase st"; simp add: proto_shape_def)+

lemma parse_byte_shape:
  assumes shape: "proto_shape st" and more: "bytes_read st < bytes_to_read st"
  shows "proto_shape (parse_byte (escaped (phase st)) st b)"
  using shape more field_update [OF shape more]
  by (auto simp: proto_shape_def parse_byte_def store_byte_def bump_def Let_def)

lemma set_state_simps [simp]:
  "phase (set_state st ph btr br) = ph" "bytes_to_read (set_state st ph btr br) = btr"
  "bytes_read (set_state st ph btr br) = br" "pos (set_state st ph btr br) = pos st"
  "packet (set_state st ph btr br) = packet st"
  "next_is_special (set_state st ph btr br) = next_is_special st"
  by (simp_all add: set_state_def)

lemma next_field_shape:
  "proto_shape st \<Longrightarrow> field_done st \<Longrightarrow> proto_shape (next_field st)"
  by (cases "phase st") (auto simp: next_field.simps proto_shape_def field_done_def)

lemma next_field_not_done:
  assumes "field_done st" "phase st \<noteq> SEEKING_END_BYTE" "phase st \<noteq> SEEKING_PAYLOAD_LENGTH"
  shows "\<not> field_done (next_field st)"
  using assms by (cases "phase st") (auto simp: next_field.simps field_done_def)

text \<open>After a step forward a field is complete only when it is an empty payload.\<close>

definition proto_mid :: "lunix_protocol_state_struct \<Rightarrow> bool" where
  "proto_mid st \<longleftrightarrow> proto_shape st \<and>
     (bytes_read st < bytes_to_read st \<or> phase st = SEEKING_PAYLOAD)"

lemma next_field_mid:
  "proto_shape st \<Longrightarrow> field_done st \<Longrightarrow> phase st \<noteq> SEEKING_END_BYTE \<Longrightarrow> proto_mid (next_field st)"
  using next_field_shape [of st]
  by (cases "phase st") (auto simp: proto_mid_def next_field.simps)

lemma settle_not_done [simp]: "bytes_read st < bytes_to_read st \<Longrightarrow> settle st = st"
  by (simp add: settle_def field_done_def)

lemma settle_next_field:
  assumes "field_done st" "phase st \<noteq> SEEKING_END_BYTE"
  shows "settle (next_field st) = settle st"
proof (cases "field_done (next_field st)")
  case False
  with assms show ?thesis by (simp add: settle_def)
next
  case True
  then have "phase st = SEEKING_PAYLOAD_LENGTH"
    using assms next_field_not_done by blast
  then have "phase (next_field st) = SEEKING_PAYLOAD" by (simp add: next_field.simps)
  then have "\<not> field_done (next_field (next_field st))"
    using next_field_not_done [OF True] by simp
  then show ?thesis using True assms by (simp add: settle_def)
qed

lemma settle_inv:
  assumes "proto_shape st" "phase st \<noteq> SEEKING_END_BYTE \<or> \<not> field_done st"
  shows "proto_inv (settle st)"
proof (cases "field_done st")
  case False
  with assms show ?thesis
    by (simp add: settle_def proto_inv_def field_done_def proto_shape_def)
next
  case True
  let ?st = "next_field st"
  have end_byte: "phase st \<noteq> SEEKING_END_BYTE" using assms(2) True by blast
  have shape: "proto_shape ?st" using assms(1) True by (rule next_field_shape)
  show ?thesis
  proof (cases "field_done ?st")
    case False
    with True shape show ?thesis
      by (simp add: settle_def proto_inv_def field_done_def proto_shape_def)
  next
    case complete: True
    then have "phase st = SEEKING_PAYLOAD_LENGTH"
      using True end_byte next_field_not_done by blast
    then have "phase ?st = SEEKING_PAYLOAD" by (simp add: next_field.simps)
    then have "\<not> field_done (next_field ?st)" using next_field_not_done [OF complete] by simp
    moreover have "proto_shape (next_field ?st)" using shape complete by (rule next_field_shape)
    ultimately show ?thesis
      using True complete by (simp add: settle_def proto_inv_def field_done_def proto_shape_def)
  qed
qed

text \<open>The reference receiver keeps the invariant as long as the packet is not complete.\<close>

lemma rx_run_inv:
  "proto_inv st \<Longrightarrow> rx_run st bs = (st', rest, compl) \<Longrightarrow>
    if compl then proto_shape st' \<and> phase st' = SEEKING_END_BYTE \<and> field_done st'
    else proto_inv st' \<and> rest = []"
proof (induction st bs arbitrary: st' rest compl rule: rx_run.induct)
  case (1 st)
  then show ?case by auto
next
  case (2 st b bs)
  let ?p = "parse_byte (escaped (phase st)) st b"
  have shape: "proto_shape ?p"
    using "2.prems"(1) by (intro parse_byte_shape) (simp_all add: proto_inv_def)
  show ?case
  proof (cases "phase st = SEEKING_END_BYTE")
    case True
    then have "field_done ?p"
      using "2.prems"(1)
      by (simp add: parse_byte_def bump_def store_byte_def field_done_def proto_inv_def proto_shape_def)
    with True shape "2.prems"(2) show ?thesis by auto
  next
    case False
    then have inv: "proto_inv (settle ?p)" using shape by (intro settle_inv) simp_all
    have "rx_run (settle ?p) bs = (st', rest, compl)"
      using False "2.prems"(2) by (simp add: Let_def)
    then show ?thesis by (rule "2.IH" [OF refl False inv])
  qed
qed

lemma proto_init_inv:
  "length (packet st) = MAX_PACKET_LEN \<Longrightarrow> proto_inv (lunix_protocol_init st)"
  by (simp add: lunix_protocol_init_def proto_inv_def proto_shape_def)


section \<open>The code computes the reference\<close>

text \<open>
  The byte loop on one field keeps the invariant and returns 1 exactly when the field is
  complete. With \<open>short\<close>, a build without debugging or an input of less than 50 bytes, it
  also consumes what the reference consumes, and an incomplete field has exhausted the input.
\<close>

lemma parse_loop_rx:
  "parse_loop dbg data sp iter st i = (r, st', i') \<Longrightarrow>
    sp = escaped (phase st) \<Longrightarrow> proto_shape st \<Longrightarrow> phase st \<noteq> SEEKING_END_BYTE \<Longrightarrow>
    i \<le> length data \<Longrightarrow> (short \<Longrightarrow> dbg \<Longrightarrow> iter + int (length data - i) < 50) \<Longrightarrow>
    proto_shape st' \<and> phase st' = phase st \<and> i' \<le> length data
      \<and> (r = 1 \<longleftrightarrow> field_done st')
      \<and> (short \<longrightarrow> (\<not> field_done st' \<longrightarrow> i' = length data)
           \<and> rx_run (settle st) (drop i data) = rx_run (settle st') (drop i' data))"
proof (induction dbg data sp iter st i rule: parse_loop.induct)
  case (1 dbg data sp iter st i)
  note eq = parse_loop.simps [of dbg data sp iter st i]
  show ?case
  proof (cases "i < length data \<and> bytes_read st < bytes_to_read st")
    case False
    then have "st' = st" "i' = i" "r = (if bytes_read st = bytes_to_read st then 1 else 0)"
      using "1.prems"(1) eq by auto
    with "1.prems" False show ?thesis
      by (auto simp: field_done_def proto_shape_def)
  next
    case True
    let ?p = "parse_byte sp st (data ! i)"
    have pos: "pos st \<noteq> MAX_PACKET_LEN"
      using proto_inv_pos [of st] "1.prems"(3) True by (simp add: proto_inv_def MAX_PACKET_LEN_def)
    show ?thesis
    proof (cases "dbg \<and> iter + 1 = 50")
      case stop: True
      then have "r = -1 \<and> st' = st \<and> i' = i"
        using "1.prems"(1) unfolding eq by (simp only: True if_True simp_thms) simp
      then show ?thesis
        using "1.prems"(3,5,6) True stop by (auto simp: field_done_def)
    next
      case dbg: False
      have run: "parse_loop dbg data sp (iter + 1) ?p (Suc i) = (r, st', i')"
        using "1.prems"(1) unfolding eq by (simp only: True dbg pos if_True if_False simp_thms)
      have shape: "proto_shape ?p" using parse_byte_shape "1.prems"(2,3) True by simp
      have "proto_shape st' \<and> phase st' = phase ?p \<and> i' \<le> length data
        \<and> (r = 1 \<longleftrightarrow> field_done st')
        \<and> (short \<longrightarrow> (\<not> field_done st' \<longrightarrow> i' = length data)
             \<and> rx_run (settle ?p) (drop (Suc i) data) = rx_run (settle st') (drop i' data))"
        by (rule "1.IH" [OF True dbg pos run]) (use "1.prems" shape True in auto)
      moreover have "drop i data = data ! i # drop (Suc i) data"
        using True by (simp add: Cons_nth_drop_Suc)
      ultimately show ?thesis using True "1.prems"(2,4) by (simp add: Let_def)
    qed
  qed
qed

text \<open>
  The hand-over between the stages: the machine has moved past field \<open>k\<close> or stopped in an
  incomplete field, and what the reference makes of state and remaining input has not changed.
\<close>

definition rx_link ::
  "u8 list \<Rightarrow> bool \<Rightarrow> lunix_protocol_state_struct \<Rightarrow> nat \<Rightarrow> lunix_protocol_state_struct \<times> nat \<Rightarrow> bool"
where
  "rx_link buf short st0 k si \<longleftrightarrow> (case si of (st, i) \<Rightarrow>
     proto_mid st \<and> i \<le> length buf
     \<and> (short \<longrightarrow> rx_run st0 buf = rx_run (settle st) (drop i buf))
     \<and> (k < phase_number (phase st) \<or> \<not> field_done st \<and> (short \<longrightarrow> i = length buf)))"

lemma rx_stage_link:
  assumes link: "rx_link buf short st0 k si"
    and cur: "phase_number cur = Suc k" "cur \<noteq> SEEKING_END_BYTE" "sp = escaped cur"
    and dbg: "short \<Longrightarrow> dbg \<Longrightarrow> length buf < 50"
    and on_done: "\<And>st. phase st = cur \<Longrightarrow> proto_shape st \<Longrightarrow> field_done st \<Longrightarrow> on_done st = next_field st"
  shows "rx_link buf short st0 (Suc k) (rx_stage dbg buf cur sp on_done si)"
proof (cases si)
  case (Pair st i)
  have mid: "proto_mid st" and i: "i \<le> length buf"
    and run: "short \<Longrightarrow> rx_run st0 buf = rx_run (settle st) (drop i buf)"
    and past: "k < phase_number (phase st) \<or> \<not> field_done st \<and> (short \<longrightarrow> i = length buf)"
    using link Pair by (simp_all add: rx_link_def)
  show ?thesis
  proof (cases "phase st = cur")
    case False
    then have "phase_number (phase st) \<noteq> phase_number cur"
      by (cases "phase st"; cases cur) auto
    then show ?thesis
      using link False Pair cur by (auto simp: rx_link_def rx_stage_def)
  next
    case True
    obtain r st' i' where loop: "parse_loop dbg buf sp 0 st i = (r, st', i')"
      by (cases "parse_loop dbg buf sp 0 st i")
    have "proto_shape st' \<and> phase st' = phase st \<and> i' \<le> length buf
      \<and> (r = 1 \<longleftrightarrow> field_done st')
      \<and> (short \<longrightarrow> (\<not> field_done st' \<longrightarrow> i' = length buf)
           \<and> rx_run (settle st) (drop i buf) = rx_run (settle st') (drop i' buf))"
      by (rule parse_loop_rx [OF loop]) (use True cur mid i dbg in \<open>auto simp: proto_mid_def\<close>)
    then have shape: "proto_shape st'" and ph: "phase st' = cur" and i': "i' \<le> length buf"
      and r: "r = 1 \<longleftrightarrow> field_done st'" "short \<Longrightarrow> \<not> field_done st' \<Longrightarrow> i' = length buf"
      and run': "short \<Longrightarrow> rx_run st0 buf = rx_run (settle st') (drop i' buf)"
      using True run by auto
    show ?thesis
    proof (cases "field_done st'")
      case False
      then have "proto_mid st'" using shape by (simp add: proto_mid_def proto_shape_def field_done_def)
      with False r i' run' show ?thesis
        using Pair True loop
        by (simp add: rx_stage_def lunix_protocol_parse_state_def rx_link_def)
    next
      case complete: True
      have nxt: "on_done st' = next_field st'" by (rule on_done [OF ph shape complete])
      have "proto_mid (next_field st')"
        using next_field_mid [OF shape complete] ph cur(2) by simp
      moreover have "settle (next_field st') = settle st'"
        using settle_next_field [OF complete] ph cur(2) by simp
      moreover have "Suc k < phase_number (phase (next_field st'))"
        using cur(1,2) ph by (cases cur) (simp_all add: next_field.simps)
      ultimately show ?thesis
        using Pair True loop r complete nxt i' run'
        by (simp add: rx_stage_def lunix_protocol_parse_state_def rx_link_def)
    qed
  qed
qed

lemma length_field_read:
  assumes "proto_shape st" "phase st = SEEKING_PAYLOAD_LENGTH" "field_done st"
  shows "unat (packet st ! (pos st - 1)) = announced (packet st)"
  using assms by (simp add: proto_shape_def field_done_def announced_def)

lemma rx_fields_link:
  assumes inv: "proto_inv st" and dbg: "short \<Longrightarrow> dbg \<Longrightarrow> length buf < 50"
  shows "rx_link buf short st 8 (rx_fields dbg st buf)"
proof -
  have start: "rx_link buf short st 0 (st, 0)"
    using inv by (cases "phase st") (auto simp: rx_link_def proto_inv_def proto_mid_def)
  have stage: "rx_link buf short st (Suc k) (rx_stage dbg buf cur sp on_done si)"
    if "rx_link buf short st k si" "phase_number cur = Suc k" "cur \<noteq> SEEKING_END_BYTE" "sp = escaped cur"
      "\<And>st. phase st = cur \<Longrightarrow> proto_shape st \<Longrightarrow> field_done st \<Longrightarrow> on_done st = next_field st"
    for k si cur sp on_done
    using rx_stage_link [OF that(1-4) dbg that(5)] by simp
  have "rx_link buf short st (Suc (Suc (Suc (Suc (Suc (Suc (Suc (Suc 0)))))))) (rx_fields dbg st buf)"
    unfolding rx_fields_def Let_def
    by (intro stage start) (simp_all add: next_field.simps length_field_read [unfolded One_nat_def])
  then show ?thesis by (simp add: eval_nat_numeral)
qed

text \<open>The state after a packet.\<close>

definition restart :: "lunix_protocol_state_struct \<Rightarrow> lunix_protocol_state_struct" where
  "restart st = set_state (st\<lparr>pos := 0, next_is_special := 0\<rparr>) SEEKING_START_BYTE 1 0"

lemma restart_inv:
  assumes "proto_shape st"
  shows "proto_inv (restart st)"
  using assms by (simp add: restart_def proto_inv_def proto_shape_def)

lemma end_byte_loop:
  assumes "proto_inv st" "phase st = SEEKING_END_BYTE" "i \<le> length buf"
  shows "lunix_protocol_parse_state dbg st buf i False =
    (if i < length buf then (1, parse_byte False st (buf ! i), Suc i) else (0, st, i))"
proof -
  have br: "bytes_read st = 0" "bytes_to_read st = 1" "pos st \<noteq> MAX_PACKET_LEN"
    using assms(1,2) proto_inv_pos [OF assms(1)] by (auto simp: proto_inv_def proto_shape_def MAX_PACKET_LEN_def)
  have p: "bytes_read (parse_byte False st b) = 1" for b
    using br by (simp add: parse_byte_def store_byte_def bump_def)
  show ?thesis
    using br p parse_loop.simps [of dbg buf False 0 st i]
      parse_loop.simps [of dbg buf False 1 "parse_byte False st (buf ! i)" "Suc i"]
    by (simp add: lunix_protocol_parse_state_def)
qed

lemma end_byte_shape:
  assumes "proto_inv st" "phase st = SEEKING_END_BYTE"
  shows "proto_shape (parse_byte False st b)"
  using parse_byte_shape [of st b] assms by (simp add: proto_inv_def)

text \<open>
  The refinement: one call is one run of the reference; a complete packet goes to the sensors and
  what follows it in the buffer is dropped.
\<close>

lemma received_buf_rx:
  assumes inv: "proto_inv st" and dbg: "dbg \<Longrightarrow> length buf < 50"
  shows "lunix_protocol_received_buf dbg now st buf w =
    (case rx_run st buf of (st', rest, compl) \<Rightarrow>
       if compl then do { w' \<leftarrow> lunix_protocol_update_sensors st' now w; Some (restart st', w') }
       else Some (st', w))"
proof -
  obtain st1 i where f: "rx_fields dbg st buf = (st1, i)" by (cases "rx_fields dbg st buf")
  have "rx_link buf True st 8 (rx_fields dbg st buf)"
    by (rule rx_fields_link [OF inv]) (rule dbg)
  then have mid: "proto_mid st1" and i: "i \<le> length buf"
    and run: "rx_run st buf = rx_run (settle st1) (drop i buf)"
    and past: "8 < phase_number (phase st1) \<or> i = length buf \<and> \<not> field_done st1"
    by (auto simp: f rx_link_def)
  show ?thesis
  proof (cases "phase st1 = SEEKING_END_BYTE")
    case True
    then have inv1: "proto_inv st1" using mid by (simp add: proto_mid_def proto_inv_def)
    then have "settle st1 = st1" by (simp add: proto_inv_def)
    with run have run1: "rx_run st buf = rx_run st1 (drop i buf)" by simp
    show ?thesis
    proof (cases "i < length buf")
      case True
      then have "drop i buf = buf ! i # drop (Suc i) buf" by (simp add: Cons_nth_drop_Suc)
      with True run1 \<open>phase st1 = SEEKING_END_BYTE\<close> f end_byte_loop [OF inv1 _ i, of dbg] show ?thesis
        by (simp add: lunix_protocol_received_buf_def restart_def)
    next
      case False
      with run1 i \<open>phase st1 = SEEKING_END_BYTE\<close> f end_byte_loop [OF inv1 _ i, of dbg] show ?thesis
        by (simp add: lunix_protocol_received_buf_def)
    qed
  next
    case False
    with past have "i = length buf" "\<not> field_done st1" by (cases "phase st1"; simp)+
    moreover from this have "settle st1 = st1" by (simp add: settle_def)
    ultimately show ?thesis
      using False run f by (simp add: lunix_protocol_received_buf_def)
  qed
qed

text \<open>In every build, whatever the buffer: the shape of the outcome.\<close>

lemma received_buf_cases:
  assumes inv: "proto_inv st"
  obtains (incomplete) st' where
      "lunix_protocol_received_buf dbg now st buf w = Some (st', w)" "proto_inv st'"
  | (packet) st' where
      "lunix_protocol_received_buf dbg now st buf w =
         do { w' \<leftarrow> lunix_protocol_update_sensors st' now w; Some (restart st', w') }"
      "proto_shape st'"
proof -
  obtain st1 i where f: "rx_fields dbg st buf = (st1, i)" by (cases "rx_fields dbg st buf")
  have "rx_link buf False st 8 (rx_fields dbg st buf)"
    by (rule rx_fields_link [OF inv]) simp
  then have mid: "proto_mid st1" and i: "i \<le> length buf"
    and past: "8 < phase_number (phase st1) \<or> \<not> field_done st1"
    by (auto simp: f rx_link_def)
  show thesis
  proof (cases "phase st1 = SEEKING_END_BYTE")
    case True
    then have inv1: "proto_inv st1" using mid by (simp add: proto_mid_def proto_inv_def)
    show thesis
    proof (cases "i < length buf")
      case True
      show thesis
        by (rule packet [of "parse_byte False st1 (buf ! i)"])
          (use True \<open>phase st1 = SEEKING_END_BYTE\<close> f end_byte_loop [OF inv1 _ i, of dbg]
            end_byte_shape [OF inv1] in \<open>simp_all add: lunix_protocol_received_buf_def restart_def\<close>)
    next
      case False
      show thesis
        by (rule incomplete [of st1])
          (use False \<open>phase st1 = SEEKING_END_BYTE\<close> f end_byte_loop [OF inv1 _ i, of dbg] inv1
            in \<open>simp_all add: lunix_protocol_received_buf_def\<close>)
    qed
  next
    case False
    with past have "\<not> field_done st1" by (cases "phase st1"; simp)
    then have "proto_inv st1"
      using mid by (simp add: proto_mid_def proto_inv_def proto_shape_def field_done_def)
    with False f show thesis
      by (intro incomplete [of st1]) (simp_all add: lunix_protocol_received_buf_def)
  qed
qed

end
