(* ===== verification/Frames.thy ===== *)
theory Frames
  imports Receiver
begin

text \<open>
  The packets themselves: the frame layout documented in \<open>lunix-protocol.c\<close>, an encoder with
  the escapes the receiver undoes, and the proof that receiving an encoded frame leaves exactly
  its bytes in the packet buffer.
\<close>

section \<open>Writing a run of bytes into the packet buffer\<close>

fun overwrite :: "u8 list \<Rightarrow> nat \<Rightarrow> u8 list \<Rightarrow> u8 list" where
  "overwrite p k [] = p"
| "overwrite p k (x # xs) = overwrite (p[k := x]) (Suc k) xs"

lemma length_overwrite [simp]: "length (overwrite p k xs) = length p"
  by (induction xs arbitrary: p k) auto

lemma overwrite_eq:
  "k + length xs \<le> length p \<Longrightarrow> overwrite p k xs = take k p @ xs @ drop (k + length xs) p"
proof (induction xs arbitrary: p k)
  case Nil
  then show ?case by simp
next
  case (Cons x xs)
  then show ?case by (simp add: take_Suc_update)
qed

lemma overwrite_append:
  "overwrite (overwrite p k xs) (k + length xs) ys = overwrite p k (xs @ ys)"
proof (induction xs arbitrary: p k)
  case Nil
  then show ?case by simp
next
  case (Cons x xs)
  show ?case using Cons.IH [of "p[k := x]" "Suc k"] by simp
qed

lemma nth_overwrite:
  "k \<le> i \<Longrightarrow> i < k + length xs \<Longrightarrow> k + length xs \<le> length p \<Longrightarrow> overwrite p k xs ! i = xs ! (i - k)"
  by (auto simp: overwrite_eq nth_append)

lemma nth_overwrite_before: "i < k \<Longrightarrow> overwrite p k xs ! i = p ! i"
  by (induction xs arbitrary: p k) (simp_all add: nth_list_update)

section \<open>Receiving one field\<close>

definition put :: "lunix_protocol_state_struct \<Rightarrow> u8 \<Rightarrow> lunix_protocol_state_struct" where
  "put st b = bump (store_byte st b)"

text \<open>The escape a sender uses for the two special byte values.\<close>

definition escape :: "u8 \<Rightarrow> u8 list" where
  "escape b = (if b = 0x7E \<or> b = 0x7D then [0x7D, b XOR 0x20] else [b])"

lemma xor_twice: "(b XOR k) XOR k = (b :: u8)"
  by (simp add: xor.assoc)

lemma rx_put_escaped:
  assumes inv: "proto_inv st" and esc: "escaped (phase st)" and nis: "next_is_special st = 0"
  shows "rx_run st (escape b @ bs) = rx_run (settle (put st b)) bs"
proof (cases "b = 0x7E \<or> b = 0x7D")
  case False
  have "phase st \<noteq> SEEKING_END_BYTE" using esc by auto
  with False show ?thesis
    using esc nis by (simp add: escape_def parse_byte_def put_def)
next
  case True
  let ?st = "st\<lparr>next_is_special := 0x7D\<rparr>"
  have ph: "phase st \<noteq> SEEKING_END_BYTE" using esc by auto
  have "parse_byte True st 0x7D = ?st" using nis by (simp add: parse_byte_def)
  moreover have "settle ?st = ?st" using inv by (simp add: proto_inv_def)
  moreover have "parse_byte True ?st (b XOR 0x20) = put st b"
    using nis by (simp add: parse_byte_def put_def store_byte_def bump_def xor_twice)
  ultimately show ?thesis using True esc ph by (simp add: escape_def)
qed

lemma rx_put_plain:
  assumes "\<not> escaped (phase st)" "phase st \<noteq> SEEKING_END_BYTE"
  shows "rx_run st (b # bs) = rx_run (settle (put st b)) bs"
  using assms by (simp add: parse_byte_def put_def)

lemma put_inv:
  assumes "proto_inv st" "next_is_special st = 0" "Suc (bytes_read st) < bytes_to_read st"
  shows "proto_inv (put st b)" "settle (put st b) = put st b"
proof -
  have "proto_shape (put st b)"
    using assms field_update [of st b]
    by (simp add: put_def proto_inv_def proto_shape_def store_byte_def bump_def)
  then show "proto_inv (put st b)" "settle (put st b) = put st b"
    using assms(3) by (simp_all add: put_def proto_inv_def store_byte_def bump_def)
qed

text \<open>The state once the field's last bytes are written.\<close>

definition fill :: "lunix_protocol_state_struct \<Rightarrow> u8 list \<Rightarrow> lunix_protocol_state_struct" where
  "fill st xs = st\<lparr>packet := overwrite (packet st) (pos st) xs, pos := pos st + length xs,
     bytes_read := bytes_read st + length xs\<rparr>"

lemma rx_fill:
  "proto_inv st \<Longrightarrow> escaped (phase st) \<Longrightarrow> next_is_special st = 0 \<Longrightarrow> xs \<noteq> [] \<Longrightarrow>
    bytes_read st + length xs = bytes_to_read st \<Longrightarrow>
    rx_run st (concat (map escape xs) @ rest) = rx_run (settle (fill st xs)) rest"
proof (induction xs arbitrary: st)
  case Nil
  then show ?case by simp
next
  case (Cons x xs)
  have put: "put st x = fill st [x]" by (simp add: put_def fill_def store_byte_def bump_def)
  show ?case
  proof (cases "xs = []")
    case True
    then show ?thesis using rx_put_escaped [OF Cons.prems(1-3)] put by simp
  next
    case False
    then have more: "Suc (bytes_read st) < bytes_to_read st" using Cons.prems(5) by (cases xs) auto
    note p = put_inv [OF Cons.prems(1,3) more, of x]
    have "rx_run (put st x) (concat (map escape xs) @ rest) = rx_run (settle (fill (put st x) xs)) rest"
      by (rule Cons.IH)
        (use Cons.prems p False in \<open>simp_all add: put_def store_byte_def bump_def\<close>)
    moreover have "fill (put st x) xs = fill st (x # xs)"
      by (simp add: fill_def put_def store_byte_def bump_def)
    ultimately show ?thesis
      using rx_put_escaped [OF Cons.prems(1-3)] p(2) by simp
  qed
qed

text \<open>The receiver at the start of a field, the packet buffer given.\<close>

definition field_entry ::
  "lunix_protocol_state_struct \<Rightarrow> protocol_phase \<Rightarrow> u8 list \<Rightarrow> lunix_protocol_state_struct"
where
  "field_entry st ph p = st\<lparr>phase := ph, bytes_read := 0, bytes_to_read := field_len ph p,
     pos := field_start ph p, next_is_special := 0, packet := p\<rparr>"

lemma field_entry_inv:
  "length p = MAX_PACKET_LEN \<Longrightarrow> 0 < field_len ph p \<Longrightarrow> proto_inv (field_entry st ph p)"
  by (simp add: field_entry_def proto_inv_def proto_shape_def)

lemma rx_field:
  assumes "length p = MAX_PACKET_LEN" "escaped ph" "xs \<noteq> []" "length xs = field_len ph p"
  shows "rx_run (field_entry st ph p) (concat (map escape xs) @ rest) =
    rx_run (settle (fill (field_entry st ph p) xs)) rest"
proof -
  have "0 < field_len ph p" using assms(3,4) by (metis length_greater_0_conv)
  then have inv: "proto_inv (field_entry st ph p)" using assms(1) by (intro field_entry_inv)
  show ?thesis
    using assms by (intro rx_fill inv) (simp_all add: field_entry_def)
qed

lemma settle_simple_field:
  assumes len: "length xs = field_len ph p"
    and nxt: "(ph, ph') \<in> {(SEEKING_DESTINATION_ADDRESS, SEEKING_AM_TYPE), (SEEKING_AM_TYPE, SEEKING_AM_GROUP),
      (SEEKING_AM_GROUP, SEEKING_PAYLOAD_LENGTH), (SEEKING_PAYLOAD, SEEKING_CRC), (SEEKING_CRC, SEEKING_END_BYTE)}"
  shows "settle (fill (field_entry st ph p) xs) = field_entry st ph' (overwrite p (field_start ph p) xs)"
proof -
  have "announced (overwrite p (field_start ph p) xs) = announced p" if "ph = SEEKING_PAYLOAD \<or> ph = SEEKING_CRC"
    using that by (auto simp: announced_def nth_overwrite_before)
  then show ?thesis
    using nxt len
    by (auto simp: settle_def field_done_def next_field.simps fill_def field_entry_def set_state_def)
qed

lemma settle_length_field:
  assumes "length p = MAX_PACKET_LEN"
  shows "settle (fill (field_entry st SEEKING_PAYLOAD_LENGTH p) [n]) =
    (if n = 0 then field_entry st SEEKING_CRC (p[6 := n]) else field_entry st SEEKING_PAYLOAD (p[6 := n]))"
  using assms
  by (auto simp: settle_def field_done_def next_field.simps fill_def field_entry_def set_state_def
      announced_def MAX_PACKET_LEN_def unat_eq_zero)


section \<open>Frames\<close>

text \<open>
  The packet structure of the comment in \<open>lunix-protocol.c\<close>; the payload length byte is the
  length of the payload.
\<close>

record xmesh_frame =
  f_start :: u8
  f_type :: u8
  f_dest :: "u8 \<times> u8"
  f_am_type :: u8
  f_am_group :: u8
  f_payload :: "u8 list"
  f_crc :: "u8 \<times> u8"
  f_end :: u8

definition wf_frame :: "xmesh_frame \<Rightarrow> bool" where
  "wf_frame f \<longleftrightarrow> length (f_payload f) < 256"

definition frame_middle :: "xmesh_frame \<Rightarrow> u8 list" where
  "frame_middle f = [fst (f_dest f), snd (f_dest f), f_am_type f, f_am_group f,
     of_nat (length (f_payload f))] @ f_payload f @ [fst (f_crc f), snd (f_crc f)]"

text \<open>The bytes of the packet, and what a sender puts on the line.\<close>

definition frame_bytes :: "xmesh_frame \<Rightarrow> u8 list" where
  "frame_bytes f = [f_start f, f_type f] @ frame_middle f @ [f_end f]"

definition encode_frame :: "xmesh_frame \<Rightarrow> u8 list" where
  "encode_frame f = [f_start f, f_type f] @ concat (map escape (frame_middle f)) @ [f_end f]"

lemma length_frame_bytes: "length (frame_bytes f) = 10 + length (f_payload f)"
  by (simp add: frame_bytes_def frame_middle_def)

lemma proto_inv_start:
  assumes "proto_inv st" "phase st = SEEKING_START_BYTE"
  shows "st = field_entry st SEEKING_START_BYTE (packet st)"
  using assms by (cases st) (auto simp: field_entry_def proto_inv_def proto_shape_def)

lemma rx_run_start:
  "rx_run (field_entry st SEEKING_START_BYTE p) (b0 # b1 # bs) =
    rx_run (field_entry st SEEKING_DESTINATION_ADDRESS (overwrite p 0 [b0, b1])) bs"
proof -
  let ?s0 = "field_entry st SEEKING_START_BYTE p"
  let ?s1 = "field_entry st SEEKING_PACKET_TYPE (p[0 := b0])"
  have "settle (put ?s0 b0) = ?s1"
    by (auto simp: put_def field_entry_def store_byte_def bump_def settle_def field_done_def
        next_field.simps set_state_def)
  moreover have "settle (put ?s1 b1) = field_entry st SEEKING_DESTINATION_ADDRESS (overwrite p 0 [b0, b1])"
    by (auto simp: put_def field_entry_def store_byte_def bump_def settle_def field_done_def
        next_field.simps set_state_def)
  moreover have "rx_run ?s0 (b0 # b1 # bs) = rx_run (settle (put ?s0 b0)) (b1 # bs)"
    by (rule rx_put_plain) (simp_all add: field_entry_def)
  moreover have "rx_run ?s1 (b1 # bs) = rx_run (settle (put ?s1 b1)) bs"
    by (rule rx_put_plain) (simp_all add: field_entry_def)
  ultimately show ?thesis by simp
qed

text \<open>One field of the middle part, the packet so far being \<open>overwrite p 0 xs\<close>.\<close>

lemma rx_middle_field:
  assumes p: "length p = MAX_PACKET_LEN" and xs: "length xs = field_start ph (overwrite p 0 xs)"
    and ys: "ys \<noteq> []" "length ys = field_len ph (overwrite p 0 xs)"
    and nxt: "(ph, ph') \<in> {(SEEKING_DESTINATION_ADDRESS, SEEKING_AM_TYPE), (SEEKING_AM_TYPE, SEEKING_AM_GROUP),
      (SEEKING_AM_GROUP, SEEKING_PAYLOAD_LENGTH), (SEEKING_PAYLOAD, SEEKING_CRC), (SEEKING_CRC, SEEKING_END_BYTE)}"
  shows "rx_run (field_entry st ph (overwrite p 0 xs)) (concat (map escape ys) @ rest) =
    rx_run (field_entry st ph' (overwrite p 0 (xs @ ys))) rest"
proof -
  have "escaped ph" using nxt by auto
  then show ?thesis
    using rx_field [of "overwrite p 0 xs" ph ys st rest] settle_simple_field [OF ys(2) nxt, of st]
      overwrite_append [of p 0 xs ys] p ys xs by simp
qed

lemma rx_payload_and_crc:
  assumes p: "length p = MAX_PACKET_LEN" and xs: "length xs = 6" and n: "length ys < 256"
    and cs: "length cs = 2"
  shows "rx_run (field_entry st SEEKING_PAYLOAD_LENGTH (overwrite p 0 xs))
      (concat (map escape ([of_nat (length ys)] @ ys @ cs)) @ rest) =
    rx_run (field_entry st SEEKING_END_BYTE (overwrite p 0 (xs @ [of_nat (length ys)] @ ys @ cs))) rest"
proof -
  let ?n = "of_nat (length ys) :: u8"
  let ?q = "overwrite p 0 (xs @ [?n])"
  have cs_ne: "cs \<noteq> []" using cs by auto
  have un: "unat ?n = length ys" using n by (simp add: unat_of_nat)
  have q: "?q = (overwrite p 0 xs)[6 := ?n]"
    using overwrite_append [of p 0 xs "[?n]"] xs by simp
  have ann: "announced ?q = length ys"
    using p un unfolding q announced_def by (simp add: MAX_PACKET_LEN_def)
  have ann': "announced (overwrite p 0 ((xs @ [?n]) @ ys)) = length ys"
  proof -
    have "overwrite p 0 ((xs @ [?n]) @ ys) = overwrite ?q 7 ys"
      using overwrite_append [of p 0 "xs @ [?n]" ys] xs by simp
    then show ?thesis using ann by (simp add: announced_def nth_overwrite_before)
  qed
  have len: "rx_run (field_entry st SEEKING_PAYLOAD_LENGTH (overwrite p 0 xs)) (escape ?n @ bs) =
      rx_run (field_entry st (if ?n = 0 then SEEKING_CRC else SEEKING_PAYLOAD) ?q) bs" for bs
    using rx_field [of "overwrite p 0 xs" SEEKING_PAYLOAD_LENGTH "[?n]" st bs]
      settle_length_field [of "overwrite p 0 xs" st ?n] p q by simp
  have payload: "rx_run (field_entry st (if ?n = 0 then SEEKING_CRC else SEEKING_PAYLOAD) ?q)
      (concat (map escape ys) @ bs) =
    rx_run (field_entry st SEEKING_CRC (overwrite p 0 ((xs @ [?n]) @ ys))) bs" for bs
  proof (cases "ys = []")
    case True
    then show ?thesis by simp
  next
    case False
    then have "?n \<noteq> 0" using un by (metis length_0_conv unat_0)
    then show ?thesis
      using rx_middle_field [OF p, of "xs @ [?n]" SEEKING_PAYLOAD ys SEEKING_CRC st bs] False xs ann
      by simp
  qed
  have crc: "rx_run (field_entry st SEEKING_CRC (overwrite p 0 ((xs @ [?n]) @ ys))) (concat (map escape cs) @ bs) =
    rx_run (field_entry st SEEKING_END_BYTE (overwrite p 0 (((xs @ [?n]) @ ys) @ cs))) bs" for bs
    using rx_middle_field [OF p, of "(xs @ [?n]) @ ys" SEEKING_CRC cs SEEKING_END_BYTE st bs] xs ann' cs cs_ne
    by simp
  show ?thesis using len payload crc by simp
qed

text \<open>The round trip: receiving an encoded frame writes its bytes, and stops right after it.\<close>

lemma rx_run_frame:
  assumes inv: "proto_inv st" and start: "phase st = SEEKING_START_BYTE" and wf: "wf_frame f"
  obtains st' where "rx_run st (encode_frame f @ rest) = (st', rest, True)"
    "packet st' = overwrite (packet st) 0 (frame_bytes f)" "proto_shape st'"
proof -
  let ?p = "packet st"
  let ?h = "[f_start f, f_type f]"
  let ?d = "[fst (f_dest f), snd (f_dest f)]"
  let ?tail = "[of_nat (length (f_payload f))] @ f_payload f @ [fst (f_crc f), snd (f_crc f)]"
  have p: "length ?p = MAX_PACKET_LEN" using inv by (simp add: proto_inv_def proto_shape_def)
  have bs: "encode_frame f @ rest = ?h @ concat (map escape ?d) @ concat (map escape [f_am_type f]) @
      concat (map escape [f_am_group f]) @ concat (map escape ?tail) @ (f_end f # rest)"
    by (simp add: encode_frame_def frame_middle_def)
  have "rx_run st (encode_frame f @ rest) =
      rx_run (field_entry st SEEKING_DESTINATION_ADDRESS (overwrite ?p 0 ?h))
        (concat (map escape ?d) @ concat (map escape [f_am_type f]) @
         concat (map escape [f_am_group f]) @ concat (map escape ?tail) @ (f_end f # rest))"
    unfolding bs
    using proto_inv_start [OF inv start] rx_run_start [of st ?p "f_start f" "f_type f"] by simp
  also have "\<dots> = rx_run (field_entry st SEEKING_AM_TYPE (overwrite ?p 0 (?h @ ?d)))
        (concat (map escape [f_am_type f]) @ concat (map escape [f_am_group f]) @
         concat (map escape ?tail) @ (f_end f # rest))"
    by (rule rx_middle_field [OF p]) simp_all
  also have "\<dots> = rx_run (field_entry st SEEKING_AM_GROUP (overwrite ?p 0 ((?h @ ?d) @ [f_am_type f])))
        (concat (map escape [f_am_group f]) @ concat (map escape ?tail) @ (f_end f # rest))"
    by (rule rx_middle_field [OF p]) simp_all
  also have "\<dots> = rx_run (field_entry st SEEKING_PAYLOAD_LENGTH
        (overwrite ?p 0 (((?h @ ?d) @ [f_am_type f]) @ [f_am_group f])))
        (concat (map escape ?tail) @ (f_end f # rest))"
    by (rule rx_middle_field [OF p]) simp_all
  also have "\<dots> = rx_run (field_entry st SEEKING_END_BYTE
        (overwrite ?p 0 ((((?h @ ?d) @ [f_am_type f]) @ [f_am_group f]) @ ?tail))) (f_end f # rest)"
    by (rule rx_payload_and_crc [OF p]) (use wf in \<open>simp_all add: wf_frame_def\<close>)
  finally have run: "rx_run st (encode_frame f @ rest) = rx_run (field_entry st SEEKING_END_BYTE
      (overwrite ?p 0 ([f_start f, f_type f] @ frame_middle f))) (f_end f # rest)"
    by (simp add: frame_middle_def)
  let ?e = "field_entry st SEEKING_END_BYTE (overwrite ?p 0 ([f_start f, f_type f] @ frame_middle f))"
  have inv_e: "proto_inv ?e" using p by (intro field_entry_inv) simp_all
  have ph_e: "phase ?e = SEEKING_END_BYTE" by (simp add: field_entry_def)
  have pos_e: "pos ?e = length ([f_start f, f_type f] @ frame_middle f)"
  proof -
    have "overwrite ?p 0 ([f_start f, f_type f] @ frame_middle f) ! 6 = of_nat (length (f_payload f))"
      using p wf by (subst nth_overwrite) (simp_all add: frame_middle_def MAX_PACKET_LEN_def wf_frame_def)
    then show ?thesis
      using wf by (simp add: field_entry_def announced_def frame_middle_def unat_of_nat wf_frame_def)
  qed
  let ?r = "parse_byte False ?e (f_end f)"
  have "packet ?r = (packet ?e)[pos ?e := f_end f]"
    by (simp add: parse_byte_def store_byte_def bump_def)
  also have "packet ?e = overwrite ?p 0 ([f_start f, f_type f] @ frame_middle f)"
    by (simp add: field_entry_def)
  also have "\<dots>[pos ?e := f_end f] = overwrite ?p 0 (frame_bytes f)"
    unfolding pos_e
    using overwrite_append [of ?p 0 "[f_start f, f_type f] @ frame_middle f" "[f_end f]"]
    by (simp add: frame_bytes_def)
  finally have "packet ?r = overwrite ?p 0 (frame_bytes f)" .
  moreover have "proto_shape ?r" by (rule end_byte_shape [OF inv_e ph_e])
  moreover have "rx_run st (encode_frame f @ rest) = (?r, rest, True)"
    using run ph_e by simp
  ultimately show thesis using that by blast
qed

end
