(* ===== verification/Reporting.thy ===== *)
theory Reporting
  imports Frames
begin

text \<open>
  From packets to measurements: an abstract table of the latest report of every sensor, and the
  proof that \<open>lunix_protocol_update_sensors\<close> and \<open>lunix_protocol_received_buf\<close>
  implement its update. The first properties of the receiver are stated here.
\<close>

section \<open>The abstract table\<close>

type_synonym snapshot = "(lunix_msr_enum \<Rightarrow> (u16 \<times> u32) option) list"

definition snapshot_of :: "lunix_world \<Rightarrow> snapshot" where
  "snapshot_of w = map (sensor_peek (pages w)) (sensors w)"

text \<open>All sensors initialized, and the module parameter within the array.\<close>

definition wf_world :: "lunix_world \<Rightarrow> bool" where
  "wf_world w \<longleftrightarrow> wf_sensors (pages w) (sensors w) \<and> lunix_sensor_cnt w \<le> int (length (sensors w))"

text \<open>The sensor a packet reports on, if it is a sensor report with an id in range.\<close>

definition report_slot :: "int \<Rightarrow> u8 list \<Rightarrow> nat option" where
  "report_slot cnt p =
     (let nodeid = uint16_from_packet p 9 in
      if p ! 4 = 0x0B \<and> 0 < uint nodeid \<and> uint nodeid \<le> cnt then Some (unat nodeid - 1) else None)"

fun report_offset :: "lunix_msr_enum \<Rightarrow> nat" where
  "report_offset BATT = 18"
| "report_offset TEMP = 20"
| "report_offset LIGHT = 22"

definition apply_report :: "int \<Rightarrow> u64 \<Rightarrow> u8 list \<Rightarrow> snapshot \<Rightarrow> snapshot" where
  "apply_report cnt now p snap =
     (case report_slot cnt p of None \<Rightarrow> snap
      | Some j \<Rightarrow> snap[j := (\<lambda>k. Some (uint16_from_packet p (report_offset k), ucast now))])"

definition sleepers_of :: "lunix_world \<Rightarrow> nat option \<Rightarrow> pid list" where
  "sleepers_of w slot = (case slot of None \<Rightarrow> [] | Some j \<Rightarrow> wq (sensors w ! j))"

lemma length_snapshot [simp]: "length (snapshot_of w) = length (sensors w)"
  by (simp add: snapshot_of_def)

lemma snapshot_nth [simp]:
  "i < length (sensors w) \<Longrightarrow> snapshot_of w ! i = sensor_peek (pages w) (sensors w ! i)"
  by (simp add: snapshot_of_def)

lemma report_slot_less:
  assumes "wf_world w" "report_slot (lunix_sensor_cnt w) p = Some j"
  shows "j < length (sensors w)"
proof -
  let ?v = "uint16_from_packet p 9"
  have "0 < uint ?v" "uint ?v \<le> int (length (sensors w))" "j = unat ?v - 1"
    using assms by (simp_all add: report_slot_def wf_world_def Let_def split: if_splits)
  moreover have "uint ?v = int (unat ?v)" by simp
  ultimately show ?thesis by linarith
qed

lemma update_sensors_cases:
  "lunix_protocol_update_sensors st now w =
    (case report_slot (lunix_sensor_cnt w) (packet st) of None \<Rightarrow> Some w
     | Some j \<Rightarrow> if length (sensors w) \<le> j then None else do {
         (s, m, woken) \<leftarrow> lunix_sensor_update (sensors w ! j)
            (uint16_from_packet (packet st) 18) (uint16_from_packet (packet st) 20)
            (uint16_from_packet (packet st) 22) now (pages w);
         Some (w\<lparr>sensors := (sensors w)[j := s], pages := m, runnable := runnable w @ woken\<rparr>)
       })"
  by (simp add: lunix_protocol_update_sensors_def report_slot_def offset_defs Let_def)

lemma update_sensors_refines:
  assumes wf: "wf_world w"
  obtains w' where "lunix_protocol_update_sensors st now w = Some w'" "wf_world w'"
    "snapshot_of w' = apply_report (lunix_sensor_cnt w) now (packet st) (snapshot_of w)"
    "lunix_sensor_cnt w' = lunix_sensor_cnt w" "length (sensors w') = length (sensors w)"
    "runnable w' = runnable w @ sleepers_of w (report_slot (lunix_sensor_cnt w) (packet st))"
proof (cases "report_slot (lunix_sensor_cnt w) (packet st)")
  case None
  show thesis
    by (rule that [of w]) (use wf None in \<open>simp_all add: update_sensors_cases apply_report_def sleepers_of_def\<close>)
next
  case (Some j)
  let ?v = "\<lambda>k. uint16_from_packet (packet st) (report_offset k)"
  have j: "j < length (sensors w)" using wf Some by (rule report_slot_less)
  have all: "sensor_store.all_good (pages w) (sensors w)"
    using wf by (simp add: wf_world_def wf_sensors_all_good)
  obtain s m where
    u: "lunix_sensor_update (sensors w ! j) (?v BATT) (?v TEMP) (?v LIGHT) now (pages w) = Some (s, m, wq (sensors w ! j))"
    and good: "sensor_store.all_good m ((sensors w)[j := s])"
    and at_j: "\<And>k. sensor_peek m ((sensors w)[j := s] ! j) k =
      Some (case k of BATT \<Rightarrow> ?v BATT | TEMP \<Rightarrow> ?v TEMP | LIGHT \<Rightarrow> ?v LIGHT, ucast now)"
    and other: "\<And>i k. i < length (sensors w) \<Longrightarrow> i \<noteq> j \<Longrightarrow>
      sensor_peek m ((sensors w)[j := s] ! i) k = sensor_peek (pages w) (sensors w ! i) k"
    using sensor_store.update_nth [OF all j] by metis
  let ?w = "w\<lparr>sensors := (sensors w)[j := s], pages := m, runnable := runnable w @ wq (sensors w ! j)\<rparr>"
  have vals: "(case k of BATT \<Rightarrow> ?v BATT | TEMP \<Rightarrow> ?v TEMP | LIGHT \<Rightarrow> ?v LIGHT) = ?v k" for k
    by (cases k) simp_all
  have "snapshot_of ?w = (snapshot_of w)[j := (\<lambda>k. Some (?v k, ucast now))]"
  proof (rule nth_equalityI)
    fix i
    assume "i < length (snapshot_of ?w)"
    then show "snapshot_of ?w ! i = (snapshot_of w)[j := (\<lambda>k. Some (?v k, ucast now))] ! i"
      using at_j other j vals by (cases "i = j") (auto simp: fun_eq_iff)
  qed simp
  then show thesis
    using that [of ?w] Some u j wf good
    by (simp add: update_sensors_cases apply_report_def sleepers_of_def wf_world_def wf_sensors_all_good)
qed

section \<open>One buffer\<close>

text \<open>No buffer makes the driver Oops, whatever the build and the bytes.\<close>

lemma received_buf_keeps:
  assumes inv: "proto_inv st" and wf: "wf_world w"
  obtains st' w' where "lunix_protocol_received_buf dbg now st buf w = Some (st', w')"
    "proto_inv st'" "wf_world w'" "lunix_sensor_cnt w' = lunix_sensor_cnt w"
    "length (sensors w') = length (sensors w)"
proof (rule received_buf_cases [OF inv, of dbg now buf w])
  fix st1
  assume "lunix_protocol_received_buf dbg now st buf w = Some (st1, w)" "proto_inv st1"
  then show thesis using that wf by blast
next
  fix st1
  assume packet: "lunix_protocol_received_buf dbg now st buf w =
      do { w' \<leftarrow> lunix_protocol_update_sensors st1 now w; Some (restart st1, w') }"
    and shape: "proto_shape st1"
  obtain w' where "lunix_protocol_update_sensors st1 now w = Some w'" "wf_world w'"
    "lunix_sensor_cnt w' = lunix_sensor_cnt w" "length (sensors w') = length (sensors w)"
    using update_sensors_refines [OF wf, of st1 now] by metis
  then show thesis
    using that [of "restart st1" w'] packet restart_inv [OF shape] by simp
qed

lemma received_frame:
  assumes inv: "proto_inv st" and start: "phase st = SEEKING_START_BYTE" and wf: "wf_frame f"
    and world: "wf_world w" and dbg: "dbg \<Longrightarrow> length (encode_frame f @ rest) < 50"
  obtains st' w' where
    "lunix_protocol_received_buf dbg now st (encode_frame f @ rest) w = Some (st', w')"
    "proto_inv st'" "phase st' = SEEKING_START_BYTE" "wf_world w'"
    "snapshot_of w' = apply_report (lunix_sensor_cnt w) now
       (overwrite (packet st) 0 (frame_bytes f)) (snapshot_of w)"
    "runnable w' = runnable w @ sleepers_of w
       (report_slot (lunix_sensor_cnt w) (overwrite (packet st) 0 (frame_bytes f)))"
proof -
  obtain st1 where run: "rx_run st (encode_frame f @ rest) = (st1, rest, True)"
    and p: "packet st1 = overwrite (packet st) 0 (frame_bytes f)" and shape: "proto_shape st1"
    using rx_run_frame [OF inv start wf] by metis
  obtain w' where w': "lunix_protocol_update_sensors st1 now w = Some w'" "wf_world w'"
    "snapshot_of w' = apply_report (lunix_sensor_cnt w) now (packet st1) (snapshot_of w)"
    "runnable w' = runnable w @ sleepers_of w (report_slot (lunix_sensor_cnt w) (packet st1))"
    using update_sensors_refines [OF world, of st1 now] by metis
  have "lunix_protocol_received_buf dbg now st (encode_frame f @ rest) w = Some (restart st1, w')"
    using received_buf_rx [OF inv, of dbg "encode_frame f @ rest" now w] dbg run w'(1) by auto
  moreover have "phase (restart st1) = SEEKING_START_BYTE" by (simp add: restart_def)
  ultimately show thesis
    using that [of "restart st1" w'] w' p restart_inv [OF shape] by simp
qed


section \<open>Sensor reports\<close>

text \<open>A 16-bit value as the two bytes of the packet, low byte first.\<close>

definition le16 :: "u16 \<Rightarrow> u8 list" where
  "le16 v = [ucast v, ucast (drop_bit 8 v)]"

lemma length_le16 [simp]: "length (le16 v) = 2"
  by (simp add: le16_def)

lemma uint16_from_le16:
  assumes "p ! off = ucast v" "p ! Suc off = ucast (drop_bit 8 v)"
  shows "uint16_from_packet p off = v"
proof (rule bit_word_eqI)
  fix n
  assume "n < LENGTH(16)"
  then show "bit (uint16_from_packet p off) n = bit v n"
    using assms by (cases "n < 8") (auto simp: uint16_from_packet_def bit_simps)
qed

lemma uint16_from_append:
  assumes "length xs = off"
  shows "uint16_from_packet (xs @ le16 v @ ys) off = v"
  using assms by (intro uint16_from_le16) (simp_all add: le16_def nth_append)

text \<open>
  The payload of a sensor report: the node id at byte 9 of the packet, the three readings at
  bytes 18, 20 and 22, the other bytes free.
\<close>

definition report_payload ::
  "u8 list \<Rightarrow> u16 \<Rightarrow> u8 list \<Rightarrow> u16 \<Rightarrow> u16 \<Rightarrow> u16 \<Rightarrow> u8 list \<Rightarrow> u8 list"
where
  "report_payload hdr node mid batt temp light tail =
     hdr @ le16 node @ mid @ le16 batt @ le16 temp @ le16 light @ tail"

lemma report_fields:
  assumes frame: "f_am_type f = 0x0B" "f_payload f = report_payload hdr node mid batt temp light tail"
    and len: "length hdr = 2" "length mid = 7" "length p = MAX_PACKET_LEN" "wf_frame f"
  shows "overwrite p 0 (frame_bytes f) ! 4 = 0x0B"
    and "uint16_from_packet (overwrite p 0 (frame_bytes f)) 9 = node"
    and "uint16_from_packet (overwrite p 0 (frame_bytes f)) 18 = batt"
    and "uint16_from_packet (overwrite p 0 (frame_bytes f)) 20 = temp"
    and "uint16_from_packet (overwrite p 0 (frame_bytes f)) 22 = light"
proof -
  let ?q = "overwrite p 0 (frame_bytes f)"
  let ?h = "[f_start f, f_type f, fst (f_dest f), snd (f_dest f), f_am_type f, f_am_group f,
     of_nat (length (f_payload f))] @ hdr"
  have fit: "length (frame_bytes f) \<le> length p"
    using len(3,4) by (simp add: length_frame_bytes wf_frame_def MAX_PACKET_LEN_def)
  let ?rest = "tail @ [fst (f_crc f), snd (f_crc f), f_end f] @ drop (length (frame_bytes f)) p"
  have q: "?q = ?h @ le16 node @ mid @ le16 batt @ le16 temp @ le16 light @ ?rest"
  proof -
    have "?q = frame_bytes f @ drop (length (frame_bytes f)) p"
      using fit by (subst overwrite_eq) simp_all
    moreover have "frame_bytes f = ?h @ le16 node @ mid @ le16 batt @ le16 temp @ le16 light @
        tail @ [fst (f_crc f), snd (f_crc f), f_end f]"
      by (simp add: frame_bytes_def frame_middle_def frame(2) report_payload_def)
    ultimately show ?thesis by simp
  qed
  show "?q ! 4 = 0x0B" using q frame(1) by simp
  show "uint16_from_packet ?q 9 = node"
    unfolding q by (rule uint16_from_append) (simp add: len(1))
  have "?q = (?h @ le16 node @ mid) @ le16 batt @ (le16 temp @ le16 light @ ?rest)"
    using q by simp
  then show "uint16_from_packet ?q 18 = batt"
    by (simp only:) (rule uint16_from_append, simp add: len(1,2))
  have "?q = (?h @ le16 node @ mid @ le16 batt) @ le16 temp @ (le16 light @ ?rest)"
    using q by simp
  then show "uint16_from_packet ?q 20 = temp"
    by (simp only:) (rule uint16_from_append, simp add: len(1,2))
  have "?q = (?h @ le16 node @ mid @ le16 batt @ le16 temp) @ le16 light @ ?rest"
    using q by simp
  then show "uint16_from_packet ?q 22 = light"
    by (simp only:) (rule uint16_from_append, simp add: len(1,2))
qed

section \<open>Sequences of buffers\<close>

text \<open>The buffers of successive calls, each with the time of the call.\<close>

fun receive_all ::
  "bool \<Rightarrow> lunix_protocol_state_struct \<Rightarrow> (u64 \<times> u8 list) list \<Rightarrow> lunix_world
     \<Rightarrow> (lunix_protocol_state_struct \<times> lunix_world) option"
where
  "receive_all dbg st [] w = Some (st, w)"
| "receive_all dbg st ((now, buf) # bufs) w = do {
     (st', w') \<leftarrow> lunix_protocol_received_buf dbg now st buf w;
     receive_all dbg st' bufs w'
   }"

lemma rx_run_append:
  "rx_run st (xs @ ys) = (case rx_run st xs of (st', rest, compl) \<Rightarrow>
     if compl then (st', rest @ ys, True) else rx_run st' ys)"
proof (induction xs arbitrary: st)
  case Nil
  then show ?case by simp
next
  case (Cons x xs)
  show ?case
    using Cons.IH [of "settle (parse_byte (escaped (phase st)) st x)"] by (simp add: Let_def)
qed

text \<open>
  A packet in pieces: the calls before the last byte only fill the receiver, whatever their times
  are, and the call that brings the last byte does what a single call would do.
\<close>

lemma receive_all_append:
  "receive_all dbg st (xs @ ys) w =
    Option.bind (receive_all dbg st xs w) (\<lambda>(st', w'). receive_all dbg st' ys w')"
proof (induction xs arbitrary: st w)
  case Nil
  then show ?case by simp
next
  case (Cons x xs)
  obtain now b where x: "x = (now, b)" by (cases x)
  show ?case
    by (cases "lunix_protocol_received_buf dbg now st b w") (auto simp: x Cons.IH)
qed

lemma rx_run_prefix:
  assumes "rx_run st (xs @ ys) = (st1, [], True)" "ys \<noteq> []"
  obtains st2 where "rx_run st xs = (st2, [], False)" "rx_run st2 ys = (st1, [], True)"
proof -
  obtain st2 r c where run: "rx_run st xs = (st2, r, c)" by (cases "rx_run st xs")
  then have c: "\<not> c" using assms by (auto simp: rx_run_append)
  have "r = []" if "rx_run s bs = (s2, r, False)" for s bs s2 r
    using that by (induction s bs rule: rx_run.induct) (auto simp: Let_def split: if_splits)
  then have "r = []" using run c by auto
  then show thesis using that [of st2] run assms(1) c by (simp add: rx_run_append)
qed

lemma receive_incomplete:
  "proto_inv st \<Longrightarrow> dbg \<longrightarrow> (\<forall>x \<in> set bufs. length (snd x) < 50) \<Longrightarrow>
    rx_run st (concat (map snd bufs)) = (st1, [], False) \<Longrightarrow>
    receive_all dbg st bufs w = Some (st1, w) \<and> proto_inv st1"
proof (induction bufs arbitrary: st)
  case Nil
  then show ?case by simp
next
  case (Cons x bufs)
  obtain now b where x: "x = (now, b)" by (cases x)
  have lb: "dbg \<longrightarrow> length b < 50" using Cons.prems(2) x by simp
  obtain st2 r c where run: "rx_run st b = (st2, r, c)" by (cases "rx_run st b")
  have c: "\<not> c" and rest: "rx_run st2 (concat (map snd bufs)) = (st1, [], False)"
    using Cons.prems(3) run x by (auto simp: rx_run_append split: if_splits)
  have inv: "proto_inv st2" using rx_run_inv [OF Cons.prems(1) run] c by simp
  have "lunix_protocol_received_buf dbg now st b w = Some (st2, w)"
    using received_buf_rx [OF Cons.prems(1), of dbg b now w] lb run c by simp
  then show ?case using Cons.IH [OF inv _ rest] Cons.prems(2) x by simp
qed

lemma receive_all_keeps:
  "proto_inv st \<Longrightarrow> wf_world w \<Longrightarrow>
    \<exists>st' w'. receive_all dbg st bufs w = Some (st', w') \<and> proto_inv st' \<and> wf_world w'
      \<and> length (sensors w') = length (sensors w) \<and> lunix_sensor_cnt w' = lunix_sensor_cnt w"
proof (induction bufs arbitrary: st w)
  case Nil
  then show ?case by simp
next
  case (Cons x bufs)
  obtain now b where x: "x = (now, b)" by (cases x)
  obtain st2 w2 where step: "lunix_protocol_received_buf dbg now st b w = Some (st2, w2)"
    and inv: "proto_inv st2" "wf_world w2" and same: "lunix_sensor_cnt w2 = lunix_sensor_cnt w"
    "length (sensors w2) = length (sensors w)"
    using received_buf_keeps [OF Cons.prems, of dbg now b] by metis
  show ?case using Cons.IH [OF inv] step same x by simp
qed

end
