(* ===== verification/ReceiverProps.thy ===== *)
theory ReceiverProps
  imports Reporting
begin

text \<open>
  The properties of the protocol receiver and the sensor buffers, each with a concrete instance:
  round trip, refinement, safety, frames that arrive in pieces, and the three places where the
  receiver drops or invents data.
\<close>

section \<open>A concrete receiver and two sensors\<close>

definition sample_pages :: page_heap where
  "sample_pages = (\<lambda>p. if 0 < p \<and> p \<le> 6 then Some init_page else None)"

definition sample_world :: lunix_world where
  "sample_world = \<lparr>
     sensors = [\<lparr>msr_data = [1, 2, 3], sensor_lock = False, wq = []\<rparr>,
                \<lparr>msr_data = [4, 5, 6], sensor_lock = False, wq = [7]\<rparr>],
     lunix_sensor_cnt = 2, pages = sample_pages, runnable = []\<rparr>"

definition blank_state :: lunix_protocol_state_struct where
  "blank_state = \<lparr>phase = SEEKING_START_BYTE, bytes_read = 0, bytes_to_read = 0, pos = 0,
     next_is_special = 0, payload_length = 0, packet = replicate MAX_PACKET_LEN 0\<rparr>"

definition sample_state :: lunix_protocol_state_struct where
  "sample_state = lunix_protocol_init blank_state"

text \<open>A report of node 2; \<open>0x7E\<close> in a reading is escaped on the line.\<close>

definition sample_report :: xmesh_frame where
  "sample_report = \<lparr>f_start = 0x7E, f_type = 0x42, f_dest = (0x7E, 0), f_am_type = 0x0B,
     f_am_group = 0x7D, f_payload = report_payload [1, 2] 2 [0, 0, 0, 0, 0, 0, 0] 0x7E 0x1F0 9 [],
     f_crc = (3, 4), f_end = 0x7E\<rparr>"

text \<open>A frame of the same kind with only the node id as payload.\<close>

definition short_report :: xmesh_frame where
  "short_report = sample_report\<lparr>f_payload := [1, 2] @ le16 2\<rparr>"

lemma sample_world_wf: "wf_world sample_world"
proof -
  have page: "wf_page sample_pages p" if "0 < p" "p \<le> 6" for p
    using that by (intro wf_init_page) (auto simp: sample_pages_def)
  have "wf_sensor sample_pages (sensors sample_world ! 0)" "wf_sensor sample_pages (sensors sample_world ! 1)"
    by (simp_all add: sample_world_def wf_sensor_def N_LUNIX_MSR_def page)
  moreover have "set (msr_data (sensors sample_world ! 0)) \<inter> set (msr_data (sensors sample_world ! 1)) = {}"
    by (simp add: sample_world_def)
  ultimately show ?thesis
    by (simp add: wf_world_def wf_sensors_def sample_world_def All_less_Suc Int_commute)
qed

lemma sample_state_inv: "proto_inv sample_state" "phase sample_state = SEEKING_START_BYTE"
  by (simp_all add: sample_state_def lunix_protocol_init_def blank_state_def proto_inv_def proto_shape_def)

lemma length_encode_sample: "length (encode_frame sample_report) = 30"
  by (simp add: encode_frame_def frame_middle_def sample_report_def report_payload_def le16_def escape_def)

lemma sample_report_wf:
  "wf_frame sample_report" "f_am_type sample_report = 0x0B"
  "f_payload sample_report = report_payload [1, 2] 2 [0, 0, 0, 0, 0, 0, 0] 0x7E 0x1F0 9 []"
  by (simp_all add: wf_frame_def sample_report_def report_payload_def)

section \<open>Properties of the receiver\<close>

text \<open>C1: a sensor report survives the line. Whatever the header, CRC and end bytes are, when
  an idle receiver gets the encoded frame of node \<open>node\<close> with readings \<open>batt\<close>,
  \<open>temp\<close> and \<open>light\<close>, the call returns, exactly the three measurements of that node's
  sensor change, to the readings with the time of the call, its sleepers become runnable, and the
  receiver is idle again.\<close>

theorem report_round_trip:
  assumes "proto_inv st" "phase st = SEEKING_START_BYTE" "wf_world w"
    and "wf_frame f" "f_am_type f = 0x0B"
    and "f_payload f = report_payload hdr node mid batt temp light tail"
    and "length hdr = 2" "length mid = 7"
    and "0 < uint node" "uint node \<le> lunix_sensor_cnt w"
    and "dbg \<longrightarrow> length (encode_frame f) < 50"
  shows "\<exists>st' w'. lunix_protocol_received_buf dbg now st (encode_frame f) w = Some (st', w')
    \<and> proto_inv st' \<and> phase st' = SEEKING_START_BYTE \<and> wf_world w'
    \<and> snapshot_of w' = (snapshot_of w)[unat node - 1 :=
         (\<lambda>k. Some (case k of BATT \<Rightarrow> batt | TEMP \<Rightarrow> temp | LIGHT \<Rightarrow> light, ucast now))]
    \<and> runnable w' = runnable w @ wq (sensors w ! (unat node - 1))"
proof -
  let ?p = "overwrite (packet st) 0 (frame_bytes f)"
  have p: "length (packet st) = MAX_PACKET_LEN" using assms(1) by (simp add: proto_inv_def proto_shape_def)
  note fields = report_fields [OF assms(5,6,7,8) p assms(4)]
  have slot: "report_slot (lunix_sensor_cnt w) ?p = Some (unat node - 1)"
    using fields assms(9,10) by (simp add: report_slot_def)
  have "(\<lambda>k. Some (uint16_from_packet ?p (report_offset k), ucast now :: u32)) =
      (\<lambda>k. Some (case k of BATT \<Rightarrow> batt | TEMP \<Rightarrow> temp | LIGHT \<Rightarrow> light, ucast now))"
    using fields by (auto simp: fun_eq_iff split: lunix_msr_enum.split)
  then have ap: "apply_report (lunix_sensor_cnt w) now ?p s = s[unat node - 1 :=
      (\<lambda>k. Some (case k of BATT \<Rightarrow> batt | TEMP \<Rightarrow> temp | LIGHT \<Rightarrow> light, ucast now))]" for s
    using slot by (simp add: apply_report_def)
  show ?thesis
    by (rule received_frame [OF assms(1,2,4,3), of dbg "[]" now])
      (use assms(11) ap slot in \<open>auto simp: sleepers_of_def\<close>)
qed

lemma report_round_trip_witness:
  "\<exists>st' w'. lunix_protocol_received_buf True 77 sample_state (encode_frame sample_report) sample_world
      = Some (st', w')
    \<and> proto_inv st' \<and> phase st' = SEEKING_START_BYTE \<and> wf_world w'
    \<and> snapshot_of w' = (snapshot_of sample_world)[1 :=
         (\<lambda>k. Some (case k of BATT \<Rightarrow> 0x7E | TEMP \<Rightarrow> 0x1F0 | LIGHT \<Rightarrow> 9, 77))]
    \<and> runnable w' = [7]"
  using report_round_trip [OF sample_state_inv sample_world_wf sample_report_wf, of True 77]
  by (simp add: length_encode_sample) (simp add: sample_world_def)

text \<open>C2: the byte loop with its nine guarded stages, its index and its counters implements the
  reference receiver \<open>rx_run\<close>, which takes one byte after the other, and the abstract table of
  latest reports: one call runs the reference to the end of the first packet, and a complete
  packet changes the table by \<open>apply_report\<close>, nothing else does.\<close>

theorem received_buf_refines:
  assumes "proto_inv st" "wf_world w" "dbg \<longrightarrow> length buf < 50"
  shows "case rx_run st buf of (st', rest, compl) \<Rightarrow>
    (\<exists>w'. lunix_protocol_received_buf dbg now st buf w = Some (if compl then restart st' else st', w')
       \<and> snapshot_of w' = (if compl then apply_report (lunix_sensor_cnt w) now (packet st') (snapshot_of w)
                           else snapshot_of w))"
proof -
  obtain st' rest compl where run: "rx_run st buf = (st', rest, compl)" by (cases "rx_run st buf")
  obtain w' where "lunix_protocol_update_sensors st' now w = Some w'"
    "snapshot_of w' = apply_report (lunix_sensor_cnt w) now (packet st') (snapshot_of w)"
    using update_sensors_refines [OF assms(2), of st' now] by metis
  then show ?thesis
    using received_buf_rx [OF assms(1), of dbg buf now w] assms(3) run by auto
qed

lemma received_buf_refines_witness:
  "\<exists>w'. lunix_protocol_received_buf True 5 sample_state [1, 2, 3] sample_world =
    Some (fst (rx_run sample_state [1, 2, 3]), w') \<and> snapshot_of w' = snapshot_of sample_world"
  using received_buf_refines [OF sample_state_inv(1) sample_world_wf, of True "[1, 2, 3]" 5]
  by (simp add: sample_state_def lunix_protocol_init_def blank_state_def parse_byte_def store_byte_def
      bump_def settle_def field_done_def next_field.simps set_state_def Let_def MAX_PACKET_LEN_def)

text \<open>C6: no input makes the receiver Oops. From the initial state, after any sequence of
  buffers with any bytes, in a debug build or not, every call has returned, the receiver
  invariant holds with the write position at most 264 of the 300 bytes of the packet
  buffer, and the sensors are still well-formed.\<close>

theorem receiver_never_oopses:
  assumes "wf_world w" "length (packet st) = MAX_PACKET_LEN"
  shows "\<exists>st' w'. receive_all dbg (lunix_protocol_init st) bufs w = Some (st', w')
    \<and> proto_inv st' \<and> pos st' < 265 \<and> wf_world w'"
proof -
  have "proto_inv (lunix_protocol_init st)" using assms(2) by (rule proto_init_inv)
  from receive_all_keeps [OF this assms(1), of dbg bufs] show ?thesis
    using proto_inv_pos by blast
qed

lemma receiver_never_oopses_witness:
  "\<exists>st' w'. receive_all True (lunix_protocol_init blank_state) [(0, replicate 60 0x7E), (1, [])] sample_world
      = Some (st', w') \<and> proto_inv st' \<and> pos st' < 265 \<and> wf_world w'"
  by (rule receiver_never_oopses) (simp_all add: sample_world_wf blank_state_def)

text \<open>C7: a frame that arrives in pieces. If the buffers before the last one and the last, non-empty
  one together are an encoded frame, the calls before the last change no sensor, and the last call
  applies the report with its own time, however the line discipline has cut the frame. In a debug
  build it is the length of each piece that counts, not that of the frame.\<close>

theorem frame_in_pieces:
  assumes "proto_inv st" "phase st = SEEKING_START_BYTE" "wf_world w" "wf_frame f"
    and "concat (map snd bufs) @ b = encode_frame f" "b \<noteq> []"
    and "dbg \<longrightarrow> (\<forall>x \<in> set bufs. length (snd x) < 50) \<and> length b < 50"
  shows "\<exists>st1. receive_all dbg st bufs w = Some (st1, w)
    \<and> (\<exists>st' w'. receive_all dbg st (bufs @ [(now, b)]) w = Some (st', w')
        \<and> phase st' = SEEKING_START_BYTE
        \<and> snapshot_of w' = apply_report (lunix_sensor_cnt w) now
            (overwrite (packet st) 0 (frame_bytes f)) (snapshot_of w))"
proof -
  obtain sf where run: "rx_run st (encode_frame f) = (sf, [], True)"
    and p: "packet sf = overwrite (packet st) 0 (frame_bytes f)" and shape: "proto_shape sf"
    using rx_run_frame [OF assms(1,2,4), of "[]"] by auto
  from run assms(5) have "rx_run st (concat (map snd bufs) @ b) = (sf, [], True)" by simp
  then obtain st1 where pre: "rx_run st (concat (map snd bufs)) = (st1, [], False)"
    and post: "rx_run st1 b = (sf, [], True)"
    using assms(6) by (rule rx_run_prefix)
  have all: "receive_all dbg st bufs w = Some (st1, w)" and inv1: "proto_inv st1"
    using receive_incomplete [OF assms(1) _ pre, of dbg w] assms(7) by auto
  obtain w' where "lunix_protocol_update_sensors sf now w = Some w'"
    "snapshot_of w' = apply_report (lunix_sensor_cnt w) now (packet sf) (snapshot_of w)"
    using update_sensors_refines [OF assms(3), of sf now] by metis
  then show ?thesis
    using all received_buf_rx [OF inv1, of dbg b now w] assms(7) post p
    by (simp add: receive_all_append restart_def)
qed

lemma frame_in_pieces_witness:
  "\<exists>st' w'. receive_all True sample_state
      [(1, take 5 (encode_frame sample_report)), (2, drop 5 (encode_frame sample_report))] sample_world = Some (st', w')
    \<and> phase st' = SEEKING_START_BYTE
    \<and> snapshot_of w' = apply_report 2 2
         (overwrite (packet sample_state) 0 (frame_bytes sample_report)) (snapshot_of sample_world)"
proof -
  have "lunix_sensor_cnt sample_world = 2" by (simp add: sample_world_def)
  then show ?thesis
    using frame_in_pieces [OF sample_state_inv sample_world_wf sample_report_wf(1),
        of "[(1, take 5 (encode_frame sample_report))]" "drop 5 (encode_frame sample_report)" True 2]
    by (simp add: length_encode_sample flip: length_greater_0_conv)
qed

text \<open>What follows a complete packet in the same buffer is lost: the call with a frame and
  more bytes has the result of the call with the frame alone. The TTY layer may well deliver the
  end of one packet and the start of the next in one buffer.\<close>

theorem rest_of_buffer_dropped:
  assumes "proto_inv st" "phase st = SEEKING_START_BYTE" "wf_frame f"
    and "dbg \<longrightarrow> length (encode_frame f @ rest) < 50"
  shows "lunix_protocol_received_buf dbg now st (encode_frame f @ rest) w =
    lunix_protocol_received_buf dbg now st (encode_frame f) w"
proof -
  obtain s1 where "rx_run st (encode_frame f) = (s1, [], True)"
    using rx_run_frame [OF assms(1,2,3), of "[]"] by auto
  moreover have "dbg \<longrightarrow> length (encode_frame f) < 50" using assms(4) by auto
  ultimately show ?thesis
    using received_buf_rx [OF assms(1), of dbg "encode_frame f @ rest" now w]
      received_buf_rx [OF assms(1), of dbg "encode_frame f" now w] assms(4)
    by (simp add: rx_run_append)
qed

lemma rest_of_buffer_dropped_witness:
  "lunix_protocol_received_buf True 5 sample_state (encode_frame short_report @ encode_frame short_report) sample_world
    = lunix_protocol_received_buf True 5 sample_state (encode_frame short_report) sample_world"
  by (rule rest_of_buffer_dropped [OF sample_state_inv])
    (simp_all add: wf_frame_def encode_frame_def frame_middle_def short_report_def sample_report_def
      le16_def escape_def)

text \<open>The receiver never compares the announced length with the fields it reads. A report
  whose payload has at most 12 bytes is accepted, and the light measurement that is stored for its
  node is what earlier packets left at bytes 22 and 23 of the packet buffer.\<close>

theorem short_report_stores_stale_light:
  assumes "proto_inv st" "phase st = SEEKING_START_BYTE" "wf_world w"
    and "f_am_type f = 0x0B" "f_payload f = hdr @ le16 node @ extra"
    and "length hdr = 2" "length extra \<le> 8"
    and "0 < uint node" "uint node \<le> lunix_sensor_cnt w"
    and "dbg \<longrightarrow> length (encode_frame f) < 50"
  shows "\<exists>st' w'. lunix_protocol_received_buf dbg now st (encode_frame f) w = Some (st', w')
    \<and> (snapshot_of w' ! (unat node - 1)) LIGHT = Some (uint16_from_packet (packet st) 22, ucast now)"
proof -
  let ?p = "overwrite (packet st) 0 (frame_bytes f)"
  have p: "length (packet st) = MAX_PACKET_LEN" using assms(1) by (simp add: proto_inv_def proto_shape_def)
  have wf: "wf_frame f" using assms(5,6,7) by (simp add: wf_frame_def le16_def)
  have len: "length (frame_bytes f) \<le> 22"
    using assms(5,6,7) by (simp add: length_frame_bytes)
  let ?h = "[f_start f, f_type f, fst (f_dest f), snd (f_dest f), f_am_type f, f_am_group f,
     of_nat (length (f_payload f))] @ hdr"
  have "?p = frame_bytes f @ drop (length (frame_bytes f)) (packet st)"
    using len p by (subst overwrite_eq) (simp_all add: MAX_PACKET_LEN_def)
  moreover have "frame_bytes f = ?h @ le16 node @ extra @ [fst (f_crc f), snd (f_crc f), f_end f]"
    by (simp add: frame_bytes_def frame_middle_def assms(5))
  ultimately have eq: "?p = ?h @ le16 node @ (extra @ [fst (f_crc f), snd (f_crc f), f_end f] @
      drop (length (frame_bytes f)) (packet st))" by simp
  have n4: "?p ! 4 = 0x0B" using eq assms(4) by simp
  have node: "uint16_from_packet ?p 9 = node"
    unfolding eq by (rule uint16_from_append) (simp add: assms(6))
  have "?p ! i = packet st ! i" if "22 \<le> i" "i < MAX_PACKET_LEN" for i
    using that len p by (simp add: overwrite_eq nth_append MAX_PACKET_LEN_def)
  then have light: "uint16_from_packet ?p 22 = uint16_from_packet (packet st) 22"
    by (simp add: uint16_from_packet_def MAX_PACKET_LEN_def)
  have slot: "report_slot (lunix_sensor_cnt w) ?p = Some (unat node - 1)"
    using n4 node assms(8,9) by (simp add: report_slot_def)
  have less: "unat node - 1 < length (snapshot_of w)"
    using report_slot_less [OF assms(3) slot] by simp
  show ?thesis
    by (rule received_frame [OF assms(1,2) wf assms(3), of dbg "[]" now])
      (use assms(10) slot less light in \<open>auto simp: apply_report_def\<close>)
qed

lemma short_report_stores_stale_light_witness:
  "\<exists>st' w'. lunix_protocol_received_buf True 5 (sample_state\<lparr>packet := (packet sample_state)[22 := 0x55]\<rparr>)
      (encode_frame short_report) sample_world = Some (st', w')
    \<and> (snapshot_of w' ! 1) LIGHT = Some (0x55, 5)"
proof -
  let ?st = "sample_state\<lparr>packet := (packet sample_state)[22 := 0x55]\<rparr>"
  have inv: "proto_inv ?st" "phase ?st = SEEKING_START_BYTE"
    by (simp_all add: sample_state_def lunix_protocol_init_def blank_state_def proto_inv_def proto_shape_def)
  have light: "uint16_from_packet (packet ?st) 22 = 0x55"
    by (simp add: uint16_from_packet_def sample_state_def lunix_protocol_init_def blank_state_def
        MAX_PACKET_LEN_def)
  have short: "f_am_type short_report = 0x0B" "f_payload short_report = [1, 2] @ le16 2 @ []"
    "length (encode_frame short_report) < 50"
    by (simp_all add: short_report_def sample_report_def encode_frame_def frame_middle_def le16_def escape_def)
  show ?thesis
    using short_report_stores_stale_light [OF inv sample_world_wf short(1,2), of True 5] short(3) light
    by (simp add: sample_world_def)
qed

text \<open>A debug build, between the announced length and the 50th pass: plain bytes are stored.\<close>

lemma parse_loop_debug_cut:
  assumes "next_is_special st = 0" "bytes_read st + 50 \<le> bytes_to_read st + k" "k \<le> 49"
    and "pos st + 50 \<le> MAX_PACKET_LEN + k" "i + 50 \<le> length data + k"
    and "\<And>j. j < length data \<Longrightarrow> data ! j \<noteq> 0x7E \<and> data ! j \<noteq> 0x7D"
  shows "parse_loop True data True (int k) st i =
    (-1, fill st (take (49 - k) (drop i data)), i + (49 - k))"
  using assms
proof (induction "49 - k" arbitrary: st i k)
  case 0
  then show ?case by (subst parse_loop.simps) (simp add: fill_def)
next
  case (Suc n)
  let ?p = "parse_byte True st (data ! i)"
  have k: "k < 49" and n: "n = 49 - Suc k" using Suc.hyps(2) by auto
  have i: "i < length data" using Suc.prems(5) k by auto
  have p: "?p = fill st [data ! i]"
    using Suc.prems(1) Suc.prems(6) [OF i] by (simp add: parse_byte_def fill_def store_byte_def bump_def)
  have "parse_loop True data True (int k) st i = parse_loop True data True (int (Suc k)) ?p (Suc i)"
    using Suc.prems k i by (subst parse_loop.simps) (simp add: algebra_simps)
  also have "\<dots> = (-1, fill ?p (take (49 - Suc k) (drop (Suc i) data)), Suc i + (49 - Suc k))"
    by (rule Suc.hyps(1) [OF n]) (use Suc.prems k p in \<open>auto simp: fill_def\<close>)
  also have "take (49 - Suc k) (drop (Suc i) data) = tl (take (49 - k) (drop i data))"
    using i k by (simp add: Cons_nth_drop_Suc [symmetric] Suc_diff_Suc [symmetric])
  finally show ?case
    using i k by (simp add: p fill_def Cons_nth_drop_Suc [symmetric] Suc_diff_Suc [symmetric])
qed

text \<open>The debug exit of the byte loop loses data. In a debug build (the Makefile sets
  \<open>LUNIX_DEBUG=1\<close>), a call in the payload with at least 50 plain bytes to come takes exactly
  49 of them; the rest of the buffer, however long, is dropped and the receiver waits for the
  bytes it has thrown away.\<close>

theorem debug_build_takes_49:
  assumes "proto_inv st" "phase st = SEEKING_PAYLOAD" "next_is_special st = 0"
    and "bytes_read st + 50 \<le> bytes_to_read st" "50 \<le> length buf"
    and "\<forall>b \<in> set buf. b \<noteq> 0x7E \<and> b \<noteq> 0x7D"
  shows "lunix_protocol_received_buf True now st buf w = Some (fill st (take 49 buf), w)"
proof -
  have shape: "proto_shape st" using assms(1) by (simp add: proto_inv_def)
  have "pos st + 50 \<le> MAX_PACKET_LEN"
    using proto_inv_pos [OF assms(1)] field_start_bound [of "phase st" "packet st"] assms(2,4) shape
    by (simp add: proto_shape_def MAX_PACKET_LEN_def)
  then have "parse_loop True buf True (int 0) st 0 = (-1, fill st (take (49 - 0) (drop 0 buf)), 0 + (49 - 0))"
    using assms by (intro parse_loop_debug_cut) auto
  then have "lunix_protocol_parse_state True st buf 0 True = (-1, fill st (take 49 buf), 49)"
    by (simp add: lunix_protocol_parse_state_def)
  moreover have "phase (fill st xs) = SEEKING_PAYLOAD" for xs using assms(2) by (simp add: fill_def)
  ultimately show ?thesis
    using assms(2) by (simp add: lunix_protocol_received_buf_def rx_fields_def rx_stage_def)
qed

lemma debug_build_takes_49_witness:
  "lunix_protocol_received_buf True 5
     (field_entry sample_state SEEKING_PAYLOAD ((packet sample_state)[6 := 60])) (replicate 60 9) sample_world =
   Some (fill (field_entry sample_state SEEKING_PAYLOAD ((packet sample_state)[6 := 60]))
     (replicate 49 9), sample_world)"
proof -
  let ?st = "field_entry sample_state SEEKING_PAYLOAD ((packet sample_state)[6 := 60])"
  have len: "length (packet sample_state) = MAX_PACKET_LEN"
    using sample_state_inv(1) by (simp add: proto_inv_def proto_shape_def)
  have btr: "field_len SEEKING_PAYLOAD ((packet sample_state)[6 := 60]) = 60"
    using len by (simp add: announced_def MAX_PACKET_LEN_def)
  have inv: "proto_inv ?st" using btr len by (intro field_entry_inv) simp_all
  have "bytes_read ?st = 0" "bytes_to_read ?st = 60" "next_is_special ?st = 0" "phase ?st = SEEKING_PAYLOAD"
    using btr by (simp_all add: field_entry_def)
  moreover have "take 49 (replicate 60 (9 :: u8)) = replicate 49 9" by (simp add: min_def)
  ultimately show ?thesis
    using debug_build_takes_49 [OF inv, of "replicate 60 9" 5 sample_world] by simp
qed

section \<open>Properties of the sensor buffers\<close>

text \<open>Initialization of a sensor, whatever the page allocator answers: 0 or -ENOMEM; with 0 the
  sensor is well-formed, its pages new and zeroed but for the magic number; and destroying what was
  built, after success or half-way failure, gives back exactly the heap from before.\<close>

theorem sensor_init_then_destroy:
  assumes "fresh_pages gzp" "m 0 = None"
    and "lunix_sensor_init gzp s (m, n) = (r, s', (m', n'))"
  shows "(r = 0 \<or> r = - ENOMEM) \<and> (r = 0 \<longrightarrow> wf_sensor m' s' \<and>
      (\<forall>p \<in> set (msr_data s'). m p = None \<and> m' p = Some init_page))
    \<and> lunix_sensor_destroy s' m' = Some m"
proof -
  note works = lunix_sensor_init_works [OF assms]
  show ?thesis
    using works(1-4) lunix_sensor_init_destroy [OF assms] by auto
qed

text \<open>An allocator with \<open>k\<close> pages, at the addresses 1 to \<open>k\<close>.\<close>

definition counted_pages :: "nat \<Rightarrow> page_alloc" where
  "counted_pages k m n = (if n < k \<and> m (of_nat (Suc n)) = None then of_nat (Suc n) else 0)"

lemma counted_pages_fresh: "fresh_pages (counted_pages k)"
  by (simp add: fresh_pages_def counted_pages_def)

lemma sensor_init_then_destroy_witness:
  "(\<exists>s' m' n'. lunix_sensor_init (counted_pages 2) zeroed_sensor (Map.empty, 0) = (- ENOMEM, s', (m', n'))
      \<and> lunix_sensor_destroy s' m' = Some Map.empty)
   \<and> (\<exists>s' m' n'. lunix_sensor_init (counted_pages 3) zeroed_sensor (Map.empty, 0) = (0, s', (m', n'))
      \<and> wf_sensor m' s' \<and> lunix_sensor_destroy s' m' = Some Map.empty)"
proof -
  note t = sensor_init_then_destroy [OF counted_pages_fresh, of Map.empty _ zeroed_sensor 0]
  obtain s2 m2 n2 where two: "lunix_sensor_init (counted_pages 2) zeroed_sensor (Map.empty, 0) = (- ENOMEM, s2, (m2, n2))"
    by (simp add: sensor_init_unfold counted_pages_def Let_def)
  obtain s3 m3 n3 where three: "lunix_sensor_init (counted_pages 3) zeroed_sensor (Map.empty, 0) = (0, s3, (m3, n3))"
    by (simp add: sensor_init_unfold counted_pages_def Let_def)
  show ?thesis using two three t [OF _ two] t [OF _ three] by auto
qed

text \<open>An update of one sensor is a frame-respecting store: it succeeds on every initialized
  sensor, its three readings are what readers see next, with one timestamp, all sleepers are woken,
  and no other sensor of the array changes.\<close>

theorem sensor_update_frame:
  assumes "wf_sensors m ss" "i < length ss"
  shows "\<exists>s' m'. lunix_sensor_update (ss ! i) batt temp light now m = Some (s', m', wq (ss ! i))
    \<and> wf_sensors m' (ss[i := s']) \<and> wq s' = []
    \<and> sensor_peek m' s' BATT = Some (batt, ucast now) \<and> sensor_peek m' s' TEMP = Some (temp, ucast now)
    \<and> sensor_peek m' s' LIGHT = Some (light, ucast now)
    \<and> (\<forall>j < length ss. j \<noteq> i \<longrightarrow> sensor_peek m' (ss ! j) = sensor_peek m (ss ! j))"
proof -
  have all: "sensor_store.all_good m ss" using assms(1) by (simp add: wf_sensors_all_good)
  obtain s' m' where u: "lunix_sensor_update (ss ! i) batt temp light now m = Some (s', m', wq (ss ! i))"
    and r: "sensor_store.all_good m' (ss[i := s'])" "wq s' = []"
    and p: "\<And>k. sensor_peek m' (ss[i := s'] ! i) k =
      Some (case k of BATT \<Rightarrow> batt | TEMP \<Rightarrow> temp | LIGHT \<Rightarrow> light, ucast now)"
    and q: "\<And>j k. j < length ss \<Longrightarrow> j \<noteq> i \<Longrightarrow>
      sensor_peek m' (ss[i := s'] ! j) k = sensor_peek m (ss ! j) k"
    by (rule sensor_store.update_nth [OF all assms(2), of batt temp light now]) blast
  have "sensor_peek m' (ss ! j) = sensor_peek m (ss ! j)" if "j < length ss" "j \<noteq> i" for j
    using q [OF that] that by (auto simp: fun_eq_iff)
  then show ?thesis using u r p assms(2) by (simp add: wf_sensors_all_good)
qed

lemma sensor_update_frame_witness:
  "\<exists>s' m'. lunix_sensor_update (sensors sample_world ! 1) 1 2 3 9 sample_pages = Some (s', m', [7])
    \<and> sensor_peek m' s' TEMP = Some (2, 9)
    \<and> sensor_peek m' (sensors sample_world ! 0) = sensor_peek sample_pages (sensors sample_world ! 0)"
proof -
  have "wf_sensors sample_pages (sensors sample_world)"
    using sample_world_wf by (simp add: wf_world_def sample_world_def)
  moreover have "length (sensors sample_world) = 2" "wq (sensors sample_world ! 1) = [7]"
    by (simp_all add: sample_world_def)
  ultimately show ?thesis
    using sensor_update_frame [of sample_pages "sensors sample_world" 1 1 2 3 9] by fastforce
qed

end
