(* ===== verification/Ldisc.thy ===== *)
theory Ldisc
  imports ReceiverProps
begin

text \<open>
  The line discipline of \<open>lunix-ldisc.c\<close>: the counter that lets one TTY at a time use it, its
  operations, and the step relation of the TTY layer that calls them. The bytes go to the packet
  receiver, of which only the contract \<open>line_receiver\<close> is used.
\<close>

section \<open>State\<close>

type_synonym tty_id = nat

text \<open>
  The globals of the driver the line discipline touches, with the part of the TTY layer it relies
  on: the TTYs the discipline is set on, their \<open>receive_room\<close>, and whether the discipline is
  registered.
\<close>

record lunix_driver =
  lunix_disc_available :: int
  lunix_protocol_state :: lunix_protocol_state_struct
  world :: lunix_world
  attached :: "tty_id list"
  receive_room :: "tty_id \<Rightarrow> int"
  ldisc_registered :: bool

section \<open>Operations\<close>

text \<open>\<open>atomic_add_unless(v, a, u)\<close> of the kernel: whether it added, and the new value.\<close>

definition atomic_add_unless :: "int \<Rightarrow> int \<Rightarrow> int \<Rightarrow> bool \<times> int" where
  "atomic_add_unless v a u = (if v = u then (False, v) else (True, v + a))"

definition lunix_ldisc_open :: "bool \<Rightarrow> tty_id \<Rightarrow> lunix_driver \<Rightarrow> int \<times> lunix_driver" where
  "lunix_ldisc_open cap_sys_admin tty d =
     (if \<not> cap_sys_admin then (- EPERM, d)
      else case atomic_add_unless (lunix_disc_available d) (-1) 0 of
        (False, _) \<Rightarrow> (- EBUSY, d)
      | (True, v) \<Rightarrow> (0, d\<lparr>lunix_disc_available := v,
                          receive_room := (receive_room d)(tty := 65536)\<rparr>))"

definition lunix_ldisc_close :: "tty_id \<Rightarrow> lunix_driver \<Rightarrow> lunix_driver" where
  "lunix_ldisc_close tty d = d\<lparr>lunix_disc_available := lunix_disc_available d + 1\<rparr>"

definition lunix_ldisc_receive ::
  "bool \<Rightarrow> u64 \<Rightarrow> tty_id \<Rightarrow> u8 list \<Rightarrow> lunix_driver \<Rightarrow> lunix_driver option"
where
  "lunix_ldisc_receive dbg now tty cp d = do {
     (st, w) \<leftarrow> lunix_protocol_received_buf dbg now (lunix_protocol_state d) cp (world d);
     Some (d\<lparr>lunix_protocol_state := st, world := w\<rparr>)
   }"

definition lunix_ldisc_read :: "tty_id \<Rightarrow> nat \<Rightarrow> int" where
  "lunix_ldisc_read tty cnt = - EIO"

definition lunix_ldisc_write :: "tty_id \<Rightarrow> u8 list \<Rightarrow> int" where
  "lunix_ldisc_write tty buf = - EIO"

text \<open>
  \<open>tty_register_ldisc\<close> is the kernel's: its result is the parameter \<open>reg\<close>, 0 if it has
  registered the discipline.
\<close>

definition lunix_ldisc_init :: "int \<Rightarrow> lunix_driver \<Rightarrow> int \<times> lunix_driver" where
  "lunix_ldisc_init reg d =
     (reg, d\<lparr>lunix_disc_available := 1, ldisc_registered := (reg = 0 \<or> ldisc_registered d)\<rparr>)"

definition lunix_ldisc_destroy :: "lunix_driver \<Rightarrow> lunix_driver" where
  "lunix_ldisc_destroy d = d\<lparr>ldisc_registered := False\<rparr>"

text \<open>The counter is a token counter; its free units are its value.\<close>

definition disc_take :: "int \<Rightarrow> int option" where
  "disc_take v = (case atomic_add_unless v (-1) 0 of (False, _) \<Rightarrow> None | (True, v') \<Rightarrow> Some v')"

interpretation disc: token_counter disc_take "\<lambda>v. v + 1" nat "\<lambda>v. 0 \<le> v"
  by unfold_locales (auto simp: disc_take_def atomic_add_unless_def nat_add_distrib split: if_splits)

lemma lunix_ldisc_open_eq:
  "lunix_ldisc_open cap tty d =
     (if \<not> cap then (- EPERM, d)
      else case disc_take (lunix_disc_available d) of
        None \<Rightarrow> (- EBUSY, d)
      | Some v \<Rightarrow> (0, d\<lparr>lunix_disc_available := v, receive_room := (receive_room d)(tty := 65536)\<rparr>))"
  by (simp add: lunix_ldisc_open_def disc_take_def atomic_add_unless_def)

section \<open>What the line discipline needs of the receiver\<close>

text \<open>
  A consumer of the bytes of a line: any chunk, at any time, is taken and leaves the consumer fit
  for the next one.
\<close>

locale line_receiver =
  fixes recv :: "bool \<Rightarrow> u64 \<Rightarrow> 's \<Rightarrow> u8 list \<Rightarrow> 'w \<Rightarrow> ('s \<times> 'w) option"
    and fit :: "'s \<Rightarrow> 'w \<Rightarrow> bool"
  assumes recv_total: "fit s w \<Longrightarrow> \<exists>s' w'. recv dbg now s b w = Some (s', w') \<and> fit s' w'"
begin

fun recv_list :: "bool \<Rightarrow> 's \<Rightarrow> (u64 \<times> u8 list) list \<Rightarrow> 'w \<Rightarrow> ('s \<times> 'w) option" where
  "recv_list dbg s [] w = Some (s, w)"
| "recv_list dbg s (x # xs) w =
     Option.bind (recv dbg (fst x) s (snd x) w) (\<lambda>(s', w'). recv_list dbg s' xs w')"

lemma recv_fit: "fit s w \<Longrightarrow> recv dbg now s b w = Some (s', w') \<Longrightarrow> fit s' w'"
  using recv_total [of s w dbg now b] by auto

lemma recv_not_None: "fit s w \<Longrightarrow> recv dbg now s b w \<noteq> None"
  using recv_total [of s w dbg now b] by auto

lemma recv_list_total: "fit s w \<Longrightarrow> \<exists>s' w'. recv_list dbg s xs w = Some (s', w') \<and> fit s' w'"
proof (induction xs arbitrary: s w)
  case Nil
  then show ?case by simp
next
  case (Cons x xs)
  then obtain s1 w1 where "recv dbg (fst x) s (snd x) w = Some (s1, w1)" "fit s1 w1"
    using recv_total by blast
  with Cons.IH show ?case by simp
qed

end

interpretation packets: line_receiver lunix_protocol_received_buf "\<lambda>st w. proto_inv st \<and> wf_world w"
proof
  fix st w dbg now b
  assume "proto_inv st \<and> wf_world w"
  then show "\<exists>s' w'. lunix_protocol_received_buf dbg now st b w = Some (s', w') \<and> proto_inv s' \<and> wf_world w'"
    by (auto intro: received_buf_keeps [of st w dbg now b])
qed

section \<open>The TTY layer as a step relation\<close>

text \<open>
  The TTY layer sets the discipline on a TTY (\<open>open\<close>), takes it off (\<open>close\<close>, only where
  it was set) and delivers the bytes of the line. The result of the call is the third argument.
  An Oops has no step.
\<close>

datatype tty_event = Set_Ldisc tty_id bool | Unset_Ldisc tty_id | Line tty_id u64 "u8 list"

inductive ldisc_step :: "bool \<Rightarrow> lunix_driver \<Rightarrow> tty_event \<Rightarrow> int \<Rightarrow> lunix_driver \<Rightarrow> bool" for dbg where
  set_ldisc: "ldisc_registered d \<Longrightarrow> tty \<notin> set (attached d) \<Longrightarrow>
    lunix_ldisc_open cap tty d = (r, d1) \<Longrightarrow>
    ldisc_step dbg d (Set_Ldisc tty cap) r (if r = 0 then d1\<lparr>attached := tty # attached d1\<rparr> else d1)"
| unset_ldisc: "tty \<in> set (attached d) \<Longrightarrow> lunix_ldisc_close tty d = d1 \<Longrightarrow>
    ldisc_step dbg d (Unset_Ldisc tty) 0 (d1\<lparr>attached := remove1 tty (attached d1)\<rparr>)"
| line: "tty \<in> set (attached d) \<Longrightarrow> lunix_ldisc_receive dbg now tty cp d = Some d' \<Longrightarrow>
    ldisc_step dbg d (Line tty now cp) 0 d'"

inductive_cases set_ldiscE: "ldisc_step dbg d (Set_Ldisc tty cap) r d'"
inductive_cases unset_ldiscE: "ldisc_step dbg d (Unset_Ldisc tty) r d'"
inductive_cases lineE: "ldisc_step dbg d (Line tty now cp) r d'"

inductive_simps set_ldisc_iff: "ldisc_step dbg d (Set_Ldisc tty cap) r d'"
inductive_simps line_iff: "ldisc_step dbg d (Line tty now cp) r d'"

inductive ldisc_run :: "bool \<Rightarrow> lunix_driver \<Rightarrow> (tty_event \<times> int) list \<Rightarrow> lunix_driver \<Rightarrow> bool" for dbg where
  run_Nil: "ldisc_run dbg d [] d"
| run_Cons: "ldisc_step dbg d e r d1 \<Longrightarrow> ldisc_run dbg d1 es d' \<Longrightarrow> ldisc_run dbg d ((e, r) # es) d'"

section \<open>The invariant\<close>

definition ldisc_inv :: "lunix_driver \<Rightarrow> bool" where
  "ldisc_inv d \<longleftrightarrow> disc.balanced 1 (lunix_disc_available d) (attached d)
     \<and> proto_inv (lunix_protocol_state d) \<and> wf_world (world d)
     \<and> (\<forall>tty \<in> set (attached d). receive_room d tty = 65536)"

lemma ldisc_step_inv:
  assumes step: "ldisc_step dbg d e r d'" and inv: "ldisc_inv d"
  shows "ldisc_inv d'"
  using step
proof cases
  case (set_ldisc tty cap d1)
  show ?thesis
  proof (cases "r = 0")
    case False
    then have "d1 = d" using set_ldisc(5) by (auto simp: lunix_ldisc_open_eq split: if_splits option.splits)
    then show ?thesis using False set_ldisc(2) inv by simp
  next
    case True
    then obtain v where v: "disc_take (lunix_disc_available d) = Some v"
      and d1: "d1 = d\<lparr>lunix_disc_available := v, receive_room := (receive_room d)(tty := 65536)\<rparr>"
      using set_ldisc(5) by (auto simp: lunix_ldisc_open_eq split: if_splits option.splits)
    have "disc.balanced 1 v (tty # attached d)"
      by (rule disc.take_balanced [OF _ v]) (use inv in \<open>simp add: ldisc_inv_def\<close>)
    then show ?thesis
      using True set_ldisc(2) d1 inv by (simp add: ldisc_inv_def)
  qed
next
  case (unset_ldisc tty d1)
  have "disc.balanced 1 (lunix_disc_available d + 1) (remove1 tty (attached d))"
    by (rule disc.give_balanced) (use inv unset_ldisc(4) in \<open>simp_all add: ldisc_inv_def\<close>)
  then show ?thesis
    using unset_ldisc inv set_remove1_subset [of tty "attached d"]
    by (auto simp: ldisc_inv_def lunix_ldisc_close_def)
next
  case (line tty now cp)
  from line(4) obtain st w where
    recv: "lunix_protocol_received_buf dbg now (lunix_protocol_state d) cp (world d) = Some (st, w)"
    and d': "d' = d\<lparr>lunix_protocol_state := st, world := w\<rparr>"
    by (auto simp: lunix_ldisc_receive_def bind_Some_iff)
  have "proto_inv st \<and> wf_world w"
    by (rule packets.recv_fit [OF _ recv]) (use inv in \<open>simp add: ldisc_inv_def\<close>)
  then show ?thesis using d' inv by (simp add: ldisc_inv_def)
qed

lemma ldisc_run_inv: "ldisc_run dbg d es d' \<Longrightarrow> ldisc_inv d \<Longrightarrow> ldisc_inv d'"
  by (induction rule: ldisc_run.induct) (auto intro: ldisc_step_inv)

lemma ldisc_run_append:
  "ldisc_run dbg d (xs @ ys) d' \<longleftrightarrow> (\<exists>d1. ldisc_run dbg d xs d1 \<and> ldisc_run dbg d1 ys d')"
proof (induction xs arbitrary: d)
  case Nil
  then show ?case by (auto intro: run_Nil elim: ldisc_run.cases)
next
  case (Cons x xs)
  obtain e r where x: "x = (e, r)" by (cases x)
  have "ldisc_run dbg d ((e, r) # zs) d2 \<longleftrightarrow> (\<exists>d1. ldisc_step dbg d e r d1 \<and> ldisc_run dbg d1 zs d2)" for zs d2
    by (auto intro: run_Cons elim: ldisc_run.cases)
  then show ?case using Cons.IH x by auto
qed

text \<open>The state \<open>lunix_ldisc_init\<close> leaves, with the receiver and the sensors ready.\<close>

definition fresh_driver :: "lunix_protocol_state_struct \<Rightarrow> lunix_world \<Rightarrow> lunix_driver" where
  "fresh_driver st w = snd (lunix_ldisc_init 0 \<lparr>lunix_disc_available = 0, lunix_protocol_state = st,
     world = w, attached = [], receive_room = (\<lambda>_. 0), ldisc_registered = False\<rparr>)"

lemma fresh_driver_inv: "proto_inv st \<Longrightarrow> wf_world w \<Longrightarrow> ldisc_inv (fresh_driver st w)"
  by (simp add: ldisc_inv_def fresh_driver_def lunix_ldisc_init_def disc.balanced_def)

section \<open>Properties\<close>

lemma open_result:
  assumes "ldisc_inv d" "lunix_ldisc_open cap tty d = (r, d1)"
  shows "r = (if \<not> cap then - EPERM else if attached d = [] then 0 else - EBUSY)"
    and "r \<noteq> 0 \<Longrightarrow> d1 = d"
proof -
  have bal: "disc.balanced 1 (lunix_disc_available d) (attached d)"
    using assms(1) by (simp add: ldisc_inv_def)
  have busy: "disc_take (lunix_disc_available d) = None" if "attached d \<noteq> []"
    using disc.held_is_busy [OF bal that] .
  have free: "disc_take (lunix_disc_available d) \<noteq> None" if "attached d = []"
    using bal that disc.take_None [of "lunix_disc_available d"] by (auto simp: disc.balanced_def)
  show "r = (if \<not> cap then - EPERM else if attached d = [] then 0 else - EBUSY)"
    using assms(2) busy free by (auto simp: lunix_ldisc_open_eq split: if_splits option.splits)
  show "r \<noteq> 0 \<Longrightarrow> d1 = d"
    using assms(2) by (auto simp: lunix_ldisc_open_eq split: if_splits option.splits)
qed

text \<open>C25: mutual exclusion of the line. After any history of opens, closes and received bytes the
  discipline is on at most one TTY; an open then returns -EPERM without the capability, 0 if the
  discipline is on no TTY and -EBUSY otherwise, and a refused open changes nothing.\<close>

theorem one_tty_at_a_time:
  assumes "proto_inv st" "wf_world w" "ldisc_run dbg (fresh_driver st w) es d"
  shows "length (attached d) \<le> 1 \<and>
    (\<forall>tty cap r d'. ldisc_step dbg d (Set_Ldisc tty cap) r d' \<longrightarrow>
       r = (if \<not> cap then - EPERM else if attached d = [] then 0 else - EBUSY) \<and>
       attached d' = (if r = 0 then [tty] else attached d) \<and> (r \<noteq> 0 \<longrightarrow> d' = d))"
proof -
  have inv: "ldisc_inv d" using ldisc_run_inv [OF assms(3)] fresh_driver_inv [OF assms(1,2)] by simp
  then have "length (attached d) \<le> 1" using disc.one_holder by (auto simp: ldisc_inv_def)
  moreover have "r = (if \<not> cap then - EPERM else if attached d = [] then 0 else - EBUSY) \<and>
       attached d' = (if r = 0 then [tty] else attached d) \<and> (r \<noteq> 0 \<longrightarrow> d' = d)"
    if "ldisc_step dbg d (Set_Ldisc tty cap) r d'" for tty cap r d'
  proof -
    obtain d1 where o: "lunix_ldisc_open cap tty d = (r, d1)"
      and d': "d' = (if r = 0 then d1\<lparr>attached := tty # attached d1\<rparr> else d1)"
      using \<open>ldisc_step dbg d (Set_Ldisc tty cap) r d'\<close> by (rule set_ldiscE)
    have "attached d1 = attached d" using o by (auto simp: lunix_ldisc_open_eq split: if_splits option.splits)
    then show ?thesis using open_result [OF inv o] d' by (auto split: if_splits)
  qed
  ultimately show ?thesis by blast
qed

text \<open>Calls that succeed, as steps.\<close>

lemma set_ldisc_ok:
  assumes "ldisc_inv d" "attached d = []" "ldisc_registered d"
  shows "ldisc_step dbg d (Set_Ldisc tty True) 0
    (d\<lparr>lunix_disc_available := 0, receive_room := (receive_room d)(tty := 65536), attached := [tty]\<rparr>)"
proof -
  have "nat (lunix_disc_available d) = 1" "0 \<le> lunix_disc_available d"
    using assms(1,2) by (simp_all add: ldisc_inv_def disc.balanced_def)
  then have "lunix_disc_available d = 1" by linarith
  then have "lunix_ldisc_open True tty d =
      (0, d\<lparr>lunix_disc_available := 0, receive_room := (receive_room d)(tty := 65536)\<rparr>)"
    by (simp add: lunix_ldisc_open_def atomic_add_unless_def)
  from ldisc_step.set_ldisc [OF assms(3) _ this, of dbg] assms(2) show ?thesis by simp
qed

lemma first_open:
  assumes "proto_inv st" "wf_world w"
  shows "\<exists>d. ldisc_run dbg (fresh_driver st w) [(Set_Ldisc tty True, 0)] d \<and> attached d = [tty]"
proof -
  let ?d = "fresh_driver st w"
  have "attached ?d = []" "ldisc_registered ?d" by (simp_all add: fresh_driver_def lunix_ldisc_init_def)
  then have "ldisc_step dbg ?d (Set_Ldisc tty True) 0
      (?d\<lparr>lunix_disc_available := 0, receive_room := (receive_room ?d)(tty := 65536), attached := [tty]\<rparr>)"
    by (rule set_ldisc_ok [OF fresh_driver_inv [OF assms]])
  from run_Cons [OF this run_Nil] show ?thesis by force
qed

lemma one_tty_at_a_time_witness:
  "\<exists>d. ldisc_run True (fresh_driver sample_state sample_world) [(Set_Ldisc 4 True, 0)] d \<and> attached d = [4]
    \<and> (\<forall>r d'. ldisc_step True d (Set_Ldisc 5 True) r d' \<longrightarrow> r = - EBUSY \<and> d' = d)"
proof -
  obtain d where run: "ldisc_run True (fresh_driver sample_state sample_world) [(Set_Ldisc 4 True, 0)] d"
    and att: "attached d = [4]"
    using first_open [OF sample_state_inv(1) sample_world_wf] by blast
  show ?thesis
    using one_tty_at_a_time [OF sample_state_inv(1) sample_world_wf run] run att by fastforce
qed

text \<open>The driver survives its line. In every reachable state every delivery of bytes to the
  attached TTY is a complete step: the interrupt-side code neither Oopses nor stops, and receiver
  and sensors are well-formed afterwards.\<close>

theorem line_always_served:
  assumes "proto_inv st" "wf_world w" "ldisc_run dbg (fresh_driver st w) es d" "tty \<in> set (attached d)"
  shows "\<exists>d'. ldisc_step dbg d (Line tty now cp) 0 d' \<and> ldisc_inv d' \<and> attached d' = attached d"
proof -
  have inv: "ldisc_inv d" using ldisc_run_inv [OF assms(3)] fresh_driver_inv [OF assms(1,2)] by simp
  then obtain s1 w1 where "lunix_protocol_received_buf dbg now (lunix_protocol_state d) cp (world d) = Some (s1, w1)"
    using packets.recv_total [of "lunix_protocol_state d" "world d" dbg now cp] by (auto simp: ldisc_inv_def)
  then have "ldisc_step dbg d (Line tty now cp) 0 (d\<lparr>lunix_protocol_state := s1, world := w1\<rparr>)"
    using assms(4) by (intro ldisc_step.line) (simp_all add: lunix_ldisc_receive_def)
  then show ?thesis using ldisc_step_inv inv by fastforce
qed

lemma line_always_served_witness:
  "\<exists>d d'. ldisc_run True (fresh_driver sample_state sample_world) [(Set_Ldisc 4 True, 0)] d
    \<and> ldisc_step True d (Line 4 3 [0x7E, 0x42]) 0 d' \<and> ldisc_inv d'"
proof -
  obtain d where run: "ldisc_run True (fresh_driver sample_state sample_world) [(Set_Ldisc 4 True, 0)] d"
    and att: "attached d = [4]"
    using first_open [OF sample_state_inv(1) sample_world_wf] by blast
  then have "4 \<in> set (attached d)" by simp
  from line_always_served [OF sample_state_inv(1) sample_world_wf run this] run show ?thesis by blast
qed

text \<open>Opening the discipline does not reset the receiver. If the first TTY goes away in the
  middle of a packet, the receiver waits for the rest of it: the bytes a second TTY brings complete
  the packet of the first, and the report built from both lines is stored.\<close>

theorem packet_across_ttys:
  assumes "proto_inv st" "phase st = SEEKING_START_BYTE" "wf_world w" "wf_frame f"
    and "xs @ ys = encode_frame f" "ys \<noteq> []" "dbg \<longrightarrow> length xs < 50 \<and> length ys < 50"
  shows "\<exists>d. ldisc_run dbg (fresh_driver st w)
      [(Set_Ldisc tty True, 0), (Line tty t1 xs, 0), (Unset_Ldisc tty, 0), (Set_Ldisc tty' True, 0), (Line tty' now ys, 0)] d
    \<and> snapshot_of (world d) = apply_report (lunix_sensor_cnt w) now
         (overwrite (packet st) 0 (frame_bytes f)) (snapshot_of w)"
proof -
  obtain sf where run: "rx_run st (xs @ ys) = (sf, [], True)"
    and p: "packet sf = overwrite (packet st) 0 (frame_bytes f)"
    using rx_run_frame [OF assms(1,2,4), of "[]"] assms(5) by auto
  obtain s1 where pre: "rx_run st xs = (s1, [], False)" and post: "rx_run s1 ys = (sf, [], True)"
    by (rule rx_run_prefix [OF run assms(6)])
  have inv1: "proto_inv s1" using rx_run_inv [OF assms(1) pre] by simp
  obtain w' where w': "lunix_protocol_update_sensors sf now w = Some w'"
    "snapshot_of w' = apply_report (lunix_sensor_cnt w) now (packet sf) (snapshot_of w)"
    using update_sensors_refines [OF assms(3), of sf now] by metis
  have first: "lunix_protocol_received_buf dbg t1 st xs w = Some (s1, w)"
    using received_buf_rx [OF assms(1), of dbg xs t1 w] pre assms(7) by simp
  have second: "lunix_protocol_received_buf dbg now s1 ys w = Some (restart sf, w')"
    using received_buf_rx [OF inv1, of dbg ys now w] post assms(7) w'(1) by simp
  let ?room = "\<lambda>d t. (receive_room d)(t := 65536)"
  define d0 where "d0 = fresh_driver st w"
  have d0: "lunix_protocol_state d0 = st" "world d0 = w" "attached d0 = []" "ldisc_registered d0" "ldisc_inv d0"
    using fresh_driver_inv [OF assms(1,3)] by (simp_all add: d0_def fresh_driver_def lunix_ldisc_init_def)
  define d1 where "d1 = d0\<lparr>lunix_disc_available := 0, receive_room := ?room d0 tty, attached := [tty]\<rparr>"
  define d2 where "d2 = d1\<lparr>lunix_protocol_state := s1, world := w\<rparr>"
  define d3 where "d3 = (lunix_ldisc_close tty d2)\<lparr>attached := remove1 tty (attached (lunix_ldisc_close tty d2))\<rparr>"
  define d4 where "d4 = d3\<lparr>lunix_disc_available := 0, receive_room := ?room d3 tty', attached := [tty']\<rparr>"
  define d5 where "d5 = d4\<lparr>lunix_protocol_state := restart sf, world := w'\<rparr>"
  have step1: "ldisc_step dbg d0 (Set_Ldisc tty True) 0 d1"
    unfolding d1_def using d0(5,3,4) by (rule set_ldisc_ok)
  have step2: "ldisc_step dbg d1 (Line tty t1 xs) 0 d2"
    by (rule ldisc_step.line) (simp_all add: d2_def d1_def d0 lunix_ldisc_receive_def first)
  have step3: "ldisc_step dbg d2 (Unset_Ldisc tty) 0 d3"
    unfolding d3_def by (rule ldisc_step.unset_ldisc) (simp_all add: d2_def d1_def)
  have "ldisc_inv d3" using ldisc_step_inv step1 step2 step3 d0(5) by blast
  then have step4: "ldisc_step dbg d3 (Set_Ldisc tty' True) 0 d4"
    unfolding d4_def by (rule set_ldisc_ok) (simp_all add: d3_def d2_def d1_def d0 lunix_ldisc_close_def)
  have step5: "ldisc_step dbg d4 (Line tty' now ys) 0 d5"
    by (rule ldisc_step.line) (simp_all add: d5_def d4_def d3_def d2_def lunix_ldisc_close_def
        lunix_ldisc_receive_def second)
  have "world d5 = w'" by (simp add: d5_def)
  then show ?thesis
    using run_Cons [OF step1 run_Cons [OF step2 run_Cons [OF step3 run_Cons [OF step4 run_Cons [OF step5 run_Nil]]]]]
      w'(2) p d0_def by auto
qed

lemma packet_across_ttys_witness:
  "\<exists>d. ldisc_run True (fresh_driver sample_state sample_world)
      [(Set_Ldisc 1 True, 0), (Line 1 3 (take 9 (encode_frame sample_report)), 0), (Unset_Ldisc 1, 0),
       (Set_Ldisc 2 True, 0), (Line 2 8 (drop 9 (encode_frame sample_report)), 0)] d
    \<and> snapshot_of (world d) = apply_report 2 8
         (overwrite (packet sample_state) 0 (frame_bytes sample_report)) (snapshot_of sample_world)"
proof -
  have "lunix_sensor_cnt sample_world = 2" by (simp add: sample_world_def)
  then show ?thesis
    using packet_across_ttys [OF sample_state_inv sample_world_wf sample_report_wf(1), of
        "take 9 (encode_frame sample_report)" "drop 9 (encode_frame sample_report)" True 1 3 2 8]
    by (simp add: length_encode_sample flip: length_greater_0_conv)
qed

end
