(* ===== verification/Format.thy ===== *)
theory Format
  imports Prelude
begin

text \<open>
  The text of a measurement: \<open>sprintf\<close> with \<open>%d\<close>, and how a reader of the text
  understands it, as a decimal number. Everything is counted in thousandths, the unit of the
  lookup tables.
\<close>

section \<open>Decimal digits\<close>

definition digit :: "nat \<Rightarrow> char" where
  "digit n = char_of (48 + n)"

definition digit_value :: "char \<Rightarrow> nat" where
  "digit_value c = of_char c - 48"

fun dec :: "nat \<Rightarrow> string" where
  "dec n = (if n < 10 then [digit n] else dec (n div 10) @ [digit (n mod 10)])"

declare dec.simps [simp del]

definition undec :: "string \<Rightarrow> nat" where
  "undec s = foldl (\<lambda>a c. 10 * a + digit_value c) 0 s"

lemma digit_value_digit [simp]: "n < 10 \<Longrightarrow> digit_value (digit n) = n"
  by (simp add: digit_value_def digit_def)

lemma digit_plain:
  assumes "n < 10"
  shows "digit n \<noteq> CHR ''.''" "digit n \<noteq> CHR ''-''" "digit n \<noteq> CHR 0x0A" "digit n \<noteq> CHR 0x00"
proof -
  have v: "of_char (digit n) = (48 + n :: nat)" using assms by (simp add: digit_def)
  show "digit n \<noteq> CHR ''.''" "digit n \<noteq> CHR ''-''" "digit n \<noteq> CHR 0x0A" "digit n \<noteq> CHR 0x00"
    using v by auto
qed

lemma undec_snoc: "undec (s @ [c]) = 10 * undec s + digit_value c"
  by (simp add: undec_def)

lemma undec_dec [simp]: "undec (dec n) = n"
proof (induction n rule: dec.induct)
  case (1 n)
  show ?case
  proof (cases "n < 10")
    case True
    then show ?thesis by (subst dec.simps) (simp add: undec_def)
  next
    case False
    then show ?thesis using 1 by (subst dec.simps) (simp add: undec_snoc)
  qed
qed

lemma dec_digits: "c \<in> set (dec n) \<Longrightarrow> \<exists>k < 10. c = digit k"
proof (induction n rule: dec.induct)
  case (1 n)
  show ?case
  proof (cases "n < 10")
    case True
    then show ?thesis using "1.prems" by (simp add: dec.simps [of n]) blast
  next
    case False
    then have "c \<in> set (dec (n div 10)) \<or> c = digit (n mod 10)"
      using "1.prems" by (auto simp: dec.simps [of n])
    then show ?thesis
    proof
      assume "c \<in> set (dec (n div 10))"
      then show ?thesis using "1.IH" False by simp
    next
      assume "c = digit (n mod 10)"
      moreover have "n mod 10 < 10" by simp
      ultimately show ?thesis by blast
    qed
  qed
qed

lemma dec_plain:
  "CHR ''.'' \<notin> set (dec n)" "CHR ''-'' \<notin> set (dec n)"
  "CHR 0x0A \<notin> set (dec n)" "CHR 0x00 \<notin> set (dec n)"
  using dec_digits [of _ n] digit_plain by metis+

lemma dec_nonempty [simp]: "dec n \<noteq> []"
  by (subst dec.simps) simp

lemma length_dec_le: "n < 10 ^ Suc k \<Longrightarrow> length (dec n) \<le> Suc k"
proof (induction k arbitrary: n)
  case 0
  then show ?case by (subst dec.simps) simp
next
  case (Suc k)
  show ?case
  proof (cases "n < 10")
    case True
    then show ?thesis by (subst dec.simps) simp
  next
    case False
    have "n div 10 < 10 ^ Suc k" using Suc.prems by (simp add: less_mult_imp_div_less)
    from Suc.IH [OF this] show ?thesis using False by (subst dec.simps) simp
  qed
qed

lemma length_dec_small: "length (dec n) = (if n < 10 then 1 else if n < 100 then 2 else 3)" if "n < 1000"
proof -
  have "n div 100 < 10" using that by simp
  then show ?thesis
    by (simp add: dec.simps [of n] dec.simps [of "n div 10"] dec.simps [of "n div 100"]
        div_less_iff_less_mult flip: div_mult2_eq)
qed

section \<open>The conversion \<open>%d\<close>\<close>

definition print_int :: "int \<Rightarrow> string" where
  "print_int i = (if i < 0 then CHR ''-'' # dec (nat (- i)) else dec (nat i))"

lemma print_int_plain:
  "CHR ''.'' \<notin> set (print_int i)" "CHR 0x0A \<notin> set (print_int i)" "CHR 0x00 \<notin> set (print_int i)"
  using dec_plain by (auto simp: print_int_def)

lemma length_print_int:
  assumes "- (2 ^ 31) \<le> i" "i < 2 ^ 31"
  shows "length (print_int i) \<le> 11"
proof -
  have "length (dec (nat (- i))) \<le> Suc 9" "length (dec (nat i)) \<le> Suc 9"
    using assms by (intro length_dec_le; simp)+
  then show ?thesis by (simp add: print_int_def)
qed

text \<open>\<open>sprintf(..., "%d.%d\n", a, d)\<close>, without the terminating NUL.\<close>

definition reading_text :: "int \<Rightarrow> int \<Rightarrow> string" where
  "reading_text a d = print_int a @ [CHR ''.''] @ print_int d @ [CHR 0x0A]"

text \<open>The decimal number such a text denotes, in thousandths.\<close>

definition text_value :: "string \<Rightarrow> int" where
  "text_value t =
     (let neg = (take 1 t = [CHR ''-'']);
          u = (if neg then tl t else t);
          whole = takeWhile (\<lambda>c. c \<noteq> CHR ''.'') u;
          frac = takeWhile (\<lambda>c. c \<noteq> CHR 0x0A) (tl (dropWhile (\<lambda>c. c \<noteq> CHR ''.'') u));
          v = int (1000 * undec whole + undec frac * 10 ^ (3 - length frac))
      in if neg then - v else v)"

lemma text_value_plain:
  "text_value (dec n @ [CHR ''.''] @ dec m @ [CHR 0x0A]) = int (1000 * n + m * 10 ^ (3 - length (dec m)))"
proof -
  have hd: "take 1 (dec n @ zs) \<noteq> [CHR ''-'']" for zs
    using dec_plain(2) [of n] by (cases "dec n") auto
  have "takeWhile (\<lambda>c. c \<noteq> CHR ''.'') (dec n @ CHR ''.'' # zs) = dec n" for zs
    using dec_plain(1) [of n] by (subst takeWhile_append2) auto
  moreover have "dropWhile (\<lambda>c. c \<noteq> CHR ''.'') (dec n @ CHR ''.'' # zs) = CHR ''.'' # zs" for zs
    using dec_plain(1) [of n] by (subst dropWhile_append2) auto
  moreover have "takeWhile (\<lambda>c. c \<noteq> CHR 0x0A) (dec m @ [CHR 0x0A]) = dec m"
    using dec_plain(3) [of m] by (subst takeWhile_append2) auto
  ultimately show ?thesis using hd by (simp add: text_value_def Let_def)
qed

lemma text_value_minus:
  "text_value (CHR ''-'' # dec n @ [CHR ''.''] @ dec m @ [CHR 0x0A]) =
    - text_value (dec n @ [CHR ''.''] @ dec m @ [CHR 0x0A])"
proof -
  have "take 1 (dec n @ zs) \<noteq> [CHR ''-'']" for zs
    using dec_plain(2) [of n] by (cases "dec n") auto
  then show ?thesis by (simp add: text_value_def Let_def)
qed

lemma text_value_reading:
  assumes "0 \<le> d"
  shows "text_value (reading_text a d) =
    (if a < 0 then -1 else 1) * (1000 * \<bar>a\<bar> + d * 10 ^ (3 - length (dec (nat d))))"
  using assms text_value_plain [of "nat a" "nat d"] text_value_minus [of "nat (- a)" "nat d"]
    text_value_plain [of "nat (- a)" "nat d"]
  by (auto simp: reading_text_def print_int_def)

text \<open>Reading back a value printed as integer part and absolute thousandths.\<close>

lemma text_value_split:
  assumes v: "v = 1000 * a + d" "\<bar>d\<bar> < 1000" "0 < a \<Longrightarrow> 0 \<le> d" "a < 0 \<Longrightarrow> d \<le> 0"
  shows "text_value (reading_text a \<bar>d\<bar>) = v \<longleftrightarrow> (d = 0 \<or> 100 \<le> \<bar>d\<bar>) \<and> \<not> (- 1000 < v \<and> v < 0)"
proof -
  let ?m = "nat \<bar>d\<bar>"
  have len: "length (dec ?m) = (if ?m < 10 then 1 else if ?m < 100 then 2 else 3)"
    using v(2) by (intro length_dec_small) linarith
  have e: "\<bar>d\<bar> * 10 ^ (3 - length (dec ?m)) =
      (if \<bar>d\<bar> < 10 then 100 * \<bar>d\<bar> else if \<bar>d\<bar> < 100 then 10 * \<bar>d\<bar> else \<bar>d\<bar>)"
    unfolding len using v(2) by auto
  have "text_value (reading_text a \<bar>d\<bar>) = (if a < 0 then -1 else 1) * (1000 * \<bar>a\<bar> +
      (if \<bar>d\<bar> < 10 then 100 * \<bar>d\<bar> else if \<bar>d\<bar> < 100 then 10 * \<bar>d\<bar> else \<bar>d\<bar>))"
    using text_value_reading [of "\<bar>d\<bar>" a] e by simp
  then have t: "text_value (reading_text a \<bar>d\<bar>) =
      1000 * a + (if a < 0 then -1 else 1) *
      (if \<bar>d\<bar> < 10 then 100 * \<bar>d\<bar> else if \<bar>d\<bar> < 100 then 10 * \<bar>d\<bar> else \<bar>d\<bar>)"
    by (simp add: algebra_simps)
  consider "a < 0" "d \<le> 0" | "a = 0" "d < 0" | "0 \<le> a" "0 \<le> d"
    using v(3,4) by linarith
  then show ?thesis
  proof cases
    case 1
    then show ?thesis using v(1,2) unfolding t by (simp; linarith)
  next
    case 2
    then show ?thesis using v(1,2) unfolding t by (simp; linarith)
  next
    case 3
    then show ?thesis using v(1,2) unfolding t by (simp; linarith)
  qed
qed

end
