(* ===== verification/Chrdev.thy ===== *)
theory Chrdev
  imports ReceiverProps Format
begin

text \<open>
  The character devices of \<open>lunix-chrdev.c\<close>, one per sensor and kind of measurement: the
  private state of an open file, its refresh from the sensor buffers and the file operations.
  The read call is given in the pieces between its blocking points; \<open>ChrdevRead\<close> puts them
  together as a step relation.
\<close>

section \<open>State\<close>

definition LUNIX_CHRDEV_BUFSZ :: nat where "LUNIX_CHRDEV_BUFSZ = 20"

text \<open>
  \<open>struct lunix_chrdev_state_struct\<close>; the sensor pointer is its index in \<open>lunix_sensors\<close>,
  the semaphore is its count.
\<close>

record lunix_chrdev_state_struct =
  type :: lunix_msr_enum
  sensor :: nat
  buf_lim :: int
  buf_data :: "char list"
  buf_timestamp :: u32
  lock :: nat

section \<open>Refreshing the cached text\<close>

text \<open>
  The generated tables \<open>lookup_voltage\<close>, \<open>lookup_temperature\<close> and \<open>lookup_light\<close> are
  not part of the sources: \<open>lookup\<close> stands for them, a \<open>long\<close> for every 16-bit value.
\<close>

type_synonym lookup_tables = "lunix_msr_enum \<Rightarrow> u16 \<Rightarrow> u64"

definition lunix_chrdev_state_needs_refresh ::
  "lunix_world \<Rightarrow> lunix_chrdev_state_struct \<Rightarrow> bool option"
where
  "lunix_chrdev_state_needs_refresh w state =
     (if length (sensors w) \<le> sensor state then None
      else do {
        t \<leftarrow> get_last_update (msr_data (sensors w ! sensor state) ! msr_index (type state)) (pages w);
        Some (buf_timestamp state < t)
      })"

text \<open>\<open>sprintf\<close> into the buffer: text and NUL must fit, otherwise it is an overflow.\<close>

definition sprintf_buf :: "string \<Rightarrow> char list \<Rightarrow> char list option" where
  "sprintf_buf t buf =
     (if length t + 1 \<le> length buf then Some (t @ [CHR 0x00] @ drop (length t + 1) buf) else None)"

definition strlen :: "char list \<Rightarrow> nat" where
  "strlen buf = length (takeWhile (\<lambda>c. c \<noteq> CHR 0x00) buf)"

text \<open>The formatting part: \<open>/\<close> and \<open>%\<close> of C on a \<open>long\<close>, stored in an \<open>int\<close>.\<close>

definition akeraio_meros :: "u64 \<Rightarrow> int" where
  "akeraio_meros looked = sint (word_of_int (sint looked sdiv 1000) :: u32)"

definition dekadiko_meros :: "u64 \<Rightarrow> int" where
  "dekadiko_meros looked = sint (word_of_int (sint looked smod 1000) :: u32)"

text \<open>The result is -EAGAIN with the state as it was, or 0 with the new text and timestamp.\<close>

definition lunix_chrdev_state_update ::
  "lookup_tables \<Rightarrow> lunix_world \<Rightarrow> lunix_chrdev_state_struct
     \<Rightarrow> (int \<times> lunix_chrdev_state_struct) option"
where
  "lunix_chrdev_state_update lookup w state = do {
     fresh \<leftarrow> lunix_chrdev_state_needs_refresh w state;
     if \<not> fresh then Some (- EAGAIN, state)
     else do {
       s \<leftarrow> spin_lock (sensors w ! sensor state);
       v \<leftarrow> get_value (msr_data s ! msr_index (type state)) (pages w);
       t \<leftarrow> get_last_update (msr_data s ! msr_index (type state)) (pages w);
       let state = state\<lparr>buf_timestamp := t\<rparr>;
       let looked = lookup (type state) (ucast v);
       buf \<leftarrow> sprintf_buf (reading_text (akeraio_meros looked) \<bar>dekadiko_meros looked\<bar>) (buf_data state);
       Some (0, state\<lparr>buf_data := buf, buf_lim := int (strlen buf)\<rparr>)
     }
   }"

section \<open>Open, release and the refused operations\<close>

text \<open>
  \<open>open\<close>: the file's minor number selects sensor and kind. \<open>nonseekable\<close> is the result of
  the kernel's \<open>nonseekable_open\<close>, \<open>fresh\<close> what \<open>kmalloc\<close> gives, \<open>None\<close> if it
  fails or else memory with arbitrary contents. The result has the private data of the file.
\<close>

fun msr_of_index :: "nat \<Rightarrow> lunix_msr_enum" where
  "msr_of_index 0 = BATT"
| "msr_of_index (Suc 0) = TEMP"
| "msr_of_index _ = LIGHT"

definition lunix_chrdev_open ::
  "int \<Rightarrow> lunix_chrdev_state_struct option \<Rightarrow> u32 \<Rightarrow> int \<times> lunix_chrdev_state_struct option"
where
  "lunix_chrdev_open nonseekable fresh minor =
     (if nonseekable < 0 then (nonseekable, None)
      else
        let sensor_no = drop_bit 3 minor; ty = minor AND 0b111
        in if N_LUNIX_MSR \<le> unat ty then (- ENODEV, None)
        else case fresh of
          None \<Rightarrow> (- ENOMEM, None)
        | Some pd \<Rightarrow> (nonseekable,
            Some (pd\<lparr>type := msr_of_index (unat ty), sensor := unat sensor_no, buf_lim := 0,
                      buf_timestamp := 0, lock := 1\<rparr>)))"

definition lunix_chrdev_release ::
  "lunix_chrdev_state_struct option \<Rightarrow> int \<times> lunix_chrdev_state_struct option"
where
  "lunix_chrdev_release private_data = (0, None)"

definition lunix_chrdev_ioctl :: "u32 \<Rightarrow> u64 \<Rightarrow> int" where
  "lunix_chrdev_ioctl cmd arg = - EINVAL"

definition lunix_chrdev_mmap :: int where
  "lunix_chrdev_mmap = - EINVAL"

section \<open>The copying part of read\<close>

text \<open>
  \<open>copy_to_user\<close>: whether bytes are left over, and the bytes that arrive. \<open>bad\<close> says that
  the user's range is not writable; no user range has \<open>2 ^ 63\<close> bytes. Reading outside the
  kernel object is an Oops.
\<close>

definition copy_to_user :: "bool \<Rightarrow> char list \<Rightarrow> u64 \<Rightarrow> u64 \<Rightarrow> (bool \<times> string) option" where
  "copy_to_user bad src off n =
     (if sint n < 0 \<or> (bad \<and> n \<noteq> 0) then Some (True, [])
      else if length src < unat off + unat n then None
      else Some (False, take (unat n) (drop (unat off) src)))"

text \<open>
  From the clamping of \<open>cnt\<close> to the label \<open>out\<close>, with the semaphore held: the return value,
  the file position and the bytes delivered. \<open>*f_pos + cnt\<close> is unsigned, the comparison with
  \<open>*f_pos\<close> at the end is signed.
\<close>

definition read_copy ::
  "bool \<Rightarrow> lunix_chrdev_state_struct \<Rightarrow> u64 \<Rightarrow> u64 \<Rightarrow> (int \<times> u64 \<times> string) option"
where
  "read_copy bad state f_pos cnt = do {
     let cnt = (if of_int (buf_lim state) < f_pos + cnt then of_int (buf_lim state) - f_pos else cnt);
     (left, bytes) \<leftarrow> copy_to_user bad (buf_data state) f_pos cnt;
     if left then Some (- EFAULT, f_pos, [])
     else do {
       let f_pos = f_pos + cnt;
       let ret = sint cnt;
       let f_pos = (if buf_lim state \<le> sint f_pos then 0 else f_pos);
       Some (ret, f_pos, bytes)
     }
   }"

section \<open>Registration\<close>

text \<open>
  \<open>reg\<close> and \<open>add\<close> are the results of the kernel's \<open>register_chrdev_region\<close> and
  \<open>cdev_add\<close>.
\<close>

definition lunix_minor_cnt :: "int \<Rightarrow> u32" where
  "lunix_minor_cnt sensor_cnt = push_bit 3 (word_of_int sensor_cnt)"

definition lunix_chrdev_init :: "int \<Rightarrow> int \<Rightarrow> int \<Rightarrow> chrdev_registry \<Rightarrow> int \<times> chrdev_registry" where
  "lunix_chrdev_init reg add sensor_cnt r =
     (if reg < 0 then (reg, r)
      else let r = r\<lparr>region := Some (lunix_minor_cnt sensor_cnt)\<rparr>
      in if add < 0 then (add, r\<lparr>region := None\<rparr>)
      else (0, r\<lparr>cdev_live := True\<rparr>))"

definition lunix_chrdev_destroy :: "chrdev_registry \<Rightarrow> chrdev_registry" where
  "lunix_chrdev_destroy r = r\<lparr>cdev_live := False, region := None\<rparr>"

section \<open>Lemmas\<close>

text \<open>The remainder always fits, the quotient up to two thousand millions of thousandths.\<close>

lemma dekadiko_eq: "dekadiko_meros looked = sint looked smod 1000"
  using smod_int_range [of 1000 "sint looked"]
  by (simp add: dekadiko_meros_def sint_word_of_int_u32)

lemma dekadiko_bound: "\<bar>dekadiko_meros looked\<bar> < 1000"
  using smod_int_range [of 1000 "sint looked"] by (auto simp: dekadiko_eq)

lemma akeraio_eq:
  assumes "\<bar>sint looked\<bar> < 2000000000000"
  shows "akeraio_meros looked = sint looked sdiv 1000"
proof -
  have eq: "sint looked = 1000 * (sint looked sdiv 1000) + sint looked smod 1000"
    by (simp add: mult_sdiv_smod_eq)
  have "\<bar>sint looked sdiv 1000\<bar> \<le> 2000000001"
    using eq assms smod_int_range [of 1000 "sint looked"] by (simp; linarith)
  then show ?thesis by (simp add: akeraio_meros_def sint_word_of_int_u32)
qed

lemma reading_text_short: "length (reading_text (akeraio_meros looked) \<bar>dekadiko_meros looked\<bar>) \<le> 16"
proof -
  have a: "length (print_int (akeraio_meros looked)) \<le> 11"
    by (rule length_print_int) (use sint_u32_range in \<open>simp_all add: akeraio_meros_def\<close>)
  have "nat \<bar>dekadiko_meros looked\<bar> < 10 ^ Suc 2" using dekadiko_bound [of looked] by simp
  then have "length (dec (nat \<bar>dekadiko_meros looked\<bar>)) \<le> 3"
    using length_dec_le [of _ 2] by simp
  then show ?thesis using a by (simp add: reading_text_def print_int_def [of "\<bar>_\<bar>"])
qed

lemma reading_text_no_nul: "CHR 0x00 \<notin> set (reading_text a d)"
  using print_int_plain(3) by (simp add: reading_text_def)

lemma strlen_sprintf:
  "CHR 0x00 \<notin> set t \<Longrightarrow> sprintf_buf t buf = Some buf' \<Longrightarrow>
    strlen buf' = length t \<and> length buf' = length buf \<and> take (length t) buf' = t"
proof -
  assume t: "CHR 0x00 \<notin> set t" and b: "sprintf_buf t buf = Some buf'"
  have "takeWhile (\<lambda>c. c \<noteq> CHR 0x00) (t @ CHR 0x00 # zs) = t" for zs
    using t by (subst takeWhile_append2) auto
  then show ?thesis using b by (auto simp: sprintf_buf_def strlen_def split: if_splits)
qed

text \<open>The cached text of an open file.\<close>

definition cached :: "lunix_chrdev_state_struct \<Rightarrow> string" where
  "cached state = take (nat (buf_lim state)) (buf_data state)"

definition wf_chrdev :: "lunix_world \<Rightarrow> lunix_chrdev_state_struct \<Rightarrow> bool" where
  "wf_chrdev w state \<longleftrightarrow> sensor state < length (sensors w)
     \<and> length (buf_data state) = LUNIX_CHRDEV_BUFSZ \<and> 0 \<le> buf_lim state \<and> buf_lim state \<le> 16"

lemma wf_world_peek:
  assumes "wf_world w" "i < length (sensors w)"
  obtains v t where "get_value (msr_data (sensors w ! i) ! msr_index k) (pages w) = Some v"
    "get_last_update (msr_data (sensors w ! i) ! msr_index k) (pages w) = Some t"
    "sensor_peek (pages w) (sensors w ! i) k = Some (ucast v, t)" "\<not> sensor_lock (sensors w ! i)"
proof -
  have wf: "wf_sensor (pages w) (sensors w ! i)"
    using assms by (simp add: wf_world_def wf_sensors_nth)
  then have len: "length (msr_data (sensors w ! i)) = N_LUNIX_MSR" by (simp add: wf_sensor_def)
  have "msr_data (sensors w ! i) ! msr_index k \<in> set (msr_data (sensors w ! i))"
    using nth_mem [of "msr_index k" "msr_data (sensors w ! i)"] len by simp
  then have "wf_page (pages w) (msr_data (sensors w ! i) ! msr_index k)"
    using wf by (simp add: wf_sensor_def list_all_iff)
  then obtain d v vs where "pages w (msr_data (sensors w ! i) ! msr_index k) = Some d" "msr_values d = v # vs"
    by (rule wf_page_Some)
  then show thesis
    using that [of v "last_update d"] wf
    by (simp add: get_value_def get_last_update_def sensor_peek_def wf_sensor_def)
qed

text \<open>What a refresh does, in terms of what the sensor shows.\<close>

lemma needs_refresh_peek:
  assumes "wf_world w" "sensor st < length (sensors w)"
    and "sensor_peek (pages w) (sensors w ! sensor st) (type st) = Some (v, t)"
  shows "lunix_chrdev_state_needs_refresh w st = Some (buf_timestamp st < t)"
  by (rule wf_world_peek [OF assms(1,2), of "type st"])
    (use assms(2,3) in \<open>simp add: lunix_chrdev_state_needs_refresh_def\<close>)

lemma state_update_works:
  assumes wf: "wf_world w" "wf_chrdev w st"
    and peek: "sensor_peek (pages w) (sensors w ! sensor st) (type st) = Some (v, t)"
  obtains (stale) "\<not> buf_timestamp st < t" "lunix_chrdev_state_update lookup w st = Some (- EAGAIN, st)"
  | (fresh) st' where "buf_timestamp st < t" "lunix_chrdev_state_update lookup w st = Some (0, st')"
      "wf_chrdev w st'" "buf_timestamp st' = t" "lock st' = lock st"
      "sensor st' = sensor st" "type st' = type st"
      "cached st' = reading_text (akeraio_meros (lookup (type st) v)) \<bar>dekadiko_meros (lookup (type st) v)\<bar>"
      "buf_lim st' = int (length (cached st'))"
proof -
  have i: "sensor st < length (sensors w)" using wf(2) by (simp add: wf_chrdev_def)
  note nr = needs_refresh_peek [OF wf(1) i peek]
  show thesis
  proof (cases "buf_timestamp st < t")
    case False
    then show thesis using stale nr by (simp add: lunix_chrdev_state_update_def)
  next
    case True
    let ?x = "reading_text (akeraio_meros (lookup (type st) v)) \<bar>dekadiko_meros (lookup (type st) v)\<bar>"
    obtain v' where g: "get_value (msr_data (sensors w ! sensor st) ! msr_index (type st)) (pages w) = Some v'"
      "ucast v' = v" "get_last_update (msr_data (sensors w ! sensor st) ! msr_index (type st)) (pages w) = Some t"
      "\<not> sensor_lock (sensors w ! sensor st)"
      by (rule wf_world_peek [OF wf(1) i, of "type st"]) (use peek in auto)
    have len: "length ?x \<le> 16" by (rule reading_text_short)
    then obtain buf where buf: "sprintf_buf ?x (buf_data st) = Some buf"
      using wf(2) by (simp add: sprintf_buf_def wf_chrdev_def LUNIX_CHRDEV_BUFSZ_def)
    note s = strlen_sprintf [OF reading_text_no_nul buf]
    let ?st = "st\<lparr>buf_timestamp := t, buf_data := buf, buf_lim := int (strlen buf)\<rparr>"
    have upd: "lunix_chrdev_state_update lookup w st = Some (0, ?st)"
      using True nr g buf by (simp add: lunix_chrdev_state_update_def spin_lock_def Let_def)
    have "wf_chrdev w ?st" using wf(2) s len by (simp add: wf_chrdev_def)
    moreover have "cached ?st = ?x" using s by (simp add: cached_def)
    ultimately show thesis using fresh [of ?st] True upd s by simp
  qed
qed

section \<open>What the copying part does\<close>

lemma unat_add_u64: "unat (a :: u64) + unat (b :: u64) < 2 ^ 64 \<Longrightarrow> unat (a + b) = unat a + unat b"
  by (simp add: unat_word_ariths)

lemma unat_small_u64: "n < 2 ^ 64 \<Longrightarrow> unat (of_nat n :: u64) = n"
  by (simp add: unat_of_nat)

lemma sint_eq_unat: "unat (a :: u64) < 2 ^ 63 \<Longrightarrow> sint a = int (unat a)"
proof -
  assume a: "unat a < 2 ^ 63"
  have u: "uint a = int (unat a)" by simp
  have "int (unat a) < int (2 ^ 63)" using a by (simp only: of_nat_less_iff)
  then have "int (unat a) < 2 ^ 63" by (simp only: of_nat_power of_nat_numeral)
  then have "signed_take_bit 63 (uint a) = uint a"
    unfolding u by (intro signed_take_bit_int_eq_self) (rule order.trans [of _ 0]; simp)
  then show ?thesis by (simp add: sint_uint)
qed

lemma sint_neg_u64: "2 ^ 63 \<le> unat (a :: u64) \<Longrightarrow> sint a < 0"
proof (rule ccontr)
  assume a: "2 ^ 63 \<le> unat a" and "\<not> sint a < 0"
  moreover have "sint a < 2 ^ 63" using sint_lt [of a] by simp
  ultimately have "uint a = sint a" by (simp add: uint_sint take_bit_int_eq_self)
  moreover have "uint a = int (unat a)" by simp
  moreover have "int (2 ^ 63) \<le> int (unat a)" using a by (simp only: of_nat_le_iff)
  then have "2 ^ 63 \<le> int (unat a)" by (simp only: of_nat_power of_nat_numeral)
  ultimately show False using \<open>sint a < 2 ^ 63\<close> by linarith
qed

text \<open>
  With the position inside the cached text: the request is cut to what is left, the bytes are those
  of the text, and reaching the end rewinds.
\<close>

lemma read_copy_inside:
  assumes wf: "wf_chrdev w st" and pos: "unat f_pos \<le> nat (buf_lim st)" and cnt: "unat cnt < 2 ^ 63"
  defines "n \<equiv> min (unat cnt) (nat (buf_lim st) - unat f_pos)"
  shows "read_copy bad st f_pos cnt =
    (if bad \<and> 0 < n then Some (- EFAULT, f_pos, [])
     else Some (int n, if nat (buf_lim st) \<le> unat f_pos + n then 0 else f_pos + of_nat n,
                take n (drop (unat f_pos) (cached st))))"
proof -
  obtain l where l: "buf_lim st = int l" "l \<le> 16" and data: "length (buf_data st) = 20"
    using wf by (auto simp: wf_chrdev_def LUNIX_CHRDEV_BUFSZ_def elim!: nonneg_int_cases)
  have p: "unat f_pos \<le> l" using pos l by simp
  have sum: "unat (f_pos + cnt) = unat f_pos + unat cnt"
    using p l(2) cnt by (intro unat_add_u64) simp
  have ul: "unat (of_nat l :: u64) = l" using l(2) by (intro unat_small_u64) simp
  have n: "n \<le> l - unat f_pos" "n \<le> unat cnt" "n = min (unat cnt) (l - unat f_pos)"
    using l by (simp_all add: n_def)
  have un: "unat (of_nat n :: u64) = n" using n(1) l(2) by (intro unat_small_u64) simp
  have clamp: "(if of_nat l < f_pos + cnt then of_nat l - f_pos else cnt) = (of_nat n :: u64)"
  proof (cases "of_nat l < f_pos + cnt")
    case True
    then have "l < unat f_pos + unat cnt" using sum ul by (simp add: word_less_nat_alt)
    then have "n = l - unat f_pos" using n(3) by simp
    moreover have "f_pos = of_nat (unat f_pos)" by simp
    ultimately show ?thesis using True p by (metis of_nat_diff)
  next
    case False
    then have "unat f_pos + unat cnt \<le> l" using sum ul by (simp add: word_less_nat_alt)
    then have "n = unat cnt" using n(3) by simp
    then show ?thesis using False by simp
  qed
  have sn: "sint (of_nat n :: u64) = int n" using un n(1) l(2) by (subst sint_eq_unat) simp_all
  have sp: "unat (f_pos + of_nat n) = unat f_pos + n"
    using un p n(1) l(2) by (subst unat_add_u64) simp_all
  then have spn: "sint (f_pos + of_nat n) = int (unat f_pos + n)"
    using p n(1) l(2) by (subst sint_eq_unat) simp_all
  have z: "(of_nat n :: u64) \<noteq> 0 \<longleftrightarrow> 0 < n"
  proof -
    have "n = 0" if "(of_nat n :: u64) = 0" using un unfolding that by simp
    then show ?thesis by (cases "n = 0") auto
  qed
  have c: "copy_to_user bad (buf_data st) f_pos (of_nat n) =
      (if bad \<and> 0 < n then Some (True, []) else Some (False, take n (drop (unat f_pos) (buf_data st))))"
  proof -
    have "\<not> 20 < unat f_pos + n" using n(1) p l(2) by linarith
    then show ?thesis using sn un z data by (simp add: copy_to_user_def)
  qed
  have bytes: "take n (drop (unat f_pos) (buf_data st)) = take n (drop (unat f_pos) (cached st))"
    using n(1) l(1) by (simp add: cached_def drop_take take_take min_absorb1)
  have ll: "(of_int (buf_lim st) :: u64) = of_nat l" "nat (buf_lim st) = l" using l by simp_all
  have at_end: "buf_lim st \<le> sint (f_pos + of_nat n) \<longleftrightarrow> l \<le> unat f_pos + n"
    unfolding spn l(1) by (rule of_nat_le_iff)
  show ?thesis
    unfolding read_copy_def ll clamp Let_def c
    using sn at_end bytes by simp
qed

text \<open>
  With the position past the text, which a concurrent reader can cause: the difference wraps
  around and the copy fails.
\<close>

lemma read_copy_past:
  assumes wf: "wf_chrdev w st" and pos: "nat (buf_lim st) < unat f_pos" "unat f_pos < 2 ^ 62"
    and cnt: "unat cnt < 2 ^ 63"
  shows "read_copy bad st f_pos cnt = Some (- EFAULT, f_pos, [])"
proof -
  obtain l where l: "buf_lim st = int l" "l \<le> 16"
    using wf by (auto simp: wf_chrdev_def elim!: nonneg_int_cases)
  have p: "l < unat f_pos" using pos l by simp
  have ul: "unat (of_nat l :: u64) = l" using l(2) by (intro unat_small_u64) simp
  have sum: "unat (f_pos + cnt) = unat f_pos + unat cnt"
    using pos(2) cnt by (intro unat_add_u64) simp
  have less: "of_nat l < f_pos + cnt" using sum ul p by (simp add: word_less_nat_alt)
  have "unat (of_nat l - f_pos) = 2 ^ 64 - (unat f_pos - l)"
    using p ul pos(2) by (simp add: unat_sub_if' word_le_nat_alt)
  then have "sint (of_nat l - f_pos) < 0" using pos(2) by (intro sint_neg_u64) simp
  then show ?thesis
    using less l(1) by (simp add: read_copy_def copy_to_user_def Let_def)
qed

lemma read_copy_no_oops:
  assumes "wf_chrdev w st" "unat f_pos < 2 ^ 62" "unat cnt < 2 ^ 63"
  shows "read_copy bad st f_pos cnt \<noteq> None"
  using read_copy_inside [OF assms(1) _ assms(3)] read_copy_past [OF assms(1) _ assms(2,3)]
  by (cases "nat (buf_lim st) < unat f_pos") (simp_all add: not_less)

section \<open>Properties\<close>

lemma msr_of_index_index: "n < N_LUNIX_MSR \<Longrightarrow> msr_index (msr_of_index n) = n"
  by (cases n rule: msr_of_index.cases) (simp_all add: N_LUNIX_MSR_def)

lemma minor_type: "unat ((minor :: u32) AND 0b111) = unat minor mod 8"
proof -
  have "minor AND 0b111 = take_bit 3 minor" by (simp add: take_bit_eq_mask mask_eq_decr_exp)
  then show ?thesis by (simp add: unsigned_take_bit_eq) (simp add: take_bit_eq_mod)
qed

lemma minor_sensor: "unat (drop_bit 3 (minor :: u32)) = unat minor div 8"
  by (simp only: unat_drop_bit_eq) (simp add: drop_bit_eq_div)

lemma chrdev_open_file:
  assumes "lunix_chrdev_open nonseekable fresh minor = (r, Some p)"
    and "\<And>m. fresh = Some m \<Longrightarrow> length (buf_data m) = LUNIX_CHRDEV_BUFSZ"
  shows "r = nonseekable" "8 * sensor p + msr_index (type p) = unat minor" "buf_timestamp p = 0"
    "buf_lim p = 0" "lock p = 1" "unat minor < 8 * length (sensors w) \<Longrightarrow> wf_chrdev w p"
proof -
  have ty: "unat minor mod 8 < N_LUNIX_MSR"
    using assms(1) by (auto simp: lunix_chrdev_open_def minor_type N_LUNIX_MSR_def Let_def split: if_splits)
  note opened = assms(1) [unfolded lunix_chrdev_open_def Let_def minor_type]
  show "r = nonseekable" "8 * sensor p + msr_index (type p) = unat minor" "buf_timestamp p = 0"
    "buf_lim p = 0" "lock p = 1"
    using opened msr_of_index_index [OF ty] by (auto simp: minor_sensor split: if_splits option.splits)
  show "wf_chrdev w p" if "unat minor < 8 * length (sensors w)"
    using opened that assms(2)
    by (auto simp: minor_sensor wf_chrdev_def less_mult_imp_div_less mult.commute split: if_splits option.splits)
qed

text \<open>Opening a device node. The minor number \<open>8 * s + k\<close> selects measurement \<open>k\<close>
  of sensor \<open>s\<close>; kinds 3 to 7 do not exist (-ENODEV), a failed allocation is -ENOMEM, and
  otherwise the file starts with an empty text, timestamp 0 and a free semaphore, and is well-formed
  whenever the minor number is one of the \<open>8 * lunix_sensor_cnt\<close> registered ones.\<close>

theorem open_selects_measurement:
  assumes "lunix_chrdev_open 0 fresh minor = (r, pd)"
  shows "r = (if 3 \<le> unat minor mod 8 then - ENODEV else if fresh = None then - ENOMEM else 0)
    \<and> (case pd of None \<Rightarrow> r \<noteq> 0
       | Some p \<Rightarrow> r = 0 \<and> 8 * sensor p + msr_index (type p) = unat minor
           \<and> cached p = [] \<and> buf_timestamp p = 0 \<and> lock p = 1
           \<and> (unat minor < 8 * length (sensors w) \<and> length (buf_data p) = LUNIX_CHRDEV_BUFSZ \<longrightarrow> wf_chrdev w p))"
proof (cases "3 \<le> unat minor mod 8 \<or> fresh = None")
  case True
  then show ?thesis
    using assms by (auto simp: lunix_chrdev_open_def minor_type N_LUNIX_MSR_def Let_def)
next
  case False
  then obtain q where fresh: "fresh = Some q" and ty: "unat minor mod 8 < N_LUNIX_MSR"
    by (auto simp: N_LUNIX_MSR_def not_le)
  note idx = msr_of_index_index [OF ty]
  show ?thesis
    using assms fresh ty idx False
    by (auto simp: lunix_chrdev_open_def minor_type minor_sensor Let_def wf_chrdev_def cached_def
        N_LUNIX_MSR_def less_mult_imp_div_less mult.commute)
qed

definition blank_chrdev :: lunix_chrdev_state_struct where
  "blank_chrdev = \<lparr>type = BATT, sensor = 0, buf_lim = 0, buf_data = replicate 20 CHR 0x55,
     buf_timestamp = 0, lock = 0\<rparr>"

definition sample_chrdev :: lunix_chrdev_state_struct where
  "sample_chrdev = blank_chrdev\<lparr>type := TEMP, sensor := 1, lock := 1\<rparr>"

lemma open_selects_measurement_witness:
  "fst (lunix_chrdev_open 0 (Some blank_chrdev) 9) = 0 \<and>
   (case snd (lunix_chrdev_open 0 (Some blank_chrdev) 9) of None \<Rightarrow> False
    | Some p \<Rightarrow> 8 * sensor p + msr_index (type p) = 9)"
proof -
  obtain r pd where o: "lunix_chrdev_open 0 (Some blank_chrdev) 9 = (r, pd)" by fastforce
  show ?thesis using open_selects_measurement [OF o, of sample_world] o by (cases pd) auto
qed

lemma sample_chrdev_wf: "wf_chrdev sample_world sample_chrdev"
  by (simp add: wf_chrdev_def sample_world_def sample_chrdev_def blank_chrdev_def LUNIX_CHRDEV_BUFSZ_def)

text \<open>C28: a refresh never overflows the 20-byte buffer and never Oopses, whatever the lookup
  tables hold. With nothing newer than the cached timestamp it is -EAGAIN and changes nothing;
  otherwise the text is the table's entry for the sensor's value, the timestamp that of the
  measurement.\<close>

theorem refresh_outcome:
  assumes "wf_world w" "wf_chrdev w st"
    and "sensor_peek (pages w) (sensors w ! sensor st) (type st) = Some (v, t)"
  shows "case lunix_chrdev_state_update lookup w st of None \<Rightarrow> False
    | Some (r, st') \<Rightarrow> wf_chrdev w st' \<and> lock st' = lock st \<and>
        (if buf_timestamp st < t then r = 0 \<and> buf_timestamp st' = t \<and> cached st' =
           reading_text (akeraio_meros (lookup (type st) v)) \<bar>dekadiko_meros (lookup (type st) v)\<bar>
         else r = - EAGAIN \<and> st' = st)"
  by (rule state_update_works [OF assms, of lookup]) (use assms(2) in simp_all)

text \<open>A world in which sensor 1 has just got a report, at second 9.\<close>

definition reported_world :: lunix_world where
  "reported_world = (case lunix_sensor_update (sensors sample_world ! 1) 100 0x1F0 7 9 sample_pages of
     Some (s, m, _) \<Rightarrow> sample_world\<lparr>sensors := (sensors sample_world)[1 := s], pages := m\<rparr>
   | None \<Rightarrow> sample_world)"

lemma reported_world_wf:
  "wf_world reported_world" "length (sensors reported_world) = 2"
  "sensor_peek (pages reported_world) (sensors reported_world ! 1) TEMP = Some (0x1F0, 9)"
proof -
  have all: "sensor_store.all_good sample_pages (sensors sample_world)" "1 < length (sensors sample_world)"
    using sample_world_wf by (simp_all add: wf_world_def sample_world_def wf_sensors_all_good)
  obtain s m where "lunix_sensor_update (sensors sample_world ! 1) 100 0x1F0 7 9 sample_pages =
      Some (s, m, wq (sensors sample_world ! 1))"
    "sensor_store.all_good m ((sensors sample_world)[1 := s])"
    "\<And>k. sensor_peek m ((sensors sample_world)[1 := s] ! 1) k =
      Some (case k of BATT \<Rightarrow> 100 | TEMP \<Rightarrow> 0x1F0 | LIGHT \<Rightarrow> 7, ucast (9 :: u64))"
    by (rule sensor_store.update_nth [OF all, of 100 "0x1F0" 7 9]) blast
  then show "wf_world reported_world" "length (sensors reported_world) = 2"
    "sensor_peek (pages reported_world) (sensors reported_world ! 1) TEMP = Some (0x1F0, 9)"
    by (simp_all add: reported_world_def wf_world_def wf_sensors_all_good sample_world_def)
qed

lemma sample_chrdev_reported: "wf_chrdev reported_world sample_chrdev" "sensor sample_chrdev = 1"
  "type sample_chrdev = TEMP" "buf_timestamp sample_chrdev = 0"
  using sample_chrdev_wf reported_world_wf(2)
  by (simp_all add: wf_chrdev_def sample_chrdev_def blank_chrdev_def)

lemma refresh_outcome_witness:
  "case lunix_chrdev_state_update (\<lambda>k v. 1234) reported_world sample_chrdev of None \<Rightarrow> False
   | Some (r, st') \<Rightarrow> r = 0 \<and> buf_timestamp st' = 9 \<and> cached st' = reading_text 1 234"
proof -
  have v: "akeraio_meros 1234 = 1" "dekadiko_meros 1234 = 234"
    by (simp_all add: akeraio_meros_def dekadiko_meros_def)
  show ?thesis
    using refresh_outcome [OF reported_world_wf(1) sample_chrdev_reported(1), of "0x1F0" 9 "\<lambda>k v. 1234"]
      reported_world_wf(3) sample_chrdev_reported v
    by (auto split: option.splits)
qed

text \<open>C40: what the text is worth. Reading it as a decimal number gives the measurement back
  exactly when its thousandths need no leading zero and the value is not a negative fraction of
  one: \<open>%d\<close> after the point drops leading zeros (1.005 is printed as 1.5) and a sign
  that only the integer part could carry.\<close>

theorem text_faithful_iff:
  assumes "wf_world w" "wf_chrdev w st"
    and "sensor_peek (pages w) (sensors w ! sensor st) (type st) = Some (v, t)" "buf_timestamp st < t"
    and "x = sint (lookup (type st) v)" "\<bar>x\<bar> < 2000000000000"
  shows "\<exists>st'. lunix_chrdev_state_update lookup w st = Some (0, st') \<and>
    (text_value (cached st') = x \<longleftrightarrow> (1000 dvd x \<or> 100 \<le> \<bar>x\<bar> mod 1000) \<and> \<not> (- 1000 < x \<and> x < 0))"
proof -
  let ?l = "lookup (type st) v"
  have d: "dekadiko_meros ?l = x smod 1000" and a: "akeraio_meros ?l = x sdiv 1000"
    using assms(5,6) akeraio_eq [of ?l] by (simp_all add: dekadiko_eq)
  have eq: "x = 1000 * (x sdiv 1000) + x smod 1000" by (simp add: mult_sdiv_smod_eq)
  have bound: "\<bar>x smod 1000\<bar> < 1000" using dekadiko_bound [of ?l] d by simp
  have sgn: "0 \<le> x \<Longrightarrow> 0 \<le> x smod 1000" "x \<le> 0 \<Longrightarrow> x smod 1000 \<le> 0"
    by (rule smod_int_compares; simp)+
  have "0 < x sdiv 1000 \<Longrightarrow> 0 \<le> x smod 1000" "x sdiv 1000 < 0 \<Longrightarrow> x smod 1000 \<le> 0"
    using eq bound sgn by linarith+
  note split = text_value_split [OF eq bound this]
  have "\<bar>x smod 1000\<bar> = \<bar>x\<bar> mod 1000"
    by (simp add: smod_int_alt_def abs_mult) (auto simp: sgn_if)
  moreover have "x smod 1000 = 0 \<longleftrightarrow> 1000 dvd x"
    by (auto simp: smod_int_alt_def sgn_if dvd_eq_mod_eq_0 zmod_zminus1_eq_if)
  ultimately have val: "text_value (reading_text (akeraio_meros ?l) \<bar>dekadiko_meros ?l\<bar>) = x \<longleftrightarrow>
      (1000 dvd x \<or> 100 \<le> \<bar>x\<bar> mod 1000) \<and> \<not> (- 1000 < x \<and> x < 0)"
    using split a d by simp
  show ?thesis
    by (rule state_update_works [OF assms(1-3), of lookup]) (use val assms(4) in simp_all)
qed

text \<open>A temperature of 1.005 degrees reaches the user as 1.5.\<close>

lemma text_faithful_iff_witness:
  "\<exists>st'. lunix_chrdev_state_update (\<lambda>k v. 1005) reported_world sample_chrdev = Some (0, st')
    \<and> text_value (cached st') \<noteq> 1005"
  using text_faithful_iff [OF reported_world_wf(1) sample_chrdev_reported(1), of "0x1F0" 9 1005 "\<lambda>k v. 1005"]
    reported_world_wf(3) sample_chrdev_reported by auto

text \<open>Measurements are told apart by their second only. After a refresh, a report that arrives
  with the same time stamp (or a smaller one, once the 32-bit seconds wrap) changes the sensor but
  leaves the file without news: the next refresh is -EAGAIN and the user keeps the old value.\<close>

theorem same_second_report_unseen:
  assumes "wf_world w" "wf_chrdev w st" "lunix_chrdev_state_update lookup w st = Some (0, st1)"
    and "lunix_sensor_update (sensors w ! sensor st) batt temp light now (pages w) = Some (s, m, woken)"
    and "(ucast now :: u32) \<le> buf_timestamp st1"
    and "w' = w\<lparr>sensors := (sensors w)[sensor st := s], pages := m\<rparr>"
  shows "lunix_chrdev_state_update lookup w' st1 = Some (- EAGAIN, st1)
    \<and> sensor_peek m s (type st) =
       Some (case type st of BATT \<Rightarrow> batt | TEMP \<Rightarrow> temp | LIGHT \<Rightarrow> light, ucast now)"
proof -
  have i: "sensor st < length (sensors w)" using assms(2) by (simp add: wf_chrdev_def)
  obtain v t where peek: "sensor_peek (pages w) (sensors w ! sensor st) (type st) = Some (v, t)"
    by (rule wf_world_peek [OF assms(1) i, of "type st"]) blast
  have st1: "sensor st1 = sensor st" "type st1 = type st" "wf_chrdev w st1"
    by (rule state_update_works [OF assms(1,2) peek, of lookup]; use assms(3) in simp)+
  have all: "sensor_store.all_good (pages w) (sensors w)"
    using assms(1) by (simp add: wf_world_def wf_sensors_all_good)
  have upd: "sensor_store.all_good m ((sensors w)[sensor st := s])"
    "sensor_peek m ((sensors w)[sensor st := s] ! sensor st) k =
      Some (case k of BATT \<Rightarrow> batt | TEMP \<Rightarrow> temp | LIGHT \<Rightarrow> light, ucast now)" for k
    by (rule sensor_store.update_nth [OF all i, of batt temp light now]; use assms(4) in simp)+
  have wf': "wf_world w'" using upd(1) assms(1,6) by (simp add: wf_world_def wf_sensors_all_good)
  have wfc': "wf_chrdev w' st1" using st1(3) assms(6) by (simp add: wf_chrdev_def)
  have peek': "sensor_peek (pages w') (sensors w' ! sensor st1) (type st1) =
      Some (case type st of BATT \<Rightarrow> batt | TEMP \<Rightarrow> temp | LIGHT \<Rightarrow> light, ucast now)"
    using upd(2) st1(1,2) assms(6) by simp
  have "lunix_chrdev_state_update lookup w' st1 = Some (- EAGAIN, st1)"
    by (rule state_update_works [OF wf' wfc' peek', of lookup]) (use assms(5) in simp_all)
  then show ?thesis using upd(2) [of "type st"] i by simp
qed

lemma same_second_report_unseen_witness:
  "\<exists>st1 s m. lunix_chrdev_state_update (\<lambda>k v. 1234) reported_world sample_chrdev = Some (0, st1)
    \<and> lunix_sensor_update (sensors reported_world ! 1) 1 2 3 9 (pages reported_world) = Some (s, m, wq (sensors reported_world ! 1))
    \<and> sensor_peek m s TEMP = Some (2, 9)
    \<and> lunix_chrdev_state_update (\<lambda>k v. 1234)
        (reported_world\<lparr>sensors := (sensors reported_world)[1 := s], pages := m\<rparr>) st1 = Some (- EAGAIN, st1)"
proof -
  note c = sample_chrdev_reported
  have peek: "sensor_peek (pages reported_world) (sensors reported_world ! sensor sample_chrdev)
      (type sample_chrdev) = Some (0x1F0, 9)"
    using reported_world_wf(3) c by simp
  obtain st1 where upd: "lunix_chrdev_state_update (\<lambda>k v. 1234) reported_world sample_chrdev = Some (0, st1)"
    and t: "buf_timestamp st1 = 9"
    by (rule state_update_works [OF reported_world_wf(1) c(1) peek, of "\<lambda>k v. 1234"]) (use c(4) in simp_all)
  have "wf_sensor (pages reported_world) (sensors reported_world ! 1)"
    using reported_world_wf by (simp add: wf_world_def wf_sensors_nth)
  then obtain s m where su: "lunix_sensor_update (sensors reported_world ! 1) 1 2 3 9 (pages reported_world) =
      Some (s, m, wq (sensors reported_world ! 1))"
    by (rule lunix_sensor_update_works) blast
  show ?thesis
    using same_second_report_unseen [OF reported_world_wf(1) c(1) upd, of 1 2 3 9 s m] su upd t c by auto
qed

text \<open>The reads of one user, position carried along, up to the rewind.\<close>

fun read_until_rewind ::
  "lunix_chrdev_state_struct \<Rightarrow> u64 \<Rightarrow> u64 list \<Rightarrow> (string \<times> u64) option"
where
  "read_until_rewind st f_pos [] = Some ([], f_pos)"
| "read_until_rewind st f_pos (cnt # cnts) = do {
     (ret, f_pos', bytes) \<leftarrow> read_copy False st f_pos cnt;
     if f_pos' = 0 then Some (bytes, 0)
     else do {
       (bytes', p) \<leftarrow> read_until_rewind st f_pos' cnts;
       Some (bytes @ bytes', p)
     }
   }"

lemma read_until_rewind_text:
  "wf_chrdev w st \<Longrightarrow> unat f_pos < nat (buf_lim st) \<Longrightarrow> \<forall>c \<in> set cnts. 0 < c \<and> unat c < 2 ^ 63 \<Longrightarrow>
    nat (buf_lim st) \<le> unat f_pos + sum_list (map unat cnts) \<Longrightarrow>
    read_until_rewind st f_pos cnts = Some (drop (unat f_pos) (cached st), 0)"
proof (induction cnts arbitrary: f_pos)
  case Nil
  then show ?case by simp
next
  case (Cons c cnts)
  let ?l = "nat (buf_lim st)" and ?n = "min (unat c) (nat (buf_lim st) - unat f_pos)"
  have l16: "?l \<le> 16" and len: "length (cached st) = ?l"
    using Cons.prems(1) by (auto simp: wf_chrdev_def cached_def LUNIX_CHRDEV_BUFSZ_def)
  have c: "unat c < 2 ^ 63" "0 < unat c" using Cons.prems(3) by (auto simp: unat_gt_0 word_neq_0_conv)
  have copy: "read_copy False st f_pos c =
    Some (int ?n, if ?l \<le> unat f_pos + ?n then 0 else f_pos + of_nat ?n, take ?n (drop (unat f_pos) (cached st)))"
    using read_copy_inside [OF Cons.prems(1), of f_pos c False] Cons.prems(2) c by simp
  show ?case
  proof (cases "?l \<le> unat f_pos + ?n")
    case True
    then show ?thesis using copy len Cons.prems(2) by simp
  next
    case False
    then have n: "?n = unat c" by simp
    have sp: "unat (f_pos + of_nat ?n) = unat f_pos + ?n"
      using False l16 by (subst unat_add_u64) (simp_all add: unat_small_u64)
    then have nz: "f_pos + of_nat ?n \<noteq> 0" using c(2) n by (metis add_is_0 less_irrefl unat_0)
    have "read_until_rewind st (f_pos + of_nat ?n) cnts = Some (drop (unat f_pos + ?n) (cached st), 0)"
      using Cons.IH [of "f_pos + of_nat ?n"] Cons.prems sp n False by simp
    moreover have "take ?n (drop (unat f_pos) (cached st)) @ drop (unat f_pos + ?n) (cached st) =
        drop (unat f_pos) (cached st)"
      using append_take_drop_id [of ?n "drop (unat f_pos) (cached st)"] by (simp add: add.commute)
    ultimately show ?thesis using copy False nz by simp
  qed
qed

text \<open>C27: reading in pieces. Whatever positive counts the user asks for, once they cover the
  text, the pieces put together are the cached text, each byte once and in order, and the position
  is back at 0 for the next measurement.\<close>

theorem read_in_pieces:
  assumes "wf_chrdev w st" "0 < buf_lim st"
    and "\<forall>c \<in> set cnts. 0 < c \<and> unat c < 2 ^ 63" "nat (buf_lim st) \<le> sum_list (map unat cnts)"
  shows "read_until_rewind st 0 cnts = Some (cached st, 0)"
  using read_until_rewind_text [OF assms(1), of 0 cnts] assms(2,3,4) by simp

definition cached_chrdev :: lunix_chrdev_state_struct where
  "cached_chrdev = sample_chrdev\<lparr>buf_lim := 5, buf_data := ''21.5'' @ [CHR 0x0A] @ replicate 15 CHR 0x00\<rparr>"

lemma cached_chrdev_wf: "wf_chrdev sample_world cached_chrdev" "buf_lim cached_chrdev = 5"
  using sample_chrdev_wf by (simp_all add: wf_chrdev_def cached_chrdev_def LUNIX_CHRDEV_BUFSZ_def)

lemma read_in_pieces_witness:
  "read_until_rewind cached_chrdev 0 [2, 1, 8] = Some (''21.5'' @ [CHR 0x0A], 0)"
  using read_in_pieces [OF cached_chrdev_wf(1), of "[2, 1, 8]"] cached_chrdev_wf(2)
  by (simp add: cached_def) (simp add: cached_chrdev_def)

text \<open>Registration is all or nothing. 0 only when both kernel calls succeed, and then
  \<open>lunix_chrdev_destroy\<close> undoes it; every failure leaves the driver without device numbers and
  without a live device.\<close>

theorem chrdev_init_all_or_nothing:
  assumes "region r0 = None" "\<not> cdev_live r0" "reg \<le> 0" "add \<le> 0" "lunix_chrdev_init reg add cnt r0 = (r, r1)"
  shows "r \<le> 0 \<and> (r = 0 \<longleftrightarrow> reg = 0 \<and> add = 0)
    \<and> (if r = 0 then region r1 = Some (lunix_minor_cnt cnt) \<and> cdev_live r1 else r1 = r0)
    \<and> lunix_chrdev_destroy r1 = r0"
  using assms by (cases r0) (auto simp: lunix_chrdev_init_def lunix_chrdev_destroy_def Let_def split: if_splits)

lemma chrdev_init_all_or_nothing_witness:
  "lunix_chrdev_init 0 (- ENOMEM) 16 \<lparr>region = None, cdev_live = False\<rparr> = (- ENOMEM, \<lparr>region = None, cdev_live = False\<rparr>)"
proof -
  obtain r r1 where i: "lunix_chrdev_init 0 (- ENOMEM) 16 \<lparr>region = None, cdev_live = False\<rparr> = (r, r1)" by fastforce
  then have "r = - ENOMEM" by (simp add: lunix_chrdev_init_def Let_def)
  then show ?thesis using chrdev_init_all_or_nothing [OF _ _ _ _ i] i by simp
qed

end
