(* ===== verification/Module.thy ===== *)
theory Module
  imports Ldisc Chrdev
begin

text \<open>
  Loading and unloading the driver: \<open>lunix-module.c\<close>. The sensors, the line discipline and the
  character device are set up in this order and taken down in the reverse one; every kernel call
  that can fail is a parameter.
\<close>

section \<open>State\<close>

record lunix_module =
  driver :: lunix_driver
  registry :: chrdev_registry
  sensors_live :: bool
  page_calls :: nat

text \<open>
  The answers of the kernel: \<open>kzalloc\<close> for the array of so many sensors, \<open>get_zeroed_page\<close>,
  \<open>tty_register_ldisc\<close>, \<open>register_chrdev_region\<close> and \<open>cdev_add\<close>.
\<close>

record kernel_answers =
  kzalloc_ok :: "int \<Rightarrow> bool"
  zeroed_pages :: page_alloc
  ldisc_answer :: int
  region_answer :: int
  cdev_answer :: int

section \<open>The loops over the sensors\<close>

text \<open>
  The initialization loop over the indices that remain: whether it was left by the \<open>goto\<close>, the
  result, the index of the last sensor that was initialized (-1 for none), the array and the heap.
\<close>

fun init_sensors ::
  "page_alloc \<Rightarrow> nat list \<Rightarrow> int \<Rightarrow> int \<Rightarrow> lunix_sensor_struct list \<Rightarrow> alloc_state
     \<Rightarrow> bool \<times> int \<times> int \<times> lunix_sensor_struct list \<times> alloc_state"
where
  "init_sensors gzp [] ret si_done ss k = (False, ret, si_done, ss, k)"
| "init_sensors gzp (i # is) ret si_done ss k =
     (case lunix_sensor_init gzp (ss ! i) k of (ret, s, k) \<Rightarrow>
        if ret < 0 then (True, ret, si_done, ss[i := s], k)
        else init_sensors gzp is ret (int i) (ss[i := s]) k)"

text \<open>The loop that destroys the first \<open>n\<close> sensors, the last one first.\<close>

fun destroy_sensors :: "nat \<Rightarrow> lunix_sensor_struct list \<Rightarrow> page_heap \<Rightarrow> page_heap option" where
  "destroy_sensors 0 ss m = Some m"
| "destroy_sensors (Suc n) ss m = Option.bind (lunix_sensor_destroy (ss ! n) m) (destroy_sensors n ss)"

section \<open>Init and cleanup\<close>

text \<open>The label \<open>out_with_sensors\<close>.\<close>

definition out_with_sensors :: "int \<Rightarrow> lunix_module \<Rightarrow> lunix_module option" where
  "out_with_sensors si_done M = do {
     let w = world (driver M);
     m \<leftarrow> destroy_sensors (nat (si_done + 1)) (sensors w) (pages w);
     Some (M\<lparr>driver := (driver M)\<lparr>world := w\<lparr>pages := m, sensors := []\<rparr>\<rparr>, sensors_live := False\<rparr>)
   }"

definition lunix_module_init :: "kernel_answers \<Rightarrow> lunix_module \<Rightarrow> (int \<times> lunix_module) option" where
  "lunix_module_init K M =
     (let cnt = lunix_sensor_cnt (world (driver M)) in
      if \<not> kzalloc_ok K cnt then Some (- ENOMEM, M)
      else
        let d = driver M; w = world d;
            d = d\<lparr>lunix_protocol_state := lunix_protocol_init (lunix_protocol_state d)\<rparr>
        in case init_sensors (zeroed_pages K) [0..<nat cnt] (- ENOMEM) (-1)
                  (replicate (nat cnt) zeroed_sensor) (pages w, page_calls M) of
          (failed, ret, si_done, ss, (m, n)) \<Rightarrow>
            let M = M\<lparr>driver := d\<lparr>world := w\<lparr>sensors := ss, pages := m\<rparr>\<rparr>, sensors_live := True, page_calls := n\<rparr>
            in if failed then do {
                 M \<leftarrow> out_with_sensors si_done M;
                 Some (ret, M)
               }
               else case lunix_ldisc_init (ldisc_answer K) (driver M) of (ret, d) \<Rightarrow>
                 let M = M\<lparr>driver := d\<rparr>
                 in if ret < 0 then do {
                      M \<leftarrow> out_with_sensors si_done M;
                      Some (ret, M)
                    }
                    else case lunix_chrdev_init (region_answer K) (cdev_answer K) cnt (registry M) of (ret, r) \<Rightarrow>
                      let M = M\<lparr>registry := r\<rparr>
                      in if ret < 0 then do {
                           M \<leftarrow> out_with_sensors si_done (M\<lparr>driver := lunix_ldisc_destroy (driver M)\<rparr>);
                           Some (ret, M)
                         }
                         else Some (0, M))"

definition lunix_module_cleanup :: "lunix_module \<Rightarrow> lunix_module option" where
  "lunix_module_cleanup M =
     (let M = M\<lparr>registry := lunix_chrdev_destroy (registry M), driver := lunix_ldisc_destroy (driver M)\<rparr>
      in out_with_sensors (lunix_sensor_cnt (world (driver M)) - 1) M)"

section \<open>Lemmas\<close>

definition pages_of :: "lunix_sensor_struct list \<Rightarrow> addr set" where
  "pages_of ss = (\<Union>s \<in> set ss. set (msr_data s))"

lemma pages_of_simps [simp]:
  "pages_of [] = {}" "pages_of (ss @ [s]) = pages_of ss \<union> set (msr_data s)"
  by (auto simp: pages_of_def)

lemma wf_sensors_page:
  assumes "wf_sensors m ss" "p \<in> pages_of ss"
  shows "p \<noteq> 0" "m p \<noteq> None"
proof -
  obtain i where i: "i < length ss" "p \<in> set (msr_data (ss ! i))"
  proof -
    obtain s where "s \<in> set ss" "p \<in> set (msr_data s)" using assms(2) by (auto simp: pages_of_def)
    then show thesis using that by (metis in_set_conv_nth)
  qed
  have "wf_page m p"
    using wf_sensors_nth [OF assms(1) i(1)] i(2) by (simp add: wf_sensor_def list_all_iff)
  then show "p \<noteq> 0" "m p \<noteq> None" by (auto simp: wf_page_def split: option.splits)
qed

text \<open>
  The loop invariant of the initialization: the first \<open>n\<close> sensors are well-formed, their pages
  were free before, and nothing else has changed in the heap \<open>m0\<close> from before.
\<close>

definition init_inv :: "page_heap \<Rightarrow> nat \<Rightarrow> lunix_sensor_struct list \<Rightarrow> page_heap \<Rightarrow> bool" where
  "init_inv m0 n ss m \<longleftrightarrow> n \<le> length ss \<and> m0 0 = None \<and> wf_sensors m (take n ss)
     \<and> (\<forall>p. p \<notin> pages_of (take n ss) \<longrightarrow> m p = m0 p) \<and> (\<forall>p \<in> pages_of (take n ss). m0 p = None)"

lemma init_inv_null: "init_inv m0 n ss m \<Longrightarrow> m 0 = None"
  using wf_sensors_page(1) [of m "take n ss" 0] unfolding init_inv_def by fastforce

text \<open>One more sensor, initialized or not.\<close>

lemma init_inv_step:
  assumes inv: "init_inv m0 n ss m" and n: "n < length ss" and fresh: "fresh_pages gzp"
    and run: "lunix_sensor_init gzp (ss ! n) (m, c) = (r, s, (m1, c1))"
  shows "r = 0 \<Longrightarrow> init_inv m0 (Suc n) (ss[n := s]) m1"
    and "r < 0 \<Longrightarrow> r = - ENOMEM \<and> wf_sensors m1 (take n (ss[n := s]))
      \<and> pages_of (take n ss) \<inter> (set (msr_data s) - {0}) = {}
      \<and> (\<forall>p. p \<notin> pages_of (take n ss) \<longrightarrow> m1 p = (if p \<in> set (msr_data s) - {0} then Some init_page else m0 p))
      \<and> (\<forall>p \<in> set (msr_data s) - {0}. m0 p = None)"
proof -
  note works = lunix_sensor_init_works [OF fresh init_inv_null [OF inv] run]
  have wf: "wf_sensors m (take n ss)" and out: "\<And>p. p \<notin> pages_of (take n ss) \<Longrightarrow> m p = m0 p"
    and new: "\<And>p. p \<in> pages_of (take n ss) \<Longrightarrow> m0 p = None"
    using inv by (simp_all add: init_inv_def)
  have used: "p \<in> dom m" if "p \<in> pages_of (take n ss)" for p
    using wf_sensors_page(2) [OF wf that] by auto
  have disj: "pages_of (take n ss) \<inter> (set (msr_data s) - {0}) = {}"
    using used works(4) by fastforce
  have same: "m1 p = m p" if "p \<in> dom m" for p
    using works(4,5) that by fastforce
  have wf1: "wf_sensors m1 (take n ss)" by (rule wf_sensors_cong [OF wf same])
  have m0: "m0 p = None" if "p \<in> set (msr_data s)" "p \<noteq> 0" for p
    using works(4) [OF that] out [of p] new [of p] by (cases "p \<in> pages_of (take n ss)") simp_all
  show "init_inv m0 (Suc n) (ss[n := s]) m1" if r: "r = 0"
  proof -
    have s: "wf_sensor m1 s" "0 \<notin> set (msr_data s)" using works(2,3) r by simp_all
    have "set (msr_data (take n ss ! i)) \<inter> set (msr_data s) = {}" if "i < length (take n ss)" for i
    proof -
      have "set (msr_data (take n ss ! i)) \<subseteq> pages_of (take n ss)"
        using nth_mem [OF that] unfolding pages_of_def by blast
      then show ?thesis using disj s(2) by blast
    qed
    then have "wf_sensors m1 (take n ss @ [s])" using wf1 s(1) by (simp add: wf_sensors_snoc)
    moreover have "take (Suc n) (ss[n := s]) = take n ss @ [s]" using n by (rule take_Suc_update)
    moreover have "\<forall>p. p \<notin> pages_of (take n ss) \<union> set (msr_data s) \<longrightarrow> m1 p = m0 p"
      using works(5) out by auto
    moreover have "\<forall>p \<in> pages_of (take n ss) \<union> set (msr_data s). m0 p = None"
      using new m0 s(2) by auto
    ultimately show ?thesis using inv n by (simp add: init_inv_def)
  qed
  show "r = - ENOMEM \<and> wf_sensors m1 (take n (ss[n := s]))
      \<and> pages_of (take n ss) \<inter> (set (msr_data s) - {0}) = {}
      \<and> (\<forall>p. p \<notin> pages_of (take n ss) \<longrightarrow> m1 p = (if p \<in> set (msr_data s) - {0} then Some init_page else m0 p))
      \<and> (\<forall>p \<in> set (msr_data s) - {0}. m0 p = None)" if "r < 0"
    using works(1,4,5) that wf1 disj out m0 by simp
qed

text \<open>Where a failure at sensor \<open>i\<close> leaves heap and array.\<close>

definition init_failed :: "page_heap \<Rightarrow> nat \<Rightarrow> lunix_sensor_struct list \<Rightarrow> page_heap \<Rightarrow> bool" where
  "init_failed m0 i ss m \<longleftrightarrow> wf_sensors m (take i ss)
     \<and> pages_of (take i ss) \<inter> (set (msr_data (ss ! i)) - {0}) = {}
     \<and> (\<forall>p. p \<notin> pages_of (take i ss) \<longrightarrow> m p = (if p \<in> set (msr_data (ss ! i)) - {0} then Some init_page else m0 p))
     \<and> (\<forall>p \<in> pages_of (take i ss) \<union> (set (msr_data (ss ! i)) - {0}). m0 p = None)"

text \<open>The whole loop from sensor \<open>n\<close> on.\<close>

lemma init_sensors_loop:
  "init_inv m0 n ss m \<Longrightarrow> fresh_pages gzp \<Longrightarrow> n + k = length ss \<Longrightarrow>
    init_sensors gzp [n..<n + k] r0 (int n - 1) ss (m, c) = (failed, r, si, ss1, (m1, c1)) \<Longrightarrow>
    length ss1 = length ss \<and>
    (if failed then r = - ENOMEM \<and> (\<exists>i < length ss. si = int i - 1 \<and> init_failed m0 i ss1 m1)
     else si = int (length ss) - 1 \<and> init_inv m0 (length ss) ss1 m1)"
proof (induction k arbitrary: n ss m c r0)
  case 0
  then show ?case by auto
next
  case (Suc k)
  have upt: "[n..<n + Suc k] = n # [Suc n..<Suc n + k]" by (simp add: upt_rec)
  have n: "n < length ss" using Suc.prems(3) by simp
  obtain r' s m' c' where run: "lunix_sensor_init gzp (ss ! n) (m, c) = (r', s, (m', c'))"
    by (metis prod_cases3 surj_pair)
  have r': "r' = 0 \<or> r' = - ENOMEM"
    by (rule lunix_sensor_init_works(1) [OF Suc.prems(2) init_inv_null [OF Suc.prems(1)] run])
  show ?case
  proof (cases "r' = 0")
    case True
    have inv: "init_inv m0 (Suc n) (ss[n := s]) m'"
      by (rule init_inv_step(1) [OF Suc.prems(1) n Suc.prems(2) run True])
    have rest: "init_sensors gzp [Suc n..<Suc n + k] r' (int (Suc n) - 1) (ss[n := s]) (m', c') =
        (failed, r, si, ss1, (m1, c1))"
      using Suc.prems(4) upt run True by simp
    show ?thesis
      using Suc.IH [OF inv Suc.prems(2) _ rest] Suc.prems(3) by (simp cong: if_cong)
  next
    case False
    then have neg: "r' < 0" using r' by auto
    then have res: "failed" "r = r'" "si = int n - 1" "ss1 = ss[n := s]" "m1 = m'"
      using Suc.prems(4) upt run by simp_all
    have "\<forall>p \<in> pages_of (take n ss). m0 p = None" using Suc.prems(1) by (simp add: init_inv_def)
    then show ?thesis
      using init_inv_step(2) [OF Suc.prems(1) n Suc.prems(2) run neg] n
      by (auto simp: res init_failed_def intro!: exI [of _ n])
  qed
qed

text \<open>Destroying the first \<open>n\<close> sensors frees exactly their pages.\<close>

lemma destroy_sensors_eq:
  "wf_sensors m (take n ss) \<Longrightarrow> n \<le> length ss \<Longrightarrow>
    destroy_sensors n ss m = Some (\<lambda>p. if p \<in> pages_of (take n ss) then None else m p)"
proof (induction n arbitrary: m)
  case 0
  then show ?case by simp
next
  case (Suc n)
  have snoc: "take (Suc n) ss = take n ss @ [ss ! n]" using Suc.prems(2) by (simp add: take_Suc_conv_app_nth)
  let ?A = "set (msr_data (ss ! n))"
  let ?m = "\<lambda>p. if p \<in> ?A then None else m p"
  have wf: "wf_sensors m (take n ss)" "wf_sensor m (ss ! n)"
    and disj: "\<And>i. i < length (take n ss) \<Longrightarrow> set (msr_data (take n ss ! i)) \<inter> ?A = {}"
    using Suc.prems(1) unfolding snoc wf_sensors_snoc by blast+
  have d: "lunix_sensor_destroy (ss ! n) m = Some ?m" by (rule wf_sensor_destroy [OF wf(2)])
  have "wf_sensors ?m (take n ss)"
  proof -
    have "wf_sensor ?m (take n ss ! i)" if i: "i < length (take n ss)" for i
      by (rule wf_sensor_cong [OF wf_sensors_nth [OF wf(1) i]]) (use disj [OF i] in auto)
    then show ?thesis using wf_sensors_disjoint [OF wf(1)] by (simp add: wf_sensors_def)
  qed
  then have "destroy_sensors n ss ?m = Some (\<lambda>p. if p \<in> pages_of (take n ss) then None else ?m p)"
    using Suc.prems(2) by (intro Suc.IH) simp_all
  then show ?case using d by (auto simp: snoc fun_eq_iff)
qed

lemma destroy_initialized:
  assumes "init_inv m0 (length ss) ss m"
  shows "destroy_sensors (length ss) ss m = Some m0"
proof -
  have "destroy_sensors (length ss) ss m = Some (\<lambda>p. if p \<in> pages_of (take (length ss) ss) then None else m p)"
    using assms by (intro destroy_sensors_eq) (simp_all add: init_inv_def)
  also have "(\<lambda>p. if p \<in> pages_of (take (length ss) ss) then None else m p) = m0"
    using assms by (auto simp: init_inv_def fun_eq_iff)
  finally show ?thesis .
qed

lemma destroy_failed:
  assumes "init_failed m0 i ss m" "i < length ss"
  shows "destroy_sensors i ss m =
    Some (\<lambda>p. if p \<in> set (msr_data (ss ! i)) - {0} then Some init_page else m0 p)"
proof -
  have "destroy_sensors i ss m = Some (\<lambda>p. if p \<in> pages_of (take i ss) then None else m p)"
    using assms by (intro destroy_sensors_eq) (simp_all add: init_failed_def)
  also have "(\<lambda>p. if p \<in> pages_of (take i ss) then None else m p) =
      (\<lambda>p. if p \<in> set (msr_data (ss ! i)) - {0} then Some init_page else m0 p)"
  proof (rule ext)
    fix p
    show "(if p \<in> pages_of (take i ss) then None else m p) =
        (if p \<in> set (msr_data (ss ! i)) - {0} then Some init_page else m0 p)"
      using assms(1) unfolding init_failed_def by (cases "p \<in> pages_of (take i ss)") auto
  qed
  finally show ?thesis .
qed

text \<open>The driver before it is loaded.\<close>

definition unloaded :: "lunix_module \<Rightarrow> bool" where
  "unloaded M \<longleftrightarrow> \<not> sensors_live M \<and> sensors (world (driver M)) = [] \<and> attached (driver M) = []
     \<and> \<not> ldisc_registered (driver M) \<and> region (registry M) = None \<and> \<not> cdev_live (registry M)"

text \<open>What the module relies on: the kernel's calls return 0 or an error, pages are fresh, and no
  array of a negative number of sensors is ever allocated.\<close>

definition sane_kernel :: "kernel_answers \<Rightarrow> bool" where
  "sane_kernel K \<longleftrightarrow> fresh_pages (zeroed_pages K) \<and> (\<forall>n. kzalloc_ok K n \<longrightarrow> 0 \<le> n)
     \<and> ldisc_answer K \<le> 0 \<and> region_answer K \<le> 0 \<and> cdev_answer K \<le> 0"

text \<open>The sensor loop as the module runs it.\<close>

definition sensor_loop ::
  "kernel_answers \<Rightarrow> lunix_module \<Rightarrow> bool \<times> int \<times> int \<times> lunix_sensor_struct list \<times> alloc_state"
where
  "sensor_loop K M = init_sensors (zeroed_pages K) [0..<nat (lunix_sensor_cnt (world (driver M)))] (- ENOMEM) (-1)
     (replicate (nat (lunix_sensor_cnt (world (driver M)))) zeroed_sensor) (pages (world (driver M)), page_calls M)"

lemma sensor_loop_cases:
  assumes "sane_kernel K" "pages (world (driver M)) 0 = None"
    and "sensor_loop K M = (failed, r, si, ss, (m, n))"
  shows "length ss = nat (lunix_sensor_cnt (world (driver M)))"
    and "failed \<Longrightarrow> r = - ENOMEM \<and> (\<exists>i < length ss. si = int i - 1 \<and> init_failed (pages (world (driver M))) i ss m)"
    and "\<not> failed \<Longrightarrow> si = int (length ss) - 1 \<and> init_inv (pages (world (driver M))) (length ss) ss m"
proof -
  let ?N = "nat (lunix_sensor_cnt (world (driver M)))" and ?m0 = "pages (world (driver M))"
  have inv: "init_inv ?m0 0 (replicate ?N zeroed_sensor) ?m0" using assms(2) by (simp add: init_inv_def)
  have fresh: "fresh_pages (zeroed_pages K)" using assms(1) by (simp add: sane_kernel_def)
  have run: "init_sensors (zeroed_pages K) [0..<0 + ?N] (- ENOMEM) (int 0 - 1) (replicate ?N zeroed_sensor)
      (?m0, page_calls M) = (failed, r, si, ss, (m, n))"
    using assms(3) by (simp add: sensor_loop_def)
  note loop = init_sensors_loop [OF inv fresh _ run, simplified]
  show "length ss = ?N" using loop by blast
  with loop show "failed \<Longrightarrow> r = - ENOMEM \<and> (\<exists>i < length ss. si = int i - 1 \<and> init_failed ?m0 i ss m)"
    "\<not> failed \<Longrightarrow> si = int (length ss) - 1 \<and> init_inv ?m0 (length ss) ss m"
    by simp_all
qed

text \<open>The three ways out of the sensor loop.\<close>

lemma module_init_alloc_fails:
  "\<not> kzalloc_ok K (lunix_sensor_cnt (world (driver M))) \<Longrightarrow> lunix_module_init K M = Some (- ENOMEM, M)"
  by (simp add: lunix_module_init_def Let_def)

lemma module_init_sensor_fails:
  assumes sane: "sane_kernel K" and null: "pages (world (driver M)) 0 = None"
    and alloc: "kzalloc_ok K (lunix_sensor_cnt (world (driver M)))"
    and loop: "sensor_loop K M = (True, r, si, ss, (m, n))"
  obtains M1 where "lunix_module_init K M = Some (- ENOMEM, M1)" "r = - ENOMEM"
    "nat (si + 1) < length ss"
    "pages (world (driver M1)) = (\<lambda>p. if p \<in> set (msr_data (ss ! nat (si + 1))) - {0} then Some init_page
       else pages (world (driver M)) p)"
    "registry M1 = registry M" "\<not> sensors_live M1" "sensors (world (driver M1)) = []"
    "ldisc_registered (driver M1) = ldisc_registered (driver M)" "attached (driver M1) = attached (driver M)"
proof -
  obtain i where i: "i < length ss" "si = int i - 1" "init_failed (pages (world (driver M))) i ss m" "r = - ENOMEM"
    using sensor_loop_cases(2) [OF sane null loop] by auto
  have si: "nat (si + 1) = i" using i(2) by simp
  note d = destroy_failed [OF i(3,1)]
  show thesis
    using that i(1,4) alloc loop d
    by (simp add: lunix_module_init_def Let_def out_with_sensors_def sensor_loop_def si)
qed

text \<open>What is in memory once the sensors are up, and the two later stages.\<close>

definition with_sensors :: "lunix_module \<Rightarrow> lunix_sensor_struct list \<Rightarrow> page_heap \<Rightarrow> nat \<Rightarrow> lunix_module" where
  "with_sensors M ss m n = M\<lparr>driver := (driver M)\<lparr>lunix_protocol_state :=
       lunix_protocol_init (lunix_protocol_state (driver M)),
       world := (world (driver M))\<lparr>sensors := ss, pages := m\<rparr>\<rparr>, sensors_live := True, page_calls := n\<rparr>"

lemma module_init_after_sensors:
  assumes "sensor_loop K M = (False, r0, si, ss, (m, n))" "kzalloc_ok K (lunix_sensor_cnt (world (driver M)))"
    and "lunix_module_init K M = Some (r, M1)"
  defines "M0 \<equiv> with_sensors M ss m n"
  obtains (ldisc) "ldisc_answer K < 0" "r = ldisc_answer K"
      "out_with_sensors si (M0\<lparr>driver := snd (lunix_ldisc_init (ldisc_answer K) (driver M0))\<rparr>) = Some M1"
  | (chrdev) reg where "0 \<le> ldisc_answer K" "r < 0"
      "lunix_chrdev_init (region_answer K) (cdev_answer K) (lunix_sensor_cnt (world (driver M))) (registry M) = (r, reg)"
      "out_with_sensors si (M0\<lparr>registry := reg,
         driver := lunix_ldisc_destroy (snd (lunix_ldisc_init (ldisc_answer K) (driver M0)))\<rparr>) = Some M1"
  | (ready) r1 reg where "0 \<le> ldisc_answer K" "r = 0" "0 \<le> r1"
      "lunix_chrdev_init (region_answer K) (cdev_answer K) (lunix_sensor_cnt (world (driver M))) (registry M) = (r1, reg)"
      "M1 = M0\<lparr>driver := snd (lunix_ldisc_init (ldisc_answer K) (driver M0)), registry := reg\<rparr>"
proof -
  obtain r1 reg where c: "lunix_chrdev_init (region_answer K) (cdev_answer K)
      (lunix_sensor_cnt (world (driver M))) (registry M) = (r1, reg)" by fastforce
  note loop = assms(1) [unfolded sensor_loop_def]
  show thesis
  proof (cases "ldisc_answer K < 0")
    case True
    then show thesis
      using assms(2,3) loop
      by (intro ldisc) (auto simp: lunix_module_init_def Let_def M0_def with_sensors_def
          lunix_ldisc_init_def bind_Some_iff)
  next
    case False
    show thesis
    proof (cases "r1 < 0")
      case True
      then show thesis
        using False assms(2,3) loop c
        by (intro chrdev) (auto simp: lunix_module_init_def Let_def M0_def with_sensors_def
            lunix_ldisc_init_def bind_Some_iff)
    next
      case up: False
      then show thesis
        using False assms(2,3) loop c
        by (intro ready) (auto simp: lunix_module_init_def Let_def M0_def with_sensors_def
            lunix_ldisc_init_def)
    qed
  qed
qed

lemma out_with_sensors_restores:
  assumes inv: "init_inv m0 (length ss) ss (pages (world (driver M)))" "sensors (world (driver M)) = ss"
    and out: "out_with_sensors (int (length ss) - 1) M = Some M1"
  shows "pages (world (driver M1)) = m0" "sensors (world (driver M1)) = []" "\<not> sensors_live M1"
    "registry M1 = registry M" "ldisc_registered (driver M1) = ldisc_registered (driver M)"
    "attached (driver M1) = attached (driver M)"
  using out destroy_initialized [OF inv(1)] inv(2)
  by (auto simp: out_with_sensors_def Let_def)

lemma chrdev_init_answers:
  assumes "lunix_chrdev_init reg add cnt r0 = (r, r1)" "reg \<le> 0" "add \<le> 0"
    "region r0 = None" "\<not> cdev_live r0"
  shows "r \<le> 0" "r < 0 \<Longrightarrow> r1 = r0" "r = 0 \<Longrightarrow> region r1 = Some (lunix_minor_cnt cnt) \<and> cdev_live r1"
  using assms by (cases r0; auto simp: lunix_chrdev_init_def Let_def split: if_splits)+

section \<open>Properties\<close>

text \<open>A successful init in detail: every sensor has been initialized, and the driver has the discipline
  and the devices registered.\<close>

lemma module_init_success:
  assumes "sane_kernel K" "unloaded M" "pages (world (driver M)) 0 = None" "lunix_module_init K M = Some (0, M1)"
  obtains ss m n reg where
    "init_inv (pages (world (driver M))) (length ss) ss m" "int (length ss) = lunix_sensor_cnt (world (driver M))"
    "M1 = (with_sensors M ss m n)\<lparr>driver := snd (lunix_ldisc_init 0 (driver (with_sensors M ss m n))), registry := reg\<rparr>"
    "cdev_live reg" "region reg = Some (lunix_minor_cnt (lunix_sensor_cnt (world (driver M))))"
proof -
  have alloc: "kzalloc_ok K (lunix_sensor_cnt (world (driver M)))"
  proof (rule ccontr)
    assume "\<not> kzalloc_ok K (lunix_sensor_cnt (world (driver M)))"
    from module_init_alloc_fails [OF this] assms(4) show False by simp
  qed
  then have cnt: "0 \<le> lunix_sensor_cnt (world (driver M))" using assms(1) by (simp add: sane_kernel_def)
  obtain failed r0 si ss m n where loop: "sensor_loop K M = (failed, r0, si, ss, (m, n))"
    by (metis surj_pair)
  have "\<not> failed"
  proof
    assume failed
    with loop have "sensor_loop K M = (True, r0, si, ss, (m, n))" by simp
    from module_init_sensor_fails [OF assms(1,3) alloc this] assms(4) show False by (metis option.inject prod.inject zero_neq_neg_numeral)
  qed
  with loop have loop': "sensor_loop K M = (False, r0, si, ss, (m, n))" by simp
  note sl = sensor_loop_cases [OF assms(1,3) loop']
  have inv: "init_inv (pages (world (driver M))) (length ss) ss m" using sl(3) by simp
  let ?M0 = "with_sensors M ss m n"
  obtain reg where reg: "lunix_chrdev_init (region_answer K) (cdev_answer K) (lunix_sensor_cnt (world (driver M))) (registry M) = (0, reg)"
    and M1: "M1 = ?M0\<lparr>driver := snd (lunix_ldisc_init (ldisc_answer K) (driver ?M0)), registry := reg\<rparr>"
    and ld: "ldisc_answer K = 0"
  proof (rule module_init_after_sensors [OF loop' alloc assms(4)])
    fix r1 reg
    assume a: "0 \<le> ldisc_answer K" "0 \<le> r1" "lunix_chrdev_init (region_answer K) (cdev_answer K)
        (lunix_sensor_cnt (world (driver M))) (registry M) = (r1, reg)"
      "M1 = ?M0\<lparr>driver := snd (lunix_ldisc_init (ldisc_answer K) (driver ?M0)), registry := reg\<rparr>"
    have "r1 \<le> 0"
      using chrdev_init_answers(1) [OF a(3)] assms(1,2) by (simp add: sane_kernel_def unloaded_def)
    moreover have "ldisc_answer K \<le> 0" using assms(1) by (simp add: sane_kernel_def)
    ultimately show thesis using that a by simp
  qed auto
  have "cdev_live reg" "region reg = Some (lunix_minor_cnt (lunix_sensor_cnt (world (driver M))))"
    using chrdev_init_answers(3) [OF reg] assms(1,2) by (simp_all add: sane_kernel_def unloaded_def)
  then show thesis using that [OF inv _ M1 [unfolded ld]] sl(1) cnt by simp
qed

text \<open>Loading and unloading. When \<open>lunix_module_init\<close> returns 0, every sensor is
  initialized on pages of its own, the receiver is idle, the line discipline is registered with its
  counter at 1 and the device is live; and unloading then gives back every page and every
  registration.\<close>

theorem load_then_unload:
  assumes "sane_kernel K" "unloaded M" "pages (world (driver M)) 0 = None"
    and "length (packet (lunix_protocol_state (driver M))) = MAX_PACKET_LEN"
    and "lunix_module_init K M = Some (0, M1)"
  shows "ldisc_inv (driver M1) \<and> phase (lunix_protocol_state (driver M1)) = SEEKING_START_BYTE
    \<and> int (length (sensors (world (driver M1)))) = lunix_sensor_cnt (world (driver M1))
    \<and> ldisc_registered (driver M1) \<and> cdev_live (registry M1)
    \<and> (\<exists>M2. lunix_module_cleanup M1 = Some M2 \<and> unloaded M2
         \<and> pages (world (driver M2)) = pages (world (driver M)))"
proof -
  obtain ss m n reg where inv: "init_inv (pages (world (driver M))) (length ss) ss m"
    and cnt: "int (length ss) = lunix_sensor_cnt (world (driver M))" and live: "cdev_live reg"
    and M1: "M1 = (with_sensors M ss m n)\<lparr>driver := snd (lunix_ldisc_init 0 (driver (with_sensors M ss m n))), registry := reg\<rparr>"
    by (rule module_init_success [OF assms(1-3,5)])
  have d1: "world (driver M1) = (world (driver M))\<lparr>sensors := ss, pages := m\<rparr>"
    "lunix_protocol_state (driver M1) = lunix_protocol_init (lunix_protocol_state (driver M))"
    "attached (driver M1) = []" "lunix_disc_available (driver M1) = 1" "ldisc_registered (driver M1)"
    "registry M1 = reg"
    using assms(2) by (simp_all add: M1 with_sensors_def lunix_ldisc_init_def unloaded_def)
  have ready: "ldisc_inv (driver M1)"
    using inv cnt proto_init_inv [OF assms(4)]
    by (simp add: ldisc_inv_def d1 disc.balanced_def wf_world_def init_inv_def)
  let ?M = "M1\<lparr>registry := lunix_chrdev_destroy (registry M1), driver := lunix_ldisc_destroy (driver M1)\<rparr>"
  have inv': "init_inv (pages (world (driver M))) (length ss) ss (pages (world (driver ?M)))"
    "sensors (world (driver ?M)) = ss"
    using inv by (simp_all add: lunix_ldisc_destroy_def d1)
  obtain M2 where out: "out_with_sensors (int (length ss) - 1) ?M = Some M2"
    using destroy_initialized [OF inv'(1)] inv'(2) by (simp add: out_with_sensors_def Let_def)
  then have "lunix_module_cleanup M1 = Some M2"
    by (simp add: lunix_module_cleanup_def Let_def lunix_ldisc_destroy_def d1 cnt [symmetric])
  moreover have "unloaded M2" "pages (world (driver M2)) = pages (world (driver M))"
    using out_with_sensors_restores [OF inv' out]
    by (simp_all add: unloaded_def lunix_ldisc_destroy_def lunix_chrdev_destroy_def d1)
  ultimately show ?thesis
    using ready live cnt by (auto simp: d1 lunix_protocol_init_def)
qed

text \<open>A kernel with \<open>k\<close> pages whose registrations succeed, and an unloaded driver for two sensors.\<close>

definition small_kernel :: "nat \<Rightarrow> kernel_answers" where
  "small_kernel k = \<lparr>kzalloc_ok = (\<lambda>n. 0 \<le> n), zeroed_pages = counted_pages k, ldisc_answer = 0,
     region_answer = 0, cdev_answer = 0\<rparr>"

definition blank_module :: lunix_module where
  "blank_module = \<lparr>driver = \<lparr>lunix_disc_available = 0, lunix_protocol_state = blank_state,
     world = \<lparr>sensors = [], lunix_sensor_cnt = 2, pages = Map.empty, runnable = []\<rparr>, attached = [],
     receive_room = (\<lambda>_. 0), ldisc_registered = False\<rparr>, registry = \<lparr>region = None, cdev_live = False\<rparr>,
     sensors_live = False, page_calls = 0\<rparr>"

lemma small_kernel_sane: "sane_kernel (small_kernel k)"
  by (simp add: sane_kernel_def small_kernel_def counted_pages_fresh)

lemma blank_module_unloaded:
  "unloaded blank_module" "pages (world (driver blank_module)) 0 = None"
  "length (packet (lunix_protocol_state (driver blank_module))) = MAX_PACKET_LEN"
  by (simp_all add: unloaded_def blank_module_def blank_state_def)

lemma load_then_unload_witness:
  "\<exists>M1 M2. lunix_module_init (small_kernel 6) blank_module = Some (0, M1) \<and> ldisc_inv (driver M1)
    \<and> lunix_module_cleanup M1 = Some M2 \<and> pages (world (driver M2)) = Map.empty"
proof -
  have upt: "[0..<2 :: nat] = [0, 1]" by (simp add: upt_rec)
  obtain r si ss m n where loop: "sensor_loop (small_kernel 6) blank_module = (False, r, si, ss, (m, n))"
    by (simp add: sensor_loop_def small_kernel_def blank_module_def upt sensor_init_unfold counted_pages_def Let_def)
  have "\<exists>M1. lunix_module_init (small_kernel 6) blank_module = Some (0, M1)"
    using loop by (simp add: lunix_module_init_def sensor_loop_def Let_def small_kernel_def blank_module_def
        lunix_ldisc_init_def lunix_chrdev_init_def)
  then obtain M1 where i: "lunix_module_init (small_kernel 6) blank_module = Some (0, M1)" ..
  from load_then_unload [OF small_kernel_sane blank_module_unloaded i] i show ?thesis
    by (auto simp: blank_module_def)
qed

text \<open>Every failure behind the sensors takes everything back.\<close>

lemma failed_after_sensors:
  assumes "sane_kernel K" "unloaded M" "pages (world (driver M)) 0 = None"
    and "kzalloc_ok K (lunix_sensor_cnt (world (driver M)))" "sensor_loop K M = (False, r0, si, ss, (m, n))"
    and "lunix_module_init K M = Some (r, M1)" "r \<noteq> 0"
  shows "pages (world (driver M1)) = pages (world (driver M)) \<and> unloaded M1
    \<and> r \<in> {ldisc_answer K, region_answer K, cdev_answer K}"
proof -
  have inv: "init_inv (pages (world (driver M))) (length ss) ss m" and si: "si = int (length ss) - 1"
    using sensor_loop_cases(3) [OF assms(1,3,5)] by simp_all
  note un = assms(2) [unfolded unloaded_def]
  let ?M0 = "with_sensors M ss m n"
  show ?thesis
  proof (rule module_init_after_sensors [OF assms(5,4,6)])
    assume a: "ldisc_answer K < 0" "r = ldisc_answer K"
      and out: "out_with_sensors si (?M0\<lparr>driver := snd (lunix_ldisc_init (ldisc_answer K) (driver ?M0))\<rparr>) = Some M1"
    let ?M = "?M0\<lparr>driver := snd (lunix_ldisc_init (ldisc_answer K) (driver ?M0))\<rparr>"
    have i: "init_inv (pages (world (driver M))) (length ss) ss (pages (world (driver ?M)))"
      "sensors (world (driver ?M)) = ss"
      using inv by (simp_all add: with_sensors_def lunix_ldisc_init_def)
    from out_with_sensors_restores [OF i out [unfolded si]] un a show ?thesis
      by (simp add: unloaded_def with_sensors_def lunix_ldisc_init_def)
  next
    fix reg
    assume a: "0 \<le> ldisc_answer K" "r < 0" and c: "lunix_chrdev_init (region_answer K) (cdev_answer K)
        (lunix_sensor_cnt (world (driver M))) (registry M) = (r, reg)"
      and out: "out_with_sensors si (?M0\<lparr>registry := reg,
         driver := lunix_ldisc_destroy (snd (lunix_ldisc_init (ldisc_answer K) (driver ?M0)))\<rparr>) = Some M1"
    let ?M = "?M0\<lparr>registry := reg, driver := lunix_ldisc_destroy (snd (lunix_ldisc_init (ldisc_answer K) (driver ?M0)))\<rparr>"
    have i: "init_inv (pages (world (driver M))) (length ss) ss (pages (world (driver ?M)))"
      "sensors (world (driver ?M)) = ss"
      using inv by (simp_all add: with_sensors_def lunix_ldisc_init_def lunix_ldisc_destroy_def)
    have "reg = registry M"
      using chrdev_init_answers(2) [OF c] a(2) assms(1) un by (simp add: sane_kernel_def)
    moreover have "r \<in> {region_answer K, cdev_answer K}"
      using c a(2) by (auto simp: lunix_chrdev_init_def Let_def split: if_splits)
    ultimately show ?thesis
      using out_with_sensors_restores [OF i out [unfolded si]] un
      by (auto simp: unloaded_def with_sensors_def lunix_ldisc_init_def lunix_ldisc_destroy_def)
  qed (use assms(7) in simp)
qed

text \<open>A failed load leaves nothing behind, when it is not a sensor that fails: if the
  array, the line discipline or the device cannot be had, the error of that step is returned, all
  pages are free again and nothing stays registered.\<close>

theorem failed_load_restores:
  assumes "sane_kernel K" "unloaded M" "pages (world (driver M)) 0 = None"
    and "\<not> fst (sensor_loop K M)"
    and "lunix_module_init K M = Some (r, M1)" "r \<noteq> 0"
  shows "pages (world (driver M1)) = pages (world (driver M)) \<and> unloaded M1
    \<and> r \<in> {- ENOMEM, ldisc_answer K, region_answer K, cdev_answer K}"
proof (cases "kzalloc_ok K (lunix_sensor_cnt (world (driver M)))")
  case False
  then show ?thesis using module_init_alloc_fails [OF False] assms(2,5) by simp
next
  case True
  obtain r0 si ss m n where "sensor_loop K M = (False, r0, si, ss, (m, n))"
    using assms(4) by (cases "sensor_loop K M") auto
  from failed_after_sensors [OF assms(1-3) True this assms(5,6)] show ?thesis by blast
qed

lemma failed_load_restores_witness:
  "\<exists>M1. lunix_module_init ((small_kernel 6)\<lparr>cdev_answer := - EBUSY\<rparr>) blank_module = Some (- EBUSY, M1)
    \<and> pages (world (driver M1)) = Map.empty \<and> unloaded M1"
proof -
  let ?K = "(small_kernel 6)\<lparr>cdev_answer := - EBUSY\<rparr>"
  have upt: "[0..<2 :: nat] = [0, 1]" by (simp add: upt_rec)
  have sane: "sane_kernel ?K" using small_kernel_sane [of 6] by (simp add: sane_kernel_def)
  obtain r si ss m n where loop: "sensor_loop ?K blank_module = (False, r, si, ss, (m, n))"
    by (simp add: sensor_loop_def small_kernel_def blank_module_def upt sensor_init_unfold counted_pages_def Let_def)
  have inv: "init_inv Map.empty (length ss) ss m" "si = int (length ss) - 1"
    using sensor_loop_cases(3) [OF sane blank_module_unloaded(2) loop] by (simp_all add: blank_module_def)
  have "\<exists>M1. lunix_module_init ?K blank_module = Some (- EBUSY, M1)"
    using loop destroy_initialized [OF inv(1)] inv(2)
    by (simp add: lunix_module_init_def sensor_loop_def Let_def small_kernel_def blank_module_def
        lunix_ldisc_init_def lunix_chrdev_init_def lunix_ldisc_destroy_def out_with_sensors_def)
  then obtain M1 where i: "lunix_module_init ?K blank_module = Some (- EBUSY, M1)" ..
  from failed_load_restores [OF sane blank_module_unloaded(1,2) _ i] loop i show ?thesis
    by (auto simp: blank_module_def)
qed

text \<open>A page leak. When the sensor after the last initialized one fails half-way, the module
  init returns -ENOMEM and frees the sensors before it, but the pages that sensor had already got
  stay allocated: \<open>lunix_sensor_init\<close> does not free them and the clean-up loop starts one
  sensor too early.\<close>

theorem half_initialized_sensor_leaks:
  assumes "sane_kernel K" "pages (world (driver M)) 0 = None"
    and "kzalloc_ok K (lunix_sensor_cnt (world (driver M)))"
    and "sensor_loop K M = (True, r, si, ss, (m, n))"
  shows "\<exists>M1. lunix_module_init K M = Some (- ENOMEM, M1) \<and> sensors (world (driver M1)) = []
    \<and> pages (world (driver M1)) = (\<lambda>p. if p \<in> set (msr_data (ss ! nat (si + 1))) - {0} then Some init_page
         else pages (world (driver M)) p)"
  by (rule module_init_sensor_fails [OF assms]) blast

lemma half_initialized_sensor_leaks_witness:
  "\<exists>M1. lunix_module_init (small_kernel 4) blank_module = Some (- ENOMEM, M1)
    \<and> sensors (world (driver M1)) = [] \<and> dom (pages (world (driver M1))) = {4}"
proof -
  have upt: "[0..<2 :: nat] = [0, 1]" by (simp add: upt_rec)
  have four: "{4, 0} - {0 :: addr} = {4}" by auto
  obtain r m n ss where loop: "sensor_loop (small_kernel 4) blank_module = (True, r, 0, ss, (m, n))"
    and leaked: "set (msr_data (ss ! 1)) - {0} = {4}"
    by (simp add: sensor_loop_def small_kernel_def blank_module_def upt sensor_init_unfold counted_pages_def
        Let_def zeroed_sensor_def four)
  have "kzalloc_ok (small_kernel 4) (lunix_sensor_cnt (world (driver blank_module)))"
    by (simp add: small_kernel_def blank_module_def)
  from half_initialized_sensor_leaks [OF small_kernel_sane blank_module_unloaded(2) this loop] leaked
  show ?thesis by (fastforce simp: blank_module_def dom_def)
qed

end
