(* ===== verification/ChrdevRead.thy ===== *)
theory ChrdevRead
  imports Chrdev
begin

text \<open>
  \<open>lunix_chrdev_read\<close> with several readers of one open file: the call as a small machine per
  process, cut where it can block or be preempted, and the interleavings of these machines, of the
  reports that arrive and of signals as a step relation.
\<close>

section \<open>The semaphore\<close>

definition down_trylock :: "nat \<Rightarrow> nat option" where
  "down_trylock c = (case c of 0 \<Rightarrow> None | Suc n \<Rightarrow> Some n)"

definition up_sem :: "nat \<Rightarrow> nat" where
  "up_sem c = Suc c"

interpretation sem: token_counter down_trylock up_sem "\<lambda>c. c" "\<lambda>_. True"
  by unfold_locales (auto simp: down_trylock_def up_sem_def split: nat.splits)

section \<open>The machine of one call\<close>

text \<open>
  Where a process is inside \<open>lunix_chrdev_read\<close>, with its copy of the file position (the
  kernel copies it before the call and stores it back after) and its \<open>cnt\<close>:
  before the first \<open>down_interruptible\<close>, at the condition of the \<open>while\<close>, in
  \<open>wait_event_interruptible\<close> before testing and asleep, before the second
  \<open>down_interruptible\<close>, before the copying part, at the label \<open>out\<close>, returned.
\<close>

datatype read_pc =
    Idle
  | Entering u64 u64
  | Refreshing u64 u64
  | Waiting u64 u64
  | Asleep u64 u64
  | Relocking u64 u64
  | Copying u64 u64
  | Out int u64 string
  | Returned int u64 string

text \<open>One open file, its file position, the processes in its read call, and the sensors.\<close>

record read_sys =
  chrdev :: lunix_chrdev_state_struct
  file_pos :: u64
  pcs :: "pid \<Rightarrow> read_pc"
  sys :: lunix_world

definition goto_pc :: "pid \<Rightarrow> read_pc \<Rightarrow> read_sys \<Rightarrow> read_sys" where
  "goto_pc p pc s = s\<lparr>pcs := (pcs s)(p := pc)\<rparr>"

definition up_lock :: "read_sys \<Rightarrow> read_sys" where
  "up_lock s = s\<lparr>chrdev := (chrdev s)\<lparr>lock := up_sem (lock (chrdev s))\<rparr>\<rparr>"

definition set_lock :: "nat \<Rightarrow> read_sys \<Rightarrow> read_sys" where
  "set_lock l s = s\<lparr>chrdev := (chrdev s)\<lparr>lock := l\<rparr>\<rparr>"

text \<open>The wait queue of the sensor behind the file.\<close>

definition the_wq :: "read_sys \<Rightarrow> pid list" where
  "the_wq s = wq (sensors (sys s) ! sensor (chrdev s))"

definition set_wq_at :: "nat \<Rightarrow> pid list \<Rightarrow> read_sys \<Rightarrow> read_sys" where
  "set_wq_at j q s = s\<lparr>sys := (sys s)\<lparr>sensors := (sensors (sys s))[j := (sensors (sys s) ! j)\<lparr>wq := q\<rparr>]\<rparr>\<rparr>"

definition set_wq :: "pid list \<Rightarrow> read_sys \<Rightarrow> read_sys" where
  "set_wq q s = set_wq_at (sensor (chrdev s)) q s"

text \<open>
  The steps of process \<open>p\<close>. \<open>intr\<close> allows signals: a sleeping \<open>down_interruptible\<close> then returns -EINTR and
  a sleeping \<open>wait_event_interruptible\<close> -ERESTARTSYS. The result of the second
  \<open>down_interruptible\<close> is compared with -ERESTARTSYS, so that -EINTR goes on to the loop
  condition. An Oops has no step.
\<close>

inductive read_call :: "lookup_tables \<Rightarrow> bool \<Rightarrow> pid \<Rightarrow> read_sys \<Rightarrow> read_sys \<Rightarrow> bool" for lookup intr p where
  call: "pcs s p = Idle \<Longrightarrow> unat cnt < 2 ^ 63 \<Longrightarrow>
    read_call lookup intr p s (goto_pc p (Entering (file_pos s) cnt) s)"
| down: "pcs s p = Entering off cnt \<Longrightarrow> down_trylock (lock (chrdev s)) = Some l \<Longrightarrow>
    read_call lookup intr p s
      (goto_pc p (if off = 0 then Refreshing off cnt else Copying off cnt) (set_lock l s))"
| down_intr: "intr \<Longrightarrow> pcs s p = Entering off cnt \<Longrightarrow> down_trylock (lock (chrdev s)) = None \<Longrightarrow>
    read_call lookup intr p s (goto_pc p (Returned (- ERESTARTSYS) off []) s)"
| refreshed: "pcs s p = Refreshing off cnt \<Longrightarrow>
    lunix_chrdev_state_update lookup (sys s) (chrdev s) = Some (r, st) \<Longrightarrow> r \<noteq> - EAGAIN \<Longrightarrow>
    read_call lookup intr p s (goto_pc p (Copying off cnt) (s\<lparr>chrdev := st\<rparr>))"
| stale: "pcs s p = Refreshing off cnt \<Longrightarrow>
    lunix_chrdev_state_update lookup (sys s) (chrdev s) = Some (- EAGAIN, st) \<Longrightarrow>
    read_call lookup intr p s (goto_pc p (Waiting off cnt) (up_lock (s\<lparr>chrdev := st\<rparr>)))"
| ready: "pcs s p = Waiting off cnt \<Longrightarrow>
    lunix_chrdev_state_needs_refresh (sys s) (chrdev s) = Some True \<Longrightarrow>
    read_call lookup intr p s (goto_pc p (Relocking off cnt) s)"
| sleep: "pcs s p = Waiting off cnt \<Longrightarrow>
    lunix_chrdev_state_needs_refresh (sys s) (chrdev s) = Some False \<Longrightarrow>
    read_call lookup intr p s (goto_pc p (Asleep off cnt) (set_wq (p # the_wq s) s))"
| wake: "pcs s p = Asleep off cnt \<Longrightarrow> p \<notin> set (the_wq s) \<Longrightarrow>
    read_call lookup intr p s (goto_pc p (Waiting off cnt) s)"
| wait_intr: "intr \<Longrightarrow> pcs s p = Asleep off cnt \<Longrightarrow>
    read_call lookup intr p s
      (goto_pc p (Out (- ERESTARTSYS) off []) (set_wq (filter (\<lambda>q. q \<noteq> p) (the_wq s)) s))"
| redown: "pcs s p = Relocking off cnt \<Longrightarrow> down_trylock (lock (chrdev s)) = Some l \<Longrightarrow>
    read_call lookup intr p s (goto_pc p (Refreshing off cnt) (set_lock l s))"
| redown_intr: "intr \<Longrightarrow> pcs s p = Relocking off cnt \<Longrightarrow> down_trylock (lock (chrdev s)) = None \<Longrightarrow>
    read_call lookup intr p s
      (goto_pc p (if - EINTR = - ERESTARTSYS then Out (- EINTR) off [] else Refreshing off cnt) s)"
| copy: "pcs s p = Copying off cnt \<Longrightarrow> read_copy bad (chrdev s) off cnt = Some (r, off', bytes) \<Longrightarrow>
    read_call lookup intr p s (goto_pc p (Out r off' bytes) s)"
| out: "pcs s p = Out r off bytes \<Longrightarrow>
    read_call lookup intr p s (goto_pc p (Returned r off bytes) (up_lock s))"
| returns: "pcs s p = Returned r off bytes \<Longrightarrow>
    read_call lookup intr p s (goto_pc p Idle (s\<lparr>file_pos := off\<rparr>))"

text \<open>
  The system around the call: any process makes a step, a report arrives for some sensor, or
  processes that are in no call on this file enter or leave the wait queue of a sensor.
\<close>

inductive read_step :: "lookup_tables \<Rightarrow> bool \<Rightarrow> read_sys \<Rightarrow> read_sys \<Rightarrow> bool" for lookup intr where
  process: "read_call lookup intr p s s' \<Longrightarrow> read_step lookup intr s s'"
| report: "j < length (sensors (sys s)) \<Longrightarrow>
    lunix_sensor_update (sensors (sys s) ! j) b t l now (pages (sys s)) = Some (sn, m, woken) \<Longrightarrow>
    read_step lookup intr s (s\<lparr>sys := (sys s)\<lparr>sensors := (sensors (sys s))[j := sn], pages := m,
      runnable := runnable (sys s) @ woken\<rparr>\<rparr>)"
| others: "j < length (sensors (sys s)) \<Longrightarrow>
    (\<And>p. pcs s p \<noteq> Idle \<Longrightarrow> p \<in> set q \<longleftrightarrow> p \<in> set (wq (sensors (sys s) ! j))) \<Longrightarrow>
    read_step lookup intr s (set_wq_at j q s)"

inductive read_steps :: "lookup_tables \<Rightarrow> bool \<Rightarrow> read_sys \<Rightarrow> read_sys \<Rightarrow> bool" for lookup intr where
  none: "read_steps lookup intr s s"
| more: "read_steps lookup intr s s1 \<Longrightarrow> read_step lookup intr s1 s2 \<Longrightarrow> read_steps lookup intr s s2"

section \<open>Invariants\<close>

fun holding :: "read_pc \<Rightarrow> bool" where
  "holding (Refreshing _ _) = True"
| "holding (Copying _ _) = True"
| "holding (Out _ _ _) = True"
| "holding _ = False"

text \<open>Positions stay within the text, counts are those the kernel lets through.\<close>

fun pc_ok :: "read_pc \<Rightarrow> bool" where
  "pc_ok Idle = True"
| "pc_ok (Entering off cnt) = (unat off \<le> 16 \<and> unat cnt < 2 ^ 63)"
| "pc_ok (Refreshing off cnt) = (unat off \<le> 16 \<and> unat cnt < 2 ^ 63)"
| "pc_ok (Waiting off cnt) = (unat off \<le> 16 \<and> unat cnt < 2 ^ 63)"
| "pc_ok (Asleep off cnt) = (unat off \<le> 16 \<and> unat cnt < 2 ^ 63)"
| "pc_ok (Relocking off cnt) = (unat off \<le> 16 \<and> unat cnt < 2 ^ 63)"
| "pc_ok (Copying off cnt) = (unat off \<le> 16 \<and> unat cnt < 2 ^ 63)"
| "pc_ok (Out r off bytes) = (unat off \<le> 16)"
| "pc_ok (Returned r off bytes) = (unat off \<le> 16)"

definition data_inv :: "read_sys \<Rightarrow> bool" where
  "data_inv s \<longleftrightarrow> wf_world (sys s) \<and> wf_chrdev (sys s) (chrdev s) \<and> unat (file_pos s) \<le> 16
     \<and> (\<forall>p. pc_ok (pcs s p))"

text \<open>Whoever is on the wait queue has been told the truth: there is no news.\<close>

definition sleep_inv :: "read_sys \<Rightarrow> bool" where
  "sleep_inv s \<longleftrightarrow> (\<forall>p off cnt. pcs s p = Asleep off cnt \<longrightarrow> p \<in> set (the_wq s) \<longrightarrow>
     lunix_chrdev_state_needs_refresh (sys s) (chrdev s) = Some False)"

definition lock_inv :: "read_sys \<Rightarrow> bool" where
  "lock_inv s \<longleftrightarrow> (\<exists>hs. sem.balanced 1 (lock (chrdev s)) hs \<and> (\<forall>p. holding (pcs s p) \<longleftrightarrow> p \<in> set hs))"

lemma frame_read_sys [simp]:
  "sys (goto_pc p pc s) = sys s" "chrdev (goto_pc p pc s) = chrdev s" "file_pos (goto_pc p pc s) = file_pos s"
  "pcs (goto_pc p pc s) = (pcs s)(p := pc)"
  "sys (up_lock s) = sys s" "pcs (up_lock s) = pcs s" "file_pos (up_lock s) = file_pos s"
  "chrdev (up_lock s) = (chrdev s)\<lparr>lock := Suc (lock (chrdev s))\<rparr>"
  "sys (set_lock l s) = sys s" "pcs (set_lock l s) = pcs s" "file_pos (set_lock l s) = file_pos s"
  "chrdev (set_lock l s) = (chrdev s)\<lparr>lock := l\<rparr>"
  "chrdev (set_wq_at j q s) = chrdev s" "pcs (set_wq_at j q s) = pcs s" "file_pos (set_wq_at j q s) = file_pos s"
  "chrdev (set_wq q s) = chrdev s" "pcs (set_wq q s) = pcs s" "file_pos (set_wq q s) = file_pos s"
  by (simp_all add: goto_pc_def up_lock_def set_lock_def set_wq_at_def set_wq_def up_sem_def)

lemma the_wq_frame [simp]:
  "the_wq (goto_pc p pc s) = the_wq s" "the_wq (up_lock s) = the_wq s" "the_wq (set_lock l s) = the_wq s"
  by (simp_all add: the_wq_def)

lemma needs_refresh_lock [simp]:
  "lunix_chrdev_state_needs_refresh w (c\<lparr>lock := l\<rparr>) = lunix_chrdev_state_needs_refresh w c"
  by (simp add: lunix_chrdev_state_needs_refresh_def)

lemma wf_chrdev_lock [simp]: "wf_chrdev w (c\<lparr>lock := l\<rparr>) = wf_chrdev w c"
  by (simp add: wf_chrdev_def)

text \<open>A change of the wait queue is invisible to everything else.\<close>

lemma set_wq_at_frame:
  assumes "j < length (sensors (sys s))"
  shows "the_wq (set_wq_at j q s) = (if sensor (chrdev s) = j then q else the_wq s)"
    "wf_world (sys (set_wq_at j q s)) = wf_world (sys s)"
    "wf_chrdev (sys (set_wq_at j q s)) c = wf_chrdev (sys s) c"
    "lunix_chrdev_state_needs_refresh (sys (set_wq_at j q s)) c = lunix_chrdev_state_needs_refresh (sys s) c"
proof -
  let ?ss = "sensors (sys s)"
  let ?ts = "?ss[j := (?ss ! j)\<lparr>wq := q\<rparr>]"
  have same: "msr_data (?ts ! i) = msr_data (?ss ! i)" "wf_sensor m (?ts ! i) = wf_sensor m (?ss ! i)"
    for i m
    using assms by (cases "i = j"; simp add: wf_sensor_def)+
  show "the_wq (set_wq_at j q s) = (if sensor (chrdev s) = j then q else the_wq s)"
    using assms by (simp add: the_wq_def set_wq_at_def)
  show "wf_world (sys (set_wq_at j q s)) = wf_world (sys s)"
    using same by (simp add: wf_world_def wf_sensors_def set_wq_at_def)
  show "wf_chrdev (sys (set_wq_at j q s)) c = wf_chrdev (sys s) c"
    by (simp add: wf_chrdev_def set_wq_at_def)
  show "lunix_chrdev_state_needs_refresh (sys (set_wq_at j q s)) c = lunix_chrdev_state_needs_refresh (sys s) c"
    using same by (simp add: lunix_chrdev_state_needs_refresh_def set_wq_at_def)
qed

lemma set_wq_frame:
  assumes "sensor (chrdev s) < length (sensors (sys s))"
  shows "the_wq (set_wq q s) = q" "wf_world (sys (set_wq q s)) = wf_world (sys s)"
    "wf_chrdev (sys (set_wq q s)) c = wf_chrdev (sys s) c"
    "lunix_chrdev_state_needs_refresh (sys (set_wq q s)) c = lunix_chrdev_state_needs_refresh (sys s) c"
  using set_wq_at_frame [OF assms] by (simp_all add: set_wq_def)

text \<open>A report, seen from the file: the sensors stay well-formed, and either the queue is emptied
  or neither queue nor measurement has changed.\<close>

lemma report_frame:
  assumes inv: "data_inv s" and j: "j < length (sensors (sys s))"
    and upd: "lunix_sensor_update (sensors (sys s) ! j) b t l now (pages (sys s)) = Some (sn, m, woken)"
  defines "w \<equiv> (sys s)\<lparr>sensors := (sensors (sys s))[j := sn], pages := m, runnable := runnable (sys s) @ woken\<rparr>"
  shows "wf_world w" "wf_chrdev w (chrdev s)"
    and "the_wq (s\<lparr>sys := w\<rparr>) = [] \<or> the_wq (s\<lparr>sys := w\<rparr>) = the_wq s \<and>
      lunix_chrdev_state_needs_refresh w (chrdev s) = lunix_chrdev_state_needs_refresh (sys s) (chrdev s)"
proof -
  let ?i = "sensor (chrdev s)" and ?k = "type (chrdev s)"
  have wf: "wf_world (sys s)" and wc: "wf_chrdev (sys s) (chrdev s)" using inv by (simp_all add: data_inv_def)
  then have i: "?i < length (sensors (sys s))" by (simp add: wf_chrdev_def)
  have all: "sensor_store.all_good (pages (sys s)) (sensors (sys s))"
    using wf by (simp add: wf_world_def wf_sensors_all_good)
  have r: "sensor_store.all_good m ((sensors (sys s))[j := sn])" "wq sn = []"
    "\<And>n k. n < length (sensors (sys s)) \<Longrightarrow> n \<noteq> j \<Longrightarrow>
      sensor_peek m ((sensors (sys s))[j := sn] ! n) k = sensor_peek (pages (sys s)) (sensors (sys s) ! n) k"
    by (rule sensor_store.update_nth [OF all j, of b t l now]; use upd in simp)+
  show wf': "wf_world w" using r(1) wf by (simp add: w_def wf_world_def wf_sensors_all_good)
  show wc': "wf_chrdev w (chrdev s)" using wc by (simp add: w_def wf_chrdev_def)
  show "the_wq (s\<lparr>sys := w\<rparr>) = [] \<or> the_wq (s\<lparr>sys := w\<rparr>) = the_wq s \<and>
      lunix_chrdev_state_needs_refresh w (chrdev s) = lunix_chrdev_state_needs_refresh (sys s) (chrdev s)"
  proof (cases "?i = j")
    case True
    then show ?thesis using r(2) i by (simp add: the_wq_def w_def)
  next
    case False
    obtain v u where peek: "sensor_peek (pages (sys s)) (sensors (sys s) ! ?i) ?k = Some (v, u)"
      by (rule wf_world_peek [OF wf i, of ?k]) blast
    then have "sensor_peek (pages w) (sensors w ! ?i) ?k = Some (v, u)"
      using r(3) [OF i False] by (simp add: w_def)
    then have "lunix_chrdev_state_needs_refresh w (chrdev s) = lunix_chrdev_state_needs_refresh (sys s) (chrdev s)"
      using needs_refresh_peek [OF wf i peek] needs_refresh_peek [OF wf', of "chrdev s" v u] i
      by (simp add: w_def)
    moreover have "the_wq (s\<lparr>sys := w\<rparr>) = the_wq s" using False by (simp add: the_wq_def w_def)
    ultimately show ?thesis by blast
  qed
qed

section \<open>Preservation\<close>

lemma read_copy_position:
  assumes wf: "wf_chrdev w st" and ok: "unat off \<le> 16" "unat cnt < 2 ^ 63"
    and run: "read_copy bad st off cnt = Some (r, off', bytes)"
  shows "unat off' \<le> 16"
proof (cases "nat (buf_lim st) < unat off")
  case True
  then show ?thesis using read_copy_past [OF wf True _ ok(2), of bad] ok(1) run by simp
next
  case False
  then have le: "unat off \<le> nat (buf_lim st)" by simp
  let ?n = "min (unat cnt) (nat (buf_lim st) - unat off)"
  have "nat (buf_lim st) \<le> 16" using wf unfolding wf_chrdev_def by linarith
  then have "unat off + ?n \<le> 16" using le by simp
  moreover from this have "unat (off + of_nat ?n) = unat off + ?n"
    by (subst unat_add_u64) (simp_all add: unat_small_u64)
  ultimately show ?thesis
    using read_copy_inside [OF wf le ok(2), of bad] run ok(1) by (auto split: if_splits)
qed

text \<open>The refresh as the readers use it.\<close>

lemma refresh_cases:
  assumes "data_inv s"
  obtains (stale) "lunix_chrdev_state_update lookup (sys s) (chrdev s) = Some (- EAGAIN, chrdev s)"
      "lunix_chrdev_state_needs_refresh (sys s) (chrdev s) = Some False"
  | (fresh) st where "lunix_chrdev_state_update lookup (sys s) (chrdev s) = Some (0, st)"
      "wf_chrdev (sys s) st" "lock st = lock (chrdev s)" "sensor st = sensor (chrdev s)"
      "type st = type (chrdev s)"
      "lunix_chrdev_state_needs_refresh (sys s) (chrdev s) = Some True"
      "lunix_chrdev_state_needs_refresh (sys s) st = Some False"
proof -
  have wf: "wf_world (sys s)" "wf_chrdev (sys s) (chrdev s)" using assms by (simp_all add: data_inv_def)
  then have i: "sensor (chrdev s) < length (sensors (sys s))" by (simp add: wf_chrdev_def)
  obtain v t where peek: "sensor_peek (pages (sys s)) (sensors (sys s) ! sensor (chrdev s)) (type (chrdev s)) = Some (v, t)"
    by (rule wf_world_peek [OF wf(1) i, of "type (chrdev s)"]) blast
  note nr = needs_refresh_peek [OF wf(1) i peek]
  show thesis
  proof (rule state_update_works [OF wf peek, of lookup])
    assume "\<not> buf_timestamp (chrdev s) < t"
      "lunix_chrdev_state_update lookup (sys s) (chrdev s) = Some (- EAGAIN, chrdev s)"
    then show thesis using stale nr by simp
  next
    fix st
    assume st: "buf_timestamp (chrdev s) < t" "lunix_chrdev_state_update lookup (sys s) (chrdev s) = Some (0, st)"
      "wf_chrdev (sys s) st" "buf_timestamp st = t" "lock st = lock (chrdev s)"
      "sensor st = sensor (chrdev s)" "type st = type (chrdev s)"
    have "lunix_chrdev_state_needs_refresh (sys s) st = Some (buf_timestamp st < t)"
      using needs_refresh_peek [OF wf(1), of st v t] i peek st(6,7) by simp
    then show thesis using fresh [of st] st nr by simp
  qed
qed

lemma data_inv_goto:
  "data_inv s \<Longrightarrow> pc_ok pc \<Longrightarrow> data_inv (goto_pc p pc s)"
  by (simp add: data_inv_def)

lemma data_inv_lock [simp]: "data_inv (up_lock s) = data_inv s" "data_inv (set_lock l s) = data_inv s"
  by (simp_all add: data_inv_def)

lemma data_inv_set_wq: "data_inv s \<Longrightarrow> data_inv (set_wq q s)"
proof -
  assume inv: "data_inv s"
  then have "sensor (chrdev s) < length (sensors (sys s))" by (simp add: data_inv_def wf_chrdev_def)
  then show ?thesis using inv by (simp add: data_inv_def set_wq_frame)
qed

lemma data_inv_pc: "data_inv s \<Longrightarrow> pcs s p = pc \<Longrightarrow> pc_ok pc"
  by (auto simp: data_inv_def)

lemma read_call_data:
  assumes step: "read_call lookup intr p s s'" and inv: "data_inv s"
  shows "data_inv s'"
  using step
proof cases
  case (call cnt)
  then show ?thesis using inv by (auto intro!: data_inv_goto) (simp add: data_inv_def)
next
  case (refreshed off cnt r st)
  have "data_inv (s\<lparr>chrdev := st\<rparr>)"
    by (rule refresh_cases [OF inv, of lookup]) (use refreshed inv in \<open>auto simp: data_inv_def\<close>)
  then show ?thesis using refreshed data_inv_pc [OF inv refreshed(2)] by (auto intro!: data_inv_goto)
next
  case (stale off cnt st)
  have "st = chrdev s" by (rule refresh_cases [OF inv, of lookup]) (use stale in auto)
  then show ?thesis using stale data_inv_pc [OF inv stale(2)] inv by (auto intro!: data_inv_goto)
next
  case (copy off cnt bad r off' bytes)
  have "unat off' \<le> 16"
    by (rule read_copy_position [OF _ _ _ copy(3)])
      (use inv data_inv_pc [OF inv copy(2)] in \<open>auto simp: data_inv_def\<close>)
  then show ?thesis using copy inv by (auto intro!: data_inv_goto)
next
  case (returns r off bytes)
  then show ?thesis using inv data_inv_pc [OF inv returns(2)] by (simp add: data_inv_def)
qed (use inv in \<open>auto dest!: data_inv_pc [OF inv] intro!: data_inv_goto data_inv_set_wq\<close>)

lemma read_step_data:
  assumes step: "read_step lookup intr s s'" and inv: "data_inv s"
  shows "data_inv s'"
  using step
proof cases
  case (process p)
  then show ?thesis using read_call_data inv by blast
next
  case (report j b t l now sn m woken)
  then show ?thesis using report_frame [OF inv report(2,3)] inv by (simp add: data_inv_def)
next
  case (others j q)
  then show ?thesis using inv by (simp add: data_inv_def set_wq_at_frame)
qed

lemma sleep_inv_goto:
  assumes "sleep_inv s" "\<And>off cnt. pc \<noteq> Asleep off cnt"
  shows "sleep_inv (goto_pc p pc s)"
  using assms by (simp add: sleep_inv_def)

lemma sleep_inv_lock [simp]: "sleep_inv (up_lock s) = sleep_inv s" "sleep_inv (set_lock l s) = sleep_inv s"
  by (simp_all add: sleep_inv_def)

lemma sleep_inv_report:
  assumes "sleep_inv s" "the_wq (s\<lparr>sys := w\<rparr>) = [] \<or> the_wq (s\<lparr>sys := w\<rparr>) = the_wq s \<and>
      lunix_chrdev_state_needs_refresh w (chrdev s) = lunix_chrdev_state_needs_refresh (sys s) (chrdev s)"
  shows "sleep_inv (s\<lparr>sys := w\<rparr>)"
  using assms(2)
proof
  assume "the_wq (s\<lparr>sys := w\<rparr>) = []"
  then show ?thesis by (simp add: sleep_inv_def)
next
  assume same: "the_wq (s\<lparr>sys := w\<rparr>) = the_wq s \<and>
      lunix_chrdev_state_needs_refresh w (chrdev s) = lunix_chrdev_state_needs_refresh (sys s) (chrdev s)"
  then show ?thesis using assms(1) by (simp add: sleep_inv_def)
qed

lemma read_call_sleep:
  assumes step: "read_call lookup intr p s s'" and data: "data_inv s" and inv: "sleep_inv s"
  shows "sleep_inv s'"
  using step
proof cases
  case (refreshed off cnt r st)
  have "lunix_chrdev_state_needs_refresh (sys s) st = Some False"
    by (rule refresh_cases [OF data, of lookup]) (use refreshed in auto)
  then have "sleep_inv (s\<lparr>chrdev := st\<rparr>)" by (simp add: sleep_inv_def)
  then show ?thesis using refreshed by (simp add: sleep_inv_goto)
next
  case (stale off cnt st)
  have "st = chrdev s" by (rule refresh_cases [OF data, of lookup]) (use stale in auto)
  then show ?thesis using stale inv by (simp add: sleep_inv_goto)
next
  case (sleep off cnt)
  have i: "sensor (chrdev s) < length (sensors (sys s))" using data by (simp add: data_inv_def wf_chrdev_def)
  then show ?thesis using sleep by (simp add: sleep_inv_def set_wq_frame)
next
  case (wait_intr off cnt)
  have i: "sensor (chrdev s) < length (sensors (sys s))" using data by (simp add: data_inv_def wf_chrdev_def)
  have "sleep_inv (set_wq (filter (\<lambda>q. q \<noteq> p) (the_wq s)) s)"
    using inv i by (auto simp: sleep_inv_def set_wq_frame)
  then show ?thesis using wait_intr by (simp add: sleep_inv_goto)
next
  case (returns r off bytes)
  have "sleep_inv (s\<lparr>file_pos := off\<rparr>)" using inv by (simp add: sleep_inv_def the_wq_def)
  then show ?thesis using returns by (simp add: sleep_inv_goto)
qed (use inv in \<open>auto intro!: sleep_inv_goto\<close>)

lemma read_step_sleep:
  assumes step: "read_step lookup intr s s'" and data: "data_inv s" and inv: "sleep_inv s"
  shows "sleep_inv s'"
  using step
proof cases
  case (process p)
  then show ?thesis using read_call_sleep data inv by blast
next
  case (report j b t l now sn m woken)
  show ?thesis
    unfolding report(1)
    by (rule sleep_inv_report [OF inv report_frame(3) [OF data report(2,3)]])
next
  case (others j q)
  have "p \<in> set (the_wq s)" if "pcs s p = Asleep off cnt" "p \<in> set (the_wq (set_wq_at j q s))" for p off cnt
    using that others(3) [of p] set_wq_at_frame(1) [OF others(2)] by (auto simp: the_wq_def split: if_splits)
  moreover have "lunix_chrdev_state_needs_refresh (sys s') (chrdev s') = lunix_chrdev_state_needs_refresh (sys s) (chrdev s)"
    "pcs s' = pcs s"
    using others(1,2) by (simp_all add: set_wq_at_frame)
  ultimately show ?thesis using inv unfolding sleep_inv_def others(1) by metis
qed

lemma lock_invI:
  "sem.balanced 1 (lock (chrdev s)) hs \<Longrightarrow> (\<And>p. holding (pcs s p) \<longleftrightarrow> p \<in> set hs) \<Longrightarrow> lock_inv s"
  unfolding lock_inv_def by blast

lemma lock_invE:
  assumes "lock_inv s"
  obtains hs where "sem.balanced 1 (lock (chrdev s)) hs" "\<And>p. holding (pcs s p) \<longleftrightarrow> p \<in> set hs"
  using assms unfolding lock_inv_def by blast

lemma lock_inv_take:
  assumes "lock_inv s" "\<not> holding (pcs s p)" "down_trylock (lock (chrdev s)) = Some l" "holding pc"
  shows "lock_inv (goto_pc p pc (set_lock l s))"
proof -
  obtain hs where hs: "sem.balanced 1 (lock (chrdev s)) hs" "\<And>q. holding (pcs s q) \<longleftrightarrow> q \<in> set hs"
    using assms(1) by (rule lock_invE) blast
  have "sem.balanced 1 l (p # hs)" using hs(1) assms(3) by (rule sem.take_balanced)
  then show ?thesis by (intro lock_invI [of _ "p # hs"]) (simp_all add: hs(2) assms(4))
qed

lemma lock_inv_give:
  assumes "lock_inv s" "holding (pcs s p)" "\<not> holding pc"
  shows "lock_inv (goto_pc p pc (up_lock s))"
proof -
  obtain hs where hs: "sem.balanced 1 (lock (chrdev s)) hs" "\<And>q. holding (pcs s q) \<longleftrightarrow> q \<in> set hs"
    using assms(1) by (rule lock_invE) blast
  have p: "p \<in> set hs" using hs(2) assms(2) by blast
  moreover have "length hs \<le> 1" using hs(1) by (rule sem.one_holder)
  ultimately have one: "hs = [p]" by (cases hs) auto
  have "sem.balanced 1 (up_sem (lock (chrdev s))) (remove1 p hs)" using hs(1) p by (rule sem.give_balanced)
  then show ?thesis
    by (intro lock_invI [of _ "[]"]) (simp_all add: hs(2) assms(3) one up_sem_def)
qed

lemma lock_inv_move:
  assumes "lock_inv s" "holding pc = holding (pcs s p)"
  shows "lock_inv (goto_pc p pc s)"
proof -
  obtain hs where hs: "sem.balanced 1 (lock (chrdev s)) hs" "\<And>q. holding (pcs s q) \<longleftrightarrow> q \<in> set hs"
    using assms(1) by (rule lock_invE) blast
  show ?thesis by (rule lock_invI [of _ hs]) (use hs(1) in \<open>simp_all add: hs(2) assms(2)\<close>)
qed

lemma lock_inv_cong:
  "lock_inv s \<Longrightarrow> lock (chrdev s') = lock (chrdev s) \<Longrightarrow> pcs s' = pcs s \<Longrightarrow> lock_inv s'"
  by (simp add: lock_inv_def)

lemma read_call_lock:
  assumes step: "read_call lookup False p s s'" and data: "data_inv s" and inv: "lock_inv s"
  shows "lock_inv s'"
  using step
proof cases
  case (refreshed off cnt r st)
  have "lock st = lock (chrdev s)"
    by (rule refresh_cases [OF data, of lookup]) (use refreshed in auto)
  then have "lock_inv (s\<lparr>chrdev := st\<rparr>)" by (intro lock_inv_cong [OF inv]) simp_all
  then show ?thesis using refreshed by (simp add: lock_inv_move)
next
  case (stale off cnt st)
  have "st = chrdev s" by (rule refresh_cases [OF data, of lookup]) (use stale in auto)
  then show ?thesis using stale inv by (simp add: lock_inv_give)
next
  case (sleep off cnt)
  have "lock_inv (set_wq (p # the_wq s) s)" by (rule lock_inv_cong [OF inv]) simp_all
  then show ?thesis using sleep by (simp add: lock_inv_move)
next
  case (returns r off bytes)
  have "lock_inv (s\<lparr>file_pos := off\<rparr>)" by (rule lock_inv_cong [OF inv]) simp_all
  then show ?thesis using returns by (simp add: lock_inv_move)
qed (use inv in \<open>auto simp: lock_inv_take lock_inv_give lock_inv_move\<close>)

lemma read_step_lock:
  assumes step: "read_step lookup False s s'" and data: "data_inv s" and inv: "lock_inv s"
  shows "lock_inv s'"
  using step
proof cases
  case (process p)
  then show ?thesis using read_call_lock data inv by blast
next
  case (report j b t l now sn m woken)
  then show ?thesis by (simp add: lock_inv_cong [OF inv])
next
  case (others j q)
  then show ?thesis by (simp add: lock_inv_cong [OF inv])
qed

text \<open>The start: a file just opened, nobody reading.\<close>

definition just_opened :: "lunix_world \<Rightarrow> lunix_chrdev_state_struct \<Rightarrow> read_sys" where
  "just_opened w st = \<lparr>chrdev = st, file_pos = 0, pcs = (\<lambda>_. Idle), sys = w\<rparr>"

lemma just_opened_inv:
  assumes "wf_world w" "wf_chrdev w st" "lock st = 1"
  shows "data_inv (just_opened w st)" "sleep_inv (just_opened w st)" "lock_inv (just_opened w st)"
  using assms by (auto simp: data_inv_def sleep_inv_def lock_inv_def just_opened_def sem.balanced_def
      intro!: exI [of _ "[]"])

lemma read_steps_inv:
  "read_steps lookup intr s s' \<Longrightarrow> data_inv s \<Longrightarrow> sleep_inv s \<Longrightarrow> data_inv s' \<and> sleep_inv s'"
  by (induction rule: read_steps.induct) (auto intro: read_step_data read_step_sleep)

lemma read_steps_lock:
  "read_steps lookup False s s' \<Longrightarrow> data_inv s \<Longrightarrow> lock_inv s \<Longrightarrow> data_inv s' \<and> lock_inv s'"
  by (induction rule: read_steps.induct) (auto intro: read_step_data read_step_lock)

section \<open>Properties\<close>

fun in_section :: "read_pc \<Rightarrow> bool" where
  "in_section (Refreshing _ _) = True"
| "in_section (Copying _ _) = True"
| "in_section _ = False"

lemma in_section_holding: "in_section pc \<Longrightarrow> holding pc"
  by (cases pc) simp_all

lemma lock_inv_section:
  assumes "lock_inv s" "in_section (pcs s p)" "in_section (pcs s q)"
  shows "p = q" "lock (chrdev s) = 0"
proof -
  obtain hs where hs: "sem.balanced 1 (lock (chrdev s)) hs" "\<And>x. holding (pcs s x) \<longleftrightarrow> x \<in> set hs"
    using assms(1) by (rule lock_invE) blast
  have "p \<in> set hs" "q \<in> set hs" using hs(2) in_section_holding assms(2,3) by blast+
  moreover have "length hs \<le> 1" using hs(1) by (rule sem.one_holder)
  ultimately have "hs = [p]" "q = p" by (cases hs; auto)+
  then show "p = q" "lock (chrdev s) = 0" using hs(1) by (simp_all add: sem.balanced_def)
qed

text \<open>C10: mutual exclusion. As long as no signal interrupts a wait, in every interleaving of any
  number of readers of one open file with the reports that arrive, at most one process is in the
  part of \<open>read\<close> that refreshes or copies the cached text, and the semaphore is taken then.\<close>

theorem readers_exclusive:
  assumes "wf_world w" "wf_chrdev w st" "lock st = 1"
    and "read_steps lookup False (just_opened w st) s"
    and "in_section (pcs s p)" "in_section (pcs s q)"
  shows "p = q \<and> lock (chrdev s) = 0"
proof -
  have "lock_inv s"
    using read_steps_lock [OF assms(4)] just_opened_inv [OF assms(1-3)] by simp
  from lock_inv_section [OF this assms(5,6)] show ?thesis by simp
qed

text \<open>The way to the semaphore, and from there to the wait queue when there is no news.\<close>

definition entered :: "pid \<Rightarrow> u64 \<Rightarrow> read_sys \<Rightarrow> read_sys" where
  "entered p cnt s = goto_pc p (Refreshing 0 cnt) (set_lock (lock (chrdev s) - 1) (goto_pc p (Entering 0 cnt) s))"

definition put_to_sleep :: "pid \<Rightarrow> u64 \<Rightarrow> read_sys \<Rightarrow> read_sys" where
  "put_to_sleep p cnt s =
     (let s = goto_pc p (Waiting 0 cnt) (up_lock s) in goto_pc p (Asleep 0 cnt) (set_wq (p # the_wq s) s))"

text \<open>The steps of one process, one after the other.\<close>

lemma three_steps: "R a b \<Longrightarrow> R b c \<Longrightarrow> R c d \<Longrightarrow> R\<^sup>*\<^sup>* a d"
  by (meson rtranclp.rtrancl_refl rtranclp.rtrancl_into_rtrancl)

lemma read_steps_calls:
  "(read_call lookup intr p)\<^sup>*\<^sup>* s s' \<Longrightarrow> read_steps lookup intr s0 s \<Longrightarrow> read_steps lookup intr s0 s'"
  by (induction rule: rtranclp_induct) (auto intro: more process)

lemma calls_entered:
  assumes idle: "pcs s p = Idle" "unat cnt < 2 ^ 63" and pos: "file_pos s = 0" and l: "0 < lock (chrdev s)"
  shows "(read_call lookup intr p)\<^sup>*\<^sup>* s (entered p cnt s)"
proof -
  let ?s1 = "goto_pc p (Entering 0 cnt) s"
  have "read_call lookup intr p s ?s1"
    using call [of s p cnt lookup intr] idle pos by simp
  moreover have "down_trylock (lock (chrdev ?s1)) = Some (lock (chrdev s) - 1)"
    using l by (cases "lock (chrdev s)") (simp_all add: down_trylock_def)
  then have "read_call lookup intr p ?s1 (entered p cnt s)"
    using down [of ?s1 p 0 cnt "lock (chrdev s) - 1" lookup intr] by (simp add: entered_def)
  ultimately show ?thesis by (meson rtranclp.rtrancl_refl rtranclp.rtrancl_into_rtrancl)
qed

lemma calls_put_to_sleep:
  assumes pc: "pcs s p = Refreshing 0 cnt"
    and old: "lunix_chrdev_state_needs_refresh (sys s) (chrdev s) = Some False"
  shows "(read_call lookup intr p)\<^sup>*\<^sup>* s (put_to_sleep p cnt s)"
proof -
  let ?s1 = "goto_pc p (Waiting 0 cnt) (up_lock s)"
  have "lunix_chrdev_state_update lookup (sys s) (chrdev s) = Some (- EAGAIN, chrdev s)"
    using old by (simp add: lunix_chrdev_state_update_def)
  then have "read_call lookup intr p s (goto_pc p (Waiting 0 cnt) (up_lock (s\<lparr>chrdev := chrdev s\<rparr>)))"
    by (rule stale [OF pc])
  then have "read_call lookup intr p s ?s1" by simp
  moreover have "read_call lookup intr p ?s1 (put_to_sleep p cnt s)"
    unfolding put_to_sleep_def Let_def by (rule sleep) (use old in simp_all)
  ultimately show ?thesis by (meson rtranclp.rtrancl_refl rtranclp.rtrancl_into_rtrancl)
qed

lemma run_entered:
  "read_steps lookup intr s0 s \<Longrightarrow> pcs s p = Idle \<Longrightarrow> unat cnt < 2 ^ 63 \<Longrightarrow> file_pos s = 0 \<Longrightarrow>
    0 < lock (chrdev s) \<Longrightarrow> read_steps lookup intr s0 (entered p cnt s)"
  using read_steps_calls [OF calls_entered] .

lemma run_put_to_sleep:
  "read_steps lookup intr s0 s \<Longrightarrow> pcs s p = Refreshing 0 cnt \<Longrightarrow>
    lunix_chrdev_state_needs_refresh (sys s) (chrdev s) = Some False \<Longrightarrow>
    read_steps lookup intr s0 (put_to_sleep p cnt s)"
  using read_steps_calls [OF calls_put_to_sleep] .

lemma just_opened_simps [simp]:
  "pcs (just_opened w st) p = Idle" "file_pos (just_opened w st) = 0" "sys (just_opened w st) = w"
  "chrdev (just_opened w st) = st"
  by (simp_all add: just_opened_def)

lemma entered_simps [simp]:
  "pcs (entered p cnt s) = (pcs s)(p := Refreshing 0 cnt)" "file_pos (entered p cnt s) = file_pos s"
  "sys (entered p cnt s) = sys s" "chrdev (entered p cnt s) = (chrdev s)\<lparr>lock := lock (chrdev s) - 1\<rparr>"
  by (simp_all add: entered_def)

lemma put_to_sleep_simps [simp]:
  "pcs (put_to_sleep p cnt s) = (pcs s)(p := Asleep 0 cnt)" "file_pos (put_to_sleep p cnt s) = file_pos s"
  "chrdev (put_to_sleep p cnt s) = (chrdev s)\<lparr>lock := Suc (lock (chrdev s))\<rparr>"
  by (simp_all add: put_to_sleep_def Let_def)

lemma put_to_sleep_wq:
  assumes "sensor (chrdev s) < length (sensors (sys s))"
  shows "the_wq (put_to_sleep p cnt s) = p # the_wq s"
proof -
  let ?s = "goto_pc p (Waiting 0 cnt) (up_lock s)"
  have "the_wq (set_wq (p # the_wq ?s) ?s) = p # the_wq ?s" by (rule set_wq_frame) (use assms in simp)
  then show ?thesis by (simp add: put_to_sleep_def Let_def)
qed

lemma entered_wq [simp]: "the_wq (entered p cnt s) = the_wq s"
  by (simp add: entered_def)

lemma readers_exclusive_witness:
  "\<exists>s. read_steps (\<lambda>k v. 7) False (just_opened sample_world sample_chrdev) s
    \<and> in_section (pcs s 0) \<and> lock (chrdev s) = 0 \<and> (\<forall>q. in_section (pcs s q) \<longrightarrow> q = 0)"
proof -
  have l: "lock sample_chrdev = 1" by (simp add: sample_chrdev_def)
  have run: "read_steps (\<lambda>k v. 7) False (just_opened sample_world sample_chrdev)
      (entered 0 9 (just_opened sample_world sample_chrdev))"
    by (rule run_entered [OF none]) (simp_all add: l)
  have "in_section (pcs (entered 0 9 (just_opened sample_world sample_chrdev)) 0)" by simp
  with readers_exclusive [OF sample_world_wf sample_chrdev_wf l run] run show ?thesis by metis
qed

text \<open>C11: no lost wake-up, signals or not. In every reachable state, a process that is asleep while
  the sensor has a measurement newer than the cached one has been taken off the wait queue, so that
  it can run on: its next step leads back to the test of the wait condition.\<close>

theorem no_lost_wakeup:
  assumes "wf_world w" "wf_chrdev w st" "lock st = 1"
    and "read_steps lookup intr (just_opened w st) s"
    and "pcs s p = Asleep off cnt" "lunix_chrdev_state_needs_refresh (sys s) (chrdev s) = Some True"
  shows "p \<notin> set (the_wq s) \<and> read_step lookup intr s (goto_pc p (Waiting off cnt) s)
    \<and> read_step lookup intr (goto_pc p (Waiting off cnt) s) (goto_pc p (Relocking off cnt) (goto_pc p (Waiting off cnt) s))"
proof -
  have "sleep_inv s"
    using read_steps_inv [OF assms(4)] just_opened_inv [OF assms(1-3)] by simp
  then have p: "p \<notin> set (the_wq s)" using assms(5,6) by (auto simp: sleep_inv_def)
  moreover have "read_step lookup intr s (goto_pc p (Waiting off cnt) s)"
    by (rule process [OF wake [OF assms(5) p]])
  moreover have "read_step lookup intr (goto_pc p (Waiting off cnt) s)
      (goto_pc p (Relocking off cnt) (goto_pc p (Waiting off cnt) s))"
    by (rule process [OF ready]) (use assms(6) in simp_all)
  ultimately show ?thesis by blast
qed

text \<open>A reader goes to sleep in the sample world, and a report comes.\<close>

lemma sample_needs_refresh:
  "lunix_chrdev_state_needs_refresh sample_world sample_chrdev = Some False"
  by (simp add: lunix_chrdev_state_needs_refresh_def sample_world_def sample_chrdev_def blank_chrdev_def
      get_last_update_def sample_pages_def init_page_def)

lemma no_lost_wakeup_witness:
  "\<exists>s. read_steps (\<lambda>k v. 7) False (just_opened sample_world sample_chrdev) s \<and> pcs s 3 = Asleep 0 9
    \<and> lunix_chrdev_state_needs_refresh (sys s) (chrdev s) = Some True \<and> 3 \<notin> set (the_wq s)"
proof -
  let ?s0 = "just_opened sample_world sample_chrdev"
  let ?s1 = "put_to_sleep 3 9 (entered 3 9 ?s0)"
  have l: "lock sample_chrdev = 1" by (simp add: sample_chrdev_def)
  have "read_steps (\<lambda>k v. 7) False ?s0 (entered 3 9 ?s0)"
    by (rule run_entered [OF none]) (simp_all add: l)
  then have run1: "read_steps (\<lambda>k v. 7) False ?s0 ?s1"
    by (rule run_put_to_sleep) (simp_all add: sample_needs_refresh)
  have inv0: "data_inv ?s0" "sleep_inv ?s0"
    using just_opened_inv [OF sample_world_wf sample_chrdev_wf l] by simp_all
  then have inv: "data_inv ?s1" using read_steps_inv [OF run1] by simp
  have c: "sensor (chrdev ?s1) = 1" "type (chrdev ?s1) = TEMP" "buf_timestamp (chrdev ?s1) = 0"
    by (simp_all add: sample_chrdev_def blank_chrdev_def)
  have wf: "wf_world (sys ?s1)" "1 < length (sensors (sys ?s1))"
    using inv c by (simp_all add: data_inv_def wf_chrdev_def)
  then have all: "sensor_store.all_good (pages (sys ?s1)) (sensors (sys ?s1))"
    by (simp add: wf_world_def wf_sensors_all_good)
  obtain sn m where upd: "lunix_sensor_update (sensors (sys ?s1) ! 1) 1 2 3 9 (pages (sys ?s1)) =
      Some (sn, m, wq (sensors (sys ?s1) ! 1))"
    and peek: "\<And>k. sensor_peek m ((sensors (sys ?s1))[1 := sn] ! 1) k =
      Some (case k of BATT \<Rightarrow> 1 | TEMP \<Rightarrow> 2 | LIGHT \<Rightarrow> 3, ucast (9 :: u64))"
    by (rule sensor_store.update_nth [OF all wf(2), of 1 2 3 9]) blast
  define w where "w = (sys ?s1)\<lparr>sensors := (sensors (sys ?s1))[1 := sn], pages := m,
      runnable := runnable (sys ?s1) @ wq (sensors (sys ?s1) ! 1)\<rparr>"
  let ?s2 = "?s1\<lparr>sys := w\<rparr>"
  have "read_step (\<lambda>k v. 7) False ?s1 ?s2"
    unfolding w_def using wf(2) upd by (rule read_step.report)
  with run1 have run2: "read_steps (\<lambda>k v. 7) False ?s0 ?s2" by (rule more)
  have "data_inv ?s2" using read_steps_inv [OF run2 inv0] by simp
  then have wf2: "wf_world w" "wf_chrdev w (chrdev ?s2)" by (simp_all add: data_inv_def)
  have asleep: "pcs ?s2 3 = Asleep 0 9" by simp
  have "sensor_peek (pages w) (sensors w ! sensor (chrdev ?s2)) (type (chrdev ?s2)) = Some (2, 9)"
    using peek [of TEMP] c by (simp add: w_def)
  from needs_refresh_peek [OF wf2(1) _ this]
  have news: "lunix_chrdev_state_needs_refresh (sys ?s2) (chrdev ?s2) = Some True"
    using wf2(2) c by (simp add: wf_chrdev_def)
  show ?thesis
    using no_lost_wakeup [OF sample_world_wf sample_chrdev_wf l run2 asleep news] run2 asleep news by blast
qed

text \<open>C36: signals break the mutual exclusion. A reader interrupted in its wait leaves through the
  label \<open>out\<close>, which releases a semaphore it does not hold; from then on two others can be in
  the section together. For every file without news and any three processes, such a run exists.\<close>

theorem interrupted_wait_breaks_exclusion:
  assumes "lunix_chrdev_state_needs_refresh w st = Some False" "lock st = 1" "distinct [p, q, r]"
  shows "\<exists>s. read_steps lookup True (just_opened w st) s \<and> in_section (pcs s q) \<and> in_section (pcs s r)
    \<and> pcs s p = Returned (- ERESTARTSYS) 0 []"
proof -
  let ?s0 = "just_opened w st"
  define s1 where "s1 = put_to_sleep p 9 (entered p 9 ?s0)"
  define s2 where "s2 = goto_pc p (Out (- ERESTARTSYS) 0 []) (set_wq (filter (\<lambda>x. x \<noteq> p) (the_wq s1)) s1)"
  define s3 where "s3 = goto_pc p (Returned (- ERESTARTSYS) 0 []) (up_lock s2)"
  have "read_steps lookup True ?s0 (entered p 9 ?s0)"
    by (rule run_entered [OF none]) (simp_all add: assms(2))
  then have run1: "read_steps lookup True ?s0 s1"
    unfolding s1_def by (rule run_put_to_sleep) (simp_all add: assms(1))
  have "read_step lookup True s1 s2"
    unfolding s2_def by (rule process [OF wait_intr]) (simp_all add: s1_def)
  moreover have "read_step lookup True s2 s3"
    unfolding s3_def by (rule process [OF out]) (simp add: s2_def)
  ultimately have run3: "read_steps lookup True ?s0 s3" using run1 more by blast
  have s3: "pcs s3 = (pcs ?s0)(p := Returned (- ERESTARTSYS) 0 [])" "lock (chrdev s3) = 2" "file_pos s3 = 0"
    by (simp_all add: s3_def s2_def s1_def assms(2) fun_eq_iff)
  have run4: "read_steps lookup True ?s0 (entered q 9 s3)"
    by (rule run_entered [OF run3]) (use s3 assms(3) in auto)
  have run5: "read_steps lookup True ?s0 (entered r 9 (entered q 9 s3))"
    by (rule run_entered [OF run4]) (use s3 assms(3) in auto)
  show ?thesis
    by (rule exI [of _ "entered r 9 (entered q 9 s3)"]) (use run5 s3 assms(3) in auto)
qed

lemma interrupted_wait_breaks_exclusion_witness:
  "\<exists>s. read_steps (\<lambda>k v. 7) True (just_opened sample_world sample_chrdev) s
    \<and> in_section (pcs s 1) \<and> in_section (pcs s 2)"
  using interrupted_wait_breaks_exclusion [OF sample_needs_refresh, of 0 1 2]
  by (fastforce simp: sample_chrdev_def)

text \<open>A reader whose position has been overtaken. The kernel gives every call its own copy of
  the file position; if another reader of the same file finishes the text and a refresh makes it
  shorter than the copy, the remaining length wraps around and the call is -EFAULT, although the
  user's buffer is writable; the position is kept.\<close>

theorem overtaken_reader_faults:
  assumes "data_inv s" "pcs s p = Copying off cnt" "nat (buf_lim (chrdev s)) < unat off"
  shows "read_step lookup intr s (goto_pc p (Out (- EFAULT) off []) s)
    \<and> (\<forall>bad. read_copy bad (chrdev s) off cnt = Some (- EFAULT, off, []))"
proof -
  have ok: "unat off \<le> 16" "unat cnt < 2 ^ 63" using data_inv_pc [OF assms(1,2)] by simp_all
  have wf: "wf_chrdev (sys s) (chrdev s)" using assms(1) by (simp add: data_inv_def)
  have copy: "read_copy bad (chrdev s) off cnt = Some (- EFAULT, off, [])" for bad
    by (rule read_copy_past [OF wf assms(3)]) (use ok in simp_all)
  show ?thesis using process [OF read_call.copy [OF assms(2) copy]] copy by blast
qed

lemma overtaken_reader_faults_witness:
  "read_copy False cached_chrdev 7 9 = Some (- EFAULT, 7, [])"
proof -
  let ?s = "goto_pc 1 (Copying 7 9) (just_opened sample_world cached_chrdev)"
  have "data_inv ?s"
    using cached_chrdev_wf sample_world_wf by (simp add: data_inv_def just_opened_def)
  from overtaken_reader_faults [OF this, of 1 7 9] cached_chrdev_wf(2) show ?thesis by simp
qed

section \<open>A reader with news\<close>

text \<open>From the condition of the loop to the return, when there is something to read.\<close>

lemma finish_read:
  fixes lookup :: lookup_tables
  assumes wf: "wf_world (sys s)" "wf_chrdev (sys s) (chrdev s)"
    and pc: "pcs s p = Refreshing 0 cnt" "16 \<le> unat cnt" "unat cnt < 2 ^ 63"
    and peek: "sensor_peek (pages (sys s)) (sensors (sys s) ! sensor (chrdev s)) (type (chrdev s)) = Some (v, t)"
      "buf_timestamp (chrdev s) < t"
  defines "text \<equiv> reading_text (akeraio_meros (lookup (type (chrdev s)) v)) \<bar>dekadiko_meros (lookup (type (chrdev s)) v)\<bar>"
  obtains s' where "(read_call lookup intr p)\<^sup>*\<^sup>* s s'" "pcs s' p = Returned (int (length text)) 0 text"
    "lock (chrdev s') = Suc (lock (chrdev s))"
proof -
  obtain c where upd: "lunix_chrdev_state_update lookup (sys s) (chrdev s) = Some (0, c)"
    and c: "wf_chrdev (sys s) c" "lock c = lock (chrdev s)" "cached c = text" "buf_lim c = int (length text)"
    by (rule state_update_works [OF wf peek(1), of lookup]) (use peek(2) text_def in simp_all)
  define s1 where "s1 = goto_pc p (Copying 0 cnt) (s\<lparr>chrdev := c\<rparr>)"
  define s2 where "s2 = goto_pc p (Out (int (length text)) 0 text) s1"
  define s3 where "s3 = goto_pc p (Returned (int (length text)) 0 text) (up_lock s2)"
  have "nat (buf_lim c) \<le> 16" using c(1) unfolding wf_chrdev_def by linarith
  then have le: "length text \<le> unat cnt" using pc(2) c(4) by simp
  then have n: "min (unat cnt) (length text) = length text" by simp
  have copied: "read_copy False c 0 cnt = Some (int (length text), 0, text)"
    by (subst read_copy_inside [OF c(1) _ pc(3)]) (simp_all add: c(3,4) n le)
  have "read_call lookup intr p s s1"
    unfolding s1_def by (rule refreshed [where r = 0]) (simp_all add: pc upd)
  moreover have "read_call lookup intr p s1 s2"
    unfolding s2_def by (rule read_call.copy [where bad = False]) (simp add: s1_def, simp add: s1_def, rule copied)
  moreover have "read_call lookup intr p s2 s3"
    unfolding s3_def by (rule out) (simp add: s2_def)
  ultimately have "(read_call lookup intr p)\<^sup>*\<^sup>* s s3" by (rule three_steps)
  then show thesis by (rule that) (simp_all add: s3_def s2_def s1_def c(2))
qed

text \<open>A sleeper that has been taken off the queue goes the whole way.\<close>

lemma woken_reader:
  fixes lookup :: lookup_tables
  assumes inv: "data_inv s" and pc: "pcs s p = Asleep 0 cnt" "p \<notin> set (the_wq s)" "16 \<le> unat cnt"
    and l: "0 < lock (chrdev s)"
    and peek: "sensor_peek (pages (sys s)) (sensors (sys s) ! sensor (chrdev s)) (type (chrdev s)) = Some (v, t)"
      "buf_timestamp (chrdev s) < t"
  defines "text \<equiv> reading_text (akeraio_meros (lookup (type (chrdev s)) v)) \<bar>dekadiko_meros (lookup (type (chrdev s)) v)\<bar>"
  obtains s' where "(read_call lookup intr p)\<^sup>*\<^sup>* s s'" "pcs s' p = Returned (int (length text)) 0 text"
    "lock (chrdev s') = lock (chrdev s)"
proof -
  have wf: "wf_world (sys s)" "wf_chrdev (sys s) (chrdev s)" "sensor (chrdev s) < length (sensors (sys s))"
    and cnt: "unat cnt < 2 ^ 63"
    using inv data_inv_pc [OF inv pc(1)] by (simp_all add: data_inv_def wf_chrdev_def)
  have news: "lunix_chrdev_state_needs_refresh (sys s) (chrdev s) = Some True"
    using needs_refresh_peek [OF wf(1,3) peek(1)] peek(2) by simp
  define s1 where "s1 = goto_pc p (Waiting 0 cnt) s"
  define s2 where "s2 = goto_pc p (Relocking 0 cnt) s1"
  define s3 where "s3 = goto_pc p (Refreshing 0 cnt) (set_lock (lock (chrdev s) - 1) s2)"
  have "read_call lookup intr p s s1" unfolding s1_def by (rule wake [OF pc(1,2)])
  moreover have "read_call lookup intr p s1 s2"
    unfolding s2_def by (rule ready) (simp_all add: s1_def news)
  moreover have "read_call lookup intr p s2 s3"
    unfolding s3_def by (rule redown) (use l in \<open>simp_all add: s2_def s1_def down_trylock_def split: nat.split\<close>)
  ultimately have run: "(read_call lookup intr p)\<^sup>*\<^sup>* s s3" by (rule three_steps)
  have s3: "sys s3 = sys s" "chrdev s3 = (chrdev s)\<lparr>lock := lock (chrdev s) - 1\<rparr>" "pcs s3 p = Refreshing 0 cnt"
    by (simp_all add: s3_def s2_def s1_def)
  obtain s' where "(read_call lookup intr p)\<^sup>*\<^sup>* s3 s'" "pcs s' p = Returned (int (length text)) 0 text"
    "lock (chrdev s') = Suc (lock (chrdev s3))"
    by (rule finish_read [of s3 p cnt v t lookup intr]) (use s3 wf pc(3) cnt peek in \<open>simp_all add: text_def\<close>)
  then show thesis by (intro that [of s'] rtranclp_trans [OF run]) (use s3(2) l in simp_all)
qed

text \<open>A reader gets its measurement. With news on the sensor and the semaphore free, a process
  that asks for at least 16 bytes can run through its call without waiting and returns with the whole
  text of that measurement, its length as result, and the position back at the start.\<close>

theorem read_returns_news:
  fixes cnt :: u64
  assumes "wf_world w" "wf_chrdev w st" "lock st = 1" "16 \<le> unat cnt" "unat cnt < 2 ^ 63"
    and "sensor_peek (pages w) (sensors w ! sensor st) (type st) = Some (v, t)" "buf_timestamp st < t"
    and "text = reading_text (akeraio_meros (lookup (type st) v)) \<bar>dekadiko_meros (lookup (type st) v)\<bar>"
  shows "\<exists>s. read_steps lookup False (just_opened w st) s \<and> lock (chrdev s) = 1
    \<and> pcs s p = Returned (int (length text)) 0 text"
proof -
  let ?s = "entered p cnt (just_opened w st)"
  have run: "read_steps lookup False (just_opened w st) ?s"
    by (rule run_entered [OF none]) (use assms(3,5) in simp_all)
  obtain s where "(read_call lookup False p)\<^sup>*\<^sup>* ?s s" "pcs s p = Returned (int (length text)) 0 text"
    "lock (chrdev s) = 1"
    by (rule finish_read [of ?s p cnt v t lookup False]) (use assms in simp_all)
  then show ?thesis using read_steps_calls [OF _ run] by blast
qed

lemma read_returns_news_witness:
  "\<exists>s. read_steps (\<lambda>k v. 1234) False (just_opened reported_world sample_chrdev) s
    \<and> pcs s 5 = Returned (int (length (reading_text 1 234))) 0 (reading_text 1 234)"
proof -
  have v: "akeraio_meros 1234 = 1" "dekadiko_meros 1234 = 234"
    by (simp_all add: akeraio_meros_def dekadiko_meros_def)
  have l: "lock sample_chrdev = 1" by (simp add: sample_chrdev_def)
  show ?thesis
    using read_returns_news [OF reported_world_wf(1) sample_chrdev_reported(1) l, of 99 "0x1F0" 9 _ "\<lambda>k v. 1234" 5]
      reported_world_wf(3) sample_chrdev_reported v by auto
qed

end
