(* ===== verification/Lunix.thy ===== *)
theory Lunix
  imports Module ChrdevRead
begin

text \<open>
  The driver as a whole: \<open>insmod\<close> and \<open>rmmod\<close>, the TTY layer with the line discipline, any
  number of open files with any number of readers each, interleaved in any order over one set of
  sensors. The steps are the component's own operations; what each open file sees of a step is a step
  of \<open>read_step\<close>, so that the lemmas on one file hold in the whole system.
\<close>

section \<open>State and steps\<close>

text \<open>A \<open>struct file\<close> of a Lunix node: private data, position, and the processes in its calls.\<close>

record open_file =
  priv :: lunix_chrdev_state_struct
  offset :: u64
  calls :: "pid \<Rightarrow> read_pc"

record lunix_system =
  lunix :: lunix_module
  opened :: "nat \<Rightarrow> open_file option"

abbreviation driver_of :: "lunix_system \<Rightarrow> lunix_driver" where "driver_of s \<equiv> driver (lunix s)"
abbreviation world_of :: "lunix_system \<Rightarrow> lunix_world" where "world_of s \<equiv> world (driver (lunix s))"

text \<open>What one open file sees, and the system after a step of a process on file \<open>f\<close>.\<close>

definition view :: "lunix_system \<Rightarrow> open_file \<Rightarrow> read_sys" where
  "view s x = \<lparr>chrdev = priv x, file_pos = offset x, pcs = calls x, sys = world_of s\<rparr>"

definition set_driver :: "lunix_driver \<Rightarrow> lunix_system \<Rightarrow> lunix_system" where
  "set_driver d s = s\<lparr>lunix := (lunix s)\<lparr>driver := d\<rparr>\<rparr>"

definition set_file :: "nat \<Rightarrow> open_file option \<Rightarrow> lunix_system \<Rightarrow> lunix_system" where
  "set_file f x s = s\<lparr>opened := (opened s)(f := x)\<rparr>"

definition put_view :: "nat \<Rightarrow> read_sys \<Rightarrow> lunix_system \<Rightarrow> lunix_system" where
  "put_view f v s = set_file f (Some \<lparr>priv = chrdev v, offset = file_pos v, calls = pcs v\<rparr>)
     (set_driver ((driver_of s)\<lparr>world := sys v\<rparr>) s)"

text \<open>
  A freshly loaded image of the module: the variables with an initializer or a parameter have it, the
  others are zero. Pages and process states are the kernel's.
\<close>

definition zeroed_protocol :: lunix_protocol_state_struct where
  "zeroed_protocol = \<lparr>phase = SEEKING_START_BYTE, bytes_read = 0, bytes_to_read = 0, pos = 0,
     next_is_special = 0, payload_length = 0, packet = replicate MAX_PACKET_LEN 0\<rparr>"

definition load_image :: "int \<Rightarrow> lunix_module \<Rightarrow> lunix_module" where
  "load_image cnt M = M\<lparr>driver := (driver M)\<lparr>lunix_disc_available := 0, lunix_protocol_state := zeroed_protocol,
     world := (world (driver M))\<lparr>lunix_sensor_cnt := cnt, sensors := []\<rparr>\<rparr>\<rparr>"

text \<open>
  The events: loading with the parameter \<open>lunix_sensor_cnt\<close>, unloading, what the TTY layer does,
  the open and release of a file, and a step of a process in its read call. The kernel lets a module go
  only when none of its files is open and no TTY has its discipline (both have \<open>THIS_MODULE\<close> as
  owner), an open reaches the driver only for minors inside the registered range, and a process
  is in one call at a time. \<open>kmalloc\<close> gives memory of the size asked for.
\<close>

datatype lunix_event =
    Insmod int int
  | Rmmod
  | Tty tty_event int
  | Open nat u32 int
  | Release nat int
  | Read nat pid

inductive system_step :: "lookup_tables \<Rightarrow> bool \<Rightarrow> bool \<Rightarrow> lunix_system \<Rightarrow> lunix_event \<Rightarrow> lunix_system \<Rightarrow> bool"
  for lookup intr dbg
where
  insmod: "\<not> sensors_live (lunix s) \<Longrightarrow> sane_kernel K \<Longrightarrow>
    lunix_module_init K (load_image cnt (lunix s)) = Some (r, M) \<Longrightarrow>
    system_step lookup intr dbg s (Insmod cnt r) (s\<lparr>lunix := M\<rparr>)"
| rmmod: "sensors_live (lunix s) \<Longrightarrow> attached (driver_of s) = [] \<Longrightarrow> opened s = Map.empty \<Longrightarrow>
    lunix_module_cleanup (lunix s) = Some M \<Longrightarrow>
    system_step lookup intr dbg s Rmmod (s\<lparr>lunix := M\<rparr>)"
| tty: "ldisc_step dbg (driver_of s) e r d \<Longrightarrow>
    system_step lookup intr dbg s (Tty e r) (set_driver d s)"
| opens: "cdev_live (registry (lunix s)) \<Longrightarrow> region (registry (lunix s)) = Some n \<Longrightarrow> minor < n \<Longrightarrow>
    opened s f = None \<Longrightarrow> (\<And>m. fresh = Some m \<Longrightarrow> length (buf_data m) = LUNIX_CHRDEV_BUFSZ) \<Longrightarrow>
    nonseekable \<le> 0 \<Longrightarrow> lunix_chrdev_open nonseekable fresh minor = (r, pd) \<Longrightarrow>
    system_step lookup intr dbg s (Open f minor r)
      (set_file f (map_option (\<lambda>st. \<lparr>priv = st, offset = 0, calls = (\<lambda>_. Idle)\<rparr>) pd) s)"
| releases: "opened s f = Some x \<Longrightarrow> (\<And>p. calls x p = Idle) \<Longrightarrow>
    lunix_chrdev_release (Some (priv x)) = (r, pd) \<Longrightarrow>
    system_step lookup intr dbg s (Release f r) (set_file f None s)"
| reads: "opened s f = Some x \<Longrightarrow> (\<And>g y. g \<noteq> f \<Longrightarrow> opened s g = Some y \<Longrightarrow> calls y p = Idle) \<Longrightarrow>
    read_call lookup intr p (view s x) v \<Longrightarrow>
    system_step lookup intr dbg s (Read f p) (put_view f v s)"

inductive system_run ::
  "lookup_tables \<Rightarrow> bool \<Rightarrow> bool \<Rightarrow> lunix_system \<Rightarrow> lunix_event list \<Rightarrow> lunix_system \<Rightarrow> bool"
  for lookup intr dbg
where
  stop: "system_run lookup intr dbg s [] s"
| step: "system_step lookup intr dbg s e s1 \<Longrightarrow> system_run lookup intr dbg s1 es s2 \<Longrightarrow>
    system_run lookup intr dbg s (e # es) s2"

inductive_cases system_run_ConsE: "system_run lookup intr dbg s (e # es) s2"
inductive_cases system_run_NilE: "system_run lookup intr dbg s [] s2"

lemma system_run_append:
  "system_run lookup intr dbg s0 es s1 \<Longrightarrow> system_run lookup intr dbg s1 es' s2 \<Longrightarrow>
    system_run lookup intr dbg s0 (es @ es') s2"
  by (induction rule: system_run.induct) (auto intro: system_run.intros)

text \<open>The machine before the driver is ever loaded.\<close>

definition bare_machine :: "lunix_system \<Rightarrow> bool" where
  "bare_machine s \<longleftrightarrow> unloaded (lunix s) \<and> opened s = Map.empty \<and> pages (world_of s) 0 = None"

lemma view_simps [simp]:
  "chrdev (view s x) = priv x" "file_pos (view s x) = offset x" "pcs (view s x) = calls x" "sys (view s x) = world_of s"
  by (simp_all add: view_def)

lemma set_driver_simps [simp]:
  "opened (set_driver d s) = opened s" "lunix (set_driver d s) = (lunix s)\<lparr>driver := d\<rparr>"
  by (simp_all add: set_driver_def)

lemma set_file_simps [simp]:
  "opened (set_file f x s) = (opened s)(f := x)" "lunix (set_file f x s) = lunix s"
  by (simp_all add: set_file_def)

lemma put_view_simps [simp]:
  "opened (put_view f v s) = (opened s)(f := Some \<lparr>priv = chrdev v, offset = file_pos v, calls = pcs v\<rparr>)"
  "lunix (put_view f v s) = (lunix s)\<lparr>driver := (driver_of s)\<lparr>world := sys v\<rparr>\<rparr>"
  by (simp_all add: put_view_def)

lemma view_put_view [simp]: "view (put_view f v s) \<lparr>priv = chrdev v, offset = file_pos v, calls = pcs v\<rparr> = v"
  by (simp add: view_def)

section \<open>What a step does to the sensors\<close>

text \<open>The bytes of a line change nothing, or one sensor by an update.\<close>

definition reported :: "lunix_world \<Rightarrow> lunix_world \<Rightarrow> bool" where
  "reported w w' \<longleftrightarrow> (\<exists>j b t l now sn m woken. j < length (sensors w)
     \<and> lunix_sensor_update (sensors w ! j) b t l now (pages w) = Some (sn, m, woken)
     \<and> w' = w\<lparr>sensors := (sensors w)[j := sn], pages := m, runnable := runnable w @ woken\<rparr>)"

lemma reportedI:
  "j < length (sensors w) \<Longrightarrow>
    lunix_sensor_update (sensors w ! j) b t l now (pages w) = Some (sn, m, woken) \<Longrightarrow>
    w' = w\<lparr>sensors := (sensors w)[j := sn], pages := m, runnable := runnable w @ woken\<rparr> \<Longrightarrow> reported w w'"
  unfolding reported_def by blast

lemma receive_reports:
  assumes "lunix_ldisc_receive dbg now tty cp d = Some d'" "proto_inv (lunix_protocol_state d)"
  shows "world d' = world d \<or> reported (world d) (world d')"
proof -
  obtain st w where recv: "lunix_protocol_received_buf dbg now (lunix_protocol_state d) cp (world d) = Some (st, w)"
    and d': "d' = d\<lparr>lunix_protocol_state := st, world := w\<rparr>"
    using assms(1) by (auto simp: lunix_ldisc_receive_def bind_Some_iff)
  show ?thesis
  proof (rule received_buf_cases [OF assms(2), of dbg now cp "world d"])
    fix st'
    assume "lunix_protocol_received_buf dbg now (lunix_protocol_state d) cp (world d) = Some (st', world d)"
    then show ?thesis using recv d' by simp
  next
    fix st'
    assume "lunix_protocol_received_buf dbg now (lunix_protocol_state d) cp (world d) =
        do { w' \<leftarrow> lunix_protocol_update_sensors st' now (world d); Some (restart st', w') }"
    then have "lunix_protocol_update_sensors st' now (world d) = Some w"
      using recv by (cases "lunix_protocol_update_sensors st' now (world d)") simp_all
    then show ?thesis
      using d' unfolding update_sensors_cases
      by (auto simp: bind_Some_iff not_le intro: reportedI split: option.splits if_splits)
  qed
qed

lemma ldisc_step_world:
  assumes "ldisc_step dbg d e r d'" "proto_inv (lunix_protocol_state d)"
  shows "world d' = world d \<or> reported (world d) (world d')"
  using assms(1)
proof cases
  case (set_ldisc tt cap d1)
  then show ?thesis by (auto simp: lunix_ldisc_open_eq split: if_splits option.splits)
next
  case (unset_ldisc tt d1)
  then show ?thesis by (auto simp: lunix_ldisc_close_def)
next
  case (line tt now cp)
  then show ?thesis using receive_reports assms(2) by blast
qed

text \<open>No step of the running driver moves a page or touches one that is not a sensor's.\<close>

definition same_memory :: "lunix_world \<Rightarrow> lunix_world \<Rightarrow> bool" where
  "same_memory w w' \<longleftrightarrow> map msr_data (sensors w') = map msr_data (sensors w)
     \<and> (\<forall>p. p \<notin> pages_of (sensors w) \<longrightarrow> pages w' p = pages w p)
     \<and> lunix_sensor_cnt w' = lunix_sensor_cnt w"

lemma same_memory_refl [simp]: "same_memory w w"
  by (simp add: same_memory_def)

lemma same_memory_length: "same_memory w w' \<Longrightarrow> length (sensors w') = length (sensors w)"
  unfolding same_memory_def by (metis length_map)

lemma pages_of_map: "map msr_data ss = map msr_data ts \<Longrightarrow> pages_of ss = pages_of ts"
  unfolding pages_of_def by (metis image_image list.set_map)

lemma init_inv_whole:
  "init_inv m0 (length ss) ss m \<longleftrightarrow> m0 0 = None \<and> wf_sensors m ss \<and> (\<forall>p. p \<notin> pages_of ss \<longrightarrow> m p = m0 p)
     \<and> (\<forall>p \<in> pages_of ss. m0 p = None)"
  by (simp add: init_inv_def)

lemma same_memory_owned:
  assumes "same_memory w w'" "wf_world w'" "init_inv m0 (length (sensors w)) (sensors w) (pages w)"
  shows "init_inv m0 (length (sensors w')) (sensors w') (pages w')"
proof -
  have "pages_of (sensors w') = pages_of (sensors w)"
    using assms(1) by (intro pages_of_map) (simp add: same_memory_def)
  then show ?thesis using assms by (simp add: init_inv_whole same_memory_def wf_world_def)
qed

lemma reported_frame:
  assumes rep: "reported w w'" and wf: "wf_world w"
  shows "wf_world w'" "same_memory w w'"
proof -
  obtain j b t l now sn m woken where j: "j < length (sensors w)"
    and upd: "lunix_sensor_update (sensors w ! j) b t l now (pages w) = Some (sn, m, woken)"
    and w': "w' = w\<lparr>sensors := (sensors w)[j := sn], pages := m, runnable := runnable w @ woken\<rparr>"
    using rep by (auto simp: reported_def)
  have all: "sensor_store.all_good (pages w) (sensors w)"
    using wf by (simp add: wf_world_def wf_sensors_all_good)
  have "sensor_store.all_good m ((sensors w)[j := sn])"
    by (rule sensor_store.update_nth [OF all j, of b t l now]) (use upd in simp)
  then show "wf_world w'" using wf w' by (simp add: wf_world_def wf_sensors_all_good)
  have good: "wf_sensor (pages w) (sensors w ! j)" using wf j by (simp add: wf_world_def wf_sensors_nth)
  have sn: "msr_data sn = msr_data (sensors w ! j)" "\<And>p. p \<notin> set (msr_data (sensors w ! j)) \<Longrightarrow> m p = pages w p"
    by (rule lunix_sensor_update_works [OF good, of b t l now]; use upd in simp)+
  have "map msr_data (sensors w') = map msr_data (sensors w)"
    using sn(1) j w' by (simp add: map_update list_update_same_conv)
  moreover have "pages w' p = pages w p" if "p \<notin> pages_of (sensors w)" for p
    using sn(2) [of p] that nth_mem [OF j] w' by (auto simp: pages_of_def)
  ultimately show "same_memory w w'" using w' by (simp add: same_memory_def)
qed

text \<open>A step of a read call changes at most the wait queue of its sensor, by its own process.\<close>

lemma read_call_frame:
  assumes "read_call lookup intr p s s'"
  shows "(sys s' = sys s \<or> (\<exists>q. sys s' = sys (set_wq q s) \<and> (\<forall>x. x \<noteq> p \<longrightarrow> x \<in> set q \<longleftrightarrow> x \<in> set (the_wq s))))
    \<and> (\<forall>x. x \<noteq> p \<longrightarrow> pcs s' x = pcs s x)"
  using assms
proof cases
  case (sleep off cnt)
  then have "sys s' = sys (set_wq (p # the_wq s) s)" "\<forall>x. x \<noteq> p \<longrightarrow> pcs s' x = pcs s x" by simp_all
  moreover have "\<forall>x. x \<noteq> p \<longrightarrow> x \<in> set (p # the_wq s) \<longleftrightarrow> x \<in> set (the_wq s)" by simp
  ultimately show ?thesis by blast
next
  case (wait_intr off cnt)
  then have "sys s' = sys (set_wq (filter (\<lambda>q. q \<noteq> p) (the_wq s)) s)" "\<forall>x. x \<noteq> p \<longrightarrow> pcs s' x = pcs s x" by simp_all
  moreover have "\<forall>x. x \<noteq> p \<longrightarrow> x \<in> set (filter (\<lambda>q. q \<noteq> p) (the_wq s)) \<longleftrightarrow> x \<in> set (the_wq s)" by simp
  ultimately show ?thesis by blast
qed simp_all

lemma same_memory_wq: "same_memory (sys s) (sys (set_wq_at j q s))"
proof (cases "j < length (sensors (sys s))")
  case True
  then show ?thesis by (simp add: same_memory_def set_wq_at_def map_update list_update_same_conv)
next
  case False
  then show ?thesis by (simp add: same_memory_def set_wq_at_def list_update_beyond not_less)
qed

lemma read_call_memory: "read_call lookup intr p s s' \<Longrightarrow> same_memory (sys s) (sys s')"
  using read_call_frame [of lookup intr p s s'] same_memory_wq [of s "sensor (chrdev s)"]
  by (auto simp: set_wq_def)

section \<open>One file inside the system\<close>

text \<open>
  The simulation: a step of the loaded system is, for every file that stays open, no step or a step
  of \<open>read_step\<close> on that file.
\<close>

lemma view_world: "sys (view s x) = world_of s \<Longrightarrow> world_of s' = world_of s \<Longrightarrow> view s' x = view s x"
  by (simp add: view_def)

lemma view_reported:
  assumes "reported (world_of s) (world_of s')"
  shows "read_step lookup intr (view s x) (view s' x)"
proof -
  obtain j b t l now sn m woken where r: "j < length (sensors (world_of s))"
    "lunix_sensor_update (sensors (world_of s) ! j) b t l now (pages (world_of s)) = Some (sn, m, woken)"
    "world_of s' = (world_of s)\<lparr>sensors := (sensors (world_of s))[j := sn], pages := m,
       runnable := runnable (world_of s) @ woken\<rparr>"
    using assms by (auto simp: reported_def)
  have "view s' x = (view s x)\<lparr>sys := (sys (view s x))\<lparr>sensors := (sensors (sys (view s x)))[j := sn],
      pages := m, runnable := runnable (sys (view s x)) @ woken\<rparr>\<rparr>"
    using r(3) by (simp add: view_def)
  then show ?thesis using report [of j "view s x" b t l now sn m woken lookup intr] r(1,2) by simp
qed

lemma view_other:
  assumes "read_call lookup intr p (view s y) v" "calls x p = Idle" "wf_chrdev (world_of s) (priv y)"
  shows "view (put_view f v s) x = view s x \<or> read_step lookup intr (view s x) (view (put_view f v s) x)"
proof -
  have "sys v = world_of s \<or> (\<exists>q. sys v = sys (set_wq q (view s y)) \<and>
      (\<forall>z. z \<noteq> p \<longrightarrow> z \<in> set q \<longleftrightarrow> z \<in> set (the_wq (view s y))))"
    using read_call_frame [OF assms(1)] by simp
  then show ?thesis
  proof (elim disjE exE conjE)
    assume "sys v = world_of s"
    then have "view (put_view f v s) x = view s x" by (simp add: view_def)
    then show ?thesis by simp
  next
    fix q
    assume q: "sys v = sys (set_wq q (view s y))" "\<forall>z. z \<noteq> p \<longrightarrow> z \<in> set q \<longleftrightarrow> z \<in> set (the_wq (view s y))"
    let ?j = "sensor (priv y)"
    have "view (put_view f v s) x = set_wq_at ?j q (view s x)"
      using q(1) by (simp add: view_def set_wq_def set_wq_at_def)
    moreover have "read_step lookup intr (view s x) (set_wq_at ?j q (view s x))"
      using q(2) assms(2,3) by (intro others) (auto simp: wf_chrdev_def the_wq_def)
    ultimately show ?thesis by simp
  qed
qed

fun stays_loaded :: "lunix_event \<Rightarrow> bool" where
  "stays_loaded (Insmod cnt r) = False"
| "stays_loaded Rmmod = False"
| "stays_loaded e = True"

lemma view_step:
  assumes step: "system_step lookup intr dbg s e s'" "stays_loaded e"
    and x: "opened s f = Some x" and x': "opened s' f = Some x'"
    and inv: "proto_inv (lunix_protocol_state (driver_of s))"
      "\<And>g y. opened s g = Some y \<Longrightarrow> wf_chrdev (world_of s) (priv y)"
  shows "view s' x' = view s x \<or> read_step lookup intr (view s x) (view s' x')"
  using step(1)
proof cases
  case (tty e r d)
  have same: "x' = x" using x x' tty by simp
  have "world d = world_of s \<or> reported (world_of s) (world d)"
    using ldisc_step_world [OF tty(3) inv(1)] .
  then show ?thesis using view_reported [of s s'] tty(2) same by (auto simp: view_def)
next
  case (opens n minor g fresh nonseekable r pd)
  then have "f \<noteq> g" using x by auto
  then show ?thesis using x x' opens by (simp add: view_def)
next
  case (releases g y r pd)
  then show ?thesis using x x' by (auto simp: view_def split: if_splits)
next
  case (reads g y p v)
  show ?thesis
  proof (cases "f = g")
    case True
    then have "view s' x' = v" "y = x" using reads x x' by (auto simp: view_def)
    then show ?thesis using process [OF reads(5)] by simp
  next
    case False
    then have "x' = x" "calls x p = Idle" using reads x x' by auto
    then show ?thesis using view_other [OF reads(5) _ inv(2) [OF reads(3)]] reads(2) by simp
  qed
qed (use step(2) in simp_all)

section \<open>The invariant\<close>

text \<open>Every open file is in order, and a process is in the calls of one file at most.\<close>

definition files_ok :: "lunix_system \<Rightarrow> bool" where
  "files_ok s \<longleftrightarrow> (\<forall>f x. opened s f = Some x \<longrightarrow> data_inv (view s x) \<and> sleep_inv (view s x))
     \<and> (\<forall>f g x y p. f \<noteq> g \<longrightarrow> opened s f = Some x \<longrightarrow> opened s g = Some y \<longrightarrow>
          calls x p = Idle \<or> calls y p = Idle)"

text \<open>The loaded driver; \<open>m0\<close> are the pages that were in use before it was loaded.\<close>

definition running :: "page_heap \<Rightarrow> lunix_system \<Rightarrow> bool" where
  "running m0 s \<longleftrightarrow> sensors_live (lunix s) \<and> ldisc_inv (driver_of s) \<and> ldisc_registered (driver_of s)
     \<and> init_inv m0 (length (sensors (world_of s))) (sensors (world_of s)) (pages (world_of s))
     \<and> int (length (sensors (world_of s))) = lunix_sensor_cnt (world_of s)
     \<and> cdev_live (registry (lunix s))
     \<and> region (registry (lunix s)) = Some (lunix_minor_cnt (lunix_sensor_cnt (world_of s)))
     \<and> files_ok s"

definition system_inv :: "lunix_system \<Rightarrow> bool" where
  "system_inv s \<longleftrightarrow> (if sensors_live (lunix s) then \<exists>m0. running m0 s else bare_machine s)"

lemma runningD:
  assumes "running m0 s"
  shows "sensors_live (lunix s)" "ldisc_inv (driver_of s)" "files_ok s" "wf_world (world_of s)"
    "proto_inv (lunix_protocol_state (driver_of s))"
    "int (length (sensors (world_of s))) = lunix_sensor_cnt (world_of s)"
    "init_inv m0 (length (sensors (world_of s))) (sensors (world_of s)) (pages (world_of s))"
  using assms by (simp_all add: running_def ldisc_inv_def)

lemma files_okD:
  assumes "files_ok s" "opened s f = Some x"
  shows "data_inv (view s x)" "sleep_inv (view s x)" "wf_chrdev (world_of s) (priv x)"
    "f \<noteq> g \<Longrightarrow> opened s g = Some y \<Longrightarrow> calls x p = Idle \<or> calls y p = Idle"
  using assms unfolding files_ok_def by (auto simp: data_inv_def)

text \<open>A registered minor number is one of the sensors'.\<close>

lemma minor_in_range:
  assumes "minor < lunix_minor_cnt (int n)"
  shows "unat minor < 8 * n"
proof -
  have "unat (lunix_minor_cnt (int n)) = (8 * n) mod 2 ^ 32"
    by (simp add: lunix_minor_cnt_def push_bit_eq_mult unat_word_ariths unat_of_nat) (metis mod_mult_left_eq mult.commute)
  also have "\<dots> \<le> 8 * n" by simp
  finally show ?thesis using assms by (simp add: word_less_nat_alt)
qed

text \<open>The driver's part of the invariant, step by step.\<close>

lemma memory_step:
  assumes run: "running m0 s" and step: "system_step lookup intr dbg s e s'" and e: "stays_loaded e"
  shows "same_memory (world_of s) (world_of s')"
  using step
proof cases
  case (tty e r d)
  have "world d = world_of s \<or> reported (world_of s) (world d)"
    using ldisc_step_world [OF tty(3) runningD(5) [OF run]] .
  then show ?thesis using tty(2) reported_frame(2) runningD(4) [OF run] by auto
next
  case (reads f x p v)
  then show ?thesis using read_call_memory by fastforce
qed (use e in simp_all)

lemma driver_step:
  assumes run: "running m0 s" and step: "system_step lookup intr dbg s e s'" and e: "stays_loaded e"
  shows "ldisc_inv (driver_of s') \<and> sensors_live (lunix s') \<and> ldisc_registered (driver_of s')
    \<and> registry (lunix s') = registry (lunix s)"
  using step
proof cases
  case (tty e r d)
  have "ldisc_inv d" using ldisc_step_inv [OF tty(3) runningD(2) [OF run]] .
  moreover have "ldisc_registered d"
    using tty(3) run
    by cases (auto simp: running_def lunix_ldisc_open_eq lunix_ldisc_close_def lunix_ldisc_receive_def
        bind_Some_iff split: if_splits option.splits)
  ultimately show ?thesis using tty(2) run by (simp add: running_def)
next
  case (reads f x p v)
  have "data_inv v" using read_call_data [OF reads(5) files_okD(1) [OF runningD(3) [OF run] reads(3)]] .
  then have "wf_world (sys v)" by (simp add: data_inv_def)
  then show ?thesis using reads(2) run by (simp add: running_def ldisc_inv_def)
qed (use run e in \<open>auto simp: running_def\<close>)

text \<open>The files' part.\<close>

lemma just_opened_view: "view s \<lparr>priv = st, offset = 0, calls = (\<lambda>_. Idle)\<rparr> = just_opened (world_of s) st"
  by (simp add: view_def just_opened_def)

lemma file_history:
  assumes run: "running m0 s" and step: "system_step lookup intr dbg s e s'" and e: "stays_loaded e"
    and x': "opened s' f = Some x'"
  obtains (old) x where "opened s f = Some x"
      "view s' x' = view s x \<or> read_step lookup intr (view s x) (view s' x')"
  | (new) st where "view s' x' = just_opened (world_of s) st" "wf_chrdev (world_of s) st" "lock st = 1"
proof (cases "opened s f")
  case (Some x)
  have "view s' x' = view s x \<or> read_step lookup intr (view s x) (view s' x')"
    by (rule view_step [OF step e Some x' runningD(5) [OF run]]) (rule files_okD(3) [OF runningD(3) [OF run]])
  then show thesis by (rule old [OF Some])
next
  case None
  from step show ?thesis
  proof cases
    case (opens n minor g fresh nonseekable r pd)
    then obtain st where st: "pd = Some st" "f = g" "x' = \<lparr>priv = st, offset = 0, calls = (\<lambda>_. Idle)\<rparr>"
      using x' None by (auto split: if_splits)
    have "n = lunix_minor_cnt (int (length (sensors (world_of s))))"
      using opens(4) run by (simp add: running_def)
    then have "unat minor < 8 * length (sensors (world_of s))"
      using opens(5) by (intro minor_in_range) simp
    then have "wf_chrdev (world_of s) st" "lock st = 1"
      using chrdev_open_file(5,6) [OF opens(9) [unfolded st(1)] opens(7)] by blast+
    then show thesis using opens(2) st(3) just_opened_view [of s' st] by (intro new) simp_all
  qed (use None x' e in \<open>auto split: if_splits\<close>)
qed

lemma file_step:
  assumes run: "running m0 s" and step: "system_step lookup intr dbg s e s'" and e: "stays_loaded e"
    and x': "opened s' f = Some x'"
  shows "data_inv (view s' x') \<and> sleep_inv (view s' x')"
proof (rule file_history [OF assms])
  fix x
  assume "opened s f = Some x" "view s' x' = view s x \<or> read_step lookup intr (view s x) (view s' x')"
  then show ?thesis using read_step_data read_step_sleep files_okD(1,2) [OF runningD(3) [OF run]] by metis
qed (use just_opened_inv [OF runningD(4) [OF run]] in simp_all)



lemma exclusive_step:
  assumes run: "running m0 s" and step: "system_step lookup intr dbg s e s'" and e: "stays_loaded e"
    and fg: "f \<noteq> g" "opened s' f = Some x" "opened s' g = Some y"
  shows "calls x p = Idle \<or> calls y p = Idle"
  using step
proof cases
  case (opens n minor h fresh nonseekable r pd)
  then show ?thesis using fg files_okD(4) [OF runningD(3) [OF run]] by (auto split: if_splits)
next
  case (releases h z r pd)
  then show ?thesis using fg files_okD(4) [OF runningD(3) [OF run]] by (auto split: if_splits)
next
  case (reads h z q v)
  have v: "\<And>p. p \<noteq> q \<Longrightarrow> pcs v p = calls z p" using read_call_frame [OF reads(5)] by simp
  have old: "f \<noteq> h \<Longrightarrow> opened s f = Some x" "g \<noteq> h \<Longrightarrow> opened s g = Some y"
    "f = h \<Longrightarrow> calls x = pcs v" "g = h \<Longrightarrow> calls y = pcs v"
    using fg reads(2) by auto
  have ex: "\<And>f g x y. f \<noteq> g \<Longrightarrow> opened s f = Some x \<Longrightarrow> opened s g = Some y \<Longrightarrow>
      calls x p = Idle \<or> calls y p = Idle"
    using files_okD(4) [OF runningD(3) [OF run]] by blast
  consider "f = h" | "g = h" | "f \<noteq> h" "g \<noteq> h" by blast
  then show ?thesis
  proof cases
    case 1
    then have g: "g \<noteq> h" using fg(1) by simp
    show ?thesis
    proof (cases "p = q")
      case True
      then show ?thesis using reads(4) [OF g old(2) [OF g]] by simp
    next
      case False
      then show ?thesis using ex [OF _ reads(3) old(2) [OF g]] g v old(3) [OF 1] by auto
    qed
  next
    case 2
    then have f: "f \<noteq> h" using fg(1) by simp
    show ?thesis
    proof (cases "p = q")
      case True
      then show ?thesis using reads(4) [OF f old(1) [OF f]] by simp
    next
      case False
      then show ?thesis using ex [OF f old(1) [OF f] reads(3)] v old(4) [OF 2] by auto
    qed
  next
    case 3
    then show ?thesis using ex [OF fg(1) old(1,2)] by simp
  qed
qed (use e fg files_okD(4) [OF runningD(3) [OF run]] in auto)


lemma running_step:
  assumes run: "running m0 s" and step: "system_step lookup intr dbg s e s'" and e: "stays_loaded e"
  shows "running m0 s'"
proof -
  note mem = memory_step [OF run step e] and drv = driver_step [OF run step e]
  have "files_ok s'"
    using file_step [OF run step e] exclusive_step [OF run step e] by (fastforce simp: files_ok_def)
  moreover have "wf_world (world_of s')" using drv by (simp add: ldisc_inv_def)
  then have "init_inv m0 (length (sensors (world_of s'))) (sensors (world_of s')) (pages (world_of s'))"
    using same_memory_owned [OF mem _ runningD(7) [OF run]] by simp
  moreover have "length (sensors (world_of s')) = length (sensors (world_of s))"
    "lunix_sensor_cnt (world_of s') = lunix_sensor_cnt (world_of s)"
    using same_memory_length [OF mem] mem by (simp_all add: same_memory_def)
  ultimately show ?thesis using drv run by (simp add: running_def)
qed

section \<open>Loading and unloading\<close>

lemma load_image_simps:
  assumes "bare_machine s"
  shows "unloaded (load_image cnt (lunix s))" "pages (world (driver (load_image cnt (lunix s)))) = pages (world_of s)"
    "lunix_sensor_cnt (world (driver (load_image cnt (lunix s)))) = cnt"
    "lunix_protocol_state (driver (load_image cnt (lunix s))) = zeroed_protocol"
    "pages (world (driver (load_image cnt (lunix s)))) 0 = None"
  using assms by (simp_all add: bare_machine_def load_image_def unloaded_def)

lemma insmod_ok:
  assumes bare: "bare_machine s" and sane: "sane_kernel K"
    and init: "lunix_module_init K (load_image cnt (lunix s)) = Some (0, M)"
  shows "running (pages (world_of s)) (s\<lparr>lunix := M\<rparr>)" "phase (lunix_protocol_state (driver M)) = SEEKING_START_BYTE"
    "attached (driver M) = []" "lunix_sensor_cnt (world (driver M)) = cnt"
proof -
  let ?M = "load_image cnt (lunix s)"
  note im = load_image_simps [OF bare, of cnt]
  obtain ss m n reg where inv: "init_inv (pages (world (driver ?M))) (length ss) ss m"
    and cnt: "int (length ss) = lunix_sensor_cnt (world (driver ?M))"
    and M: "M = (with_sensors ?M ss m n)\<lparr>driver := snd (lunix_ldisc_init 0 (driver (with_sensors ?M ss m n))), registry := reg\<rparr>"
    and reg: "cdev_live reg" "region reg = Some (lunix_minor_cnt (lunix_sensor_cnt (world (driver ?M))))"
    by (rule module_init_success [OF sane im(1,5) init])
  have d: "world (driver M) = (world (driver ?M))\<lparr>sensors := ss, pages := m\<rparr>"
    "lunix_protocol_state (driver M) = lunix_protocol_init zeroed_protocol"
    "attached (driver M) = []" "lunix_disc_available (driver M) = 1" "ldisc_registered (driver M)"
    "registry M = reg" "sensors_live M"
    using im(1,4) by (simp_all add: M with_sensors_def lunix_ldisc_init_def unloaded_def)
  have "proto_inv (lunix_protocol_init zeroed_protocol)" by (rule proto_init_inv) (simp add: zeroed_protocol_def)
  then have "ldisc_inv (driver M)"
    using inv cnt by (simp add: ldisc_inv_def d disc.balanced_def wf_world_def init_inv_def)
  moreover have "files_ok (s\<lparr>lunix := M\<rparr>)" using bare by (simp add: files_ok_def bare_machine_def)
  ultimately show "running (pages (world_of s)) (s\<lparr>lunix := M\<rparr>)"
    using inv cnt reg by (simp add: running_def d im)
  show "phase (lunix_protocol_state (driver M)) = SEEKING_START_BYTE" "attached (driver M) = []"
    "lunix_sensor_cnt (world (driver M)) = cnt"
    by (simp_all add: d lunix_protocol_init_def im)
qed

lemma insmod_fails:
  assumes bare: "bare_machine s" and sane: "sane_kernel K"
    and init: "lunix_module_init K (load_image cnt (lunix s)) = Some (r, M)" and r: "r \<noteq> 0"
  shows "bare_machine (s\<lparr>lunix := M\<rparr>)"
proof -
  let ?M = "load_image cnt (lunix s)"
  note im = load_image_simps [OF bare, of cnt]
  have null: "pages (world (driver ?M)) 0 = None" using im by simp
  have "unloaded M \<and> pages (world (driver M)) 0 = None"
  proof (cases "kzalloc_ok K (lunix_sensor_cnt (world (driver ?M)))")
    case False
    then show ?thesis using module_init_alloc_fails [OF False] init im by simp
  next
    case alloc: True
    obtain failed r0 si ss m n where loop: "sensor_loop K ?M = (failed, r0, si, ss, (m, n))" by (metis surj_pair)
    show ?thesis
    proof (cases failed)
      case True
      with loop have "sensor_loop K ?M = (True, r0, si, ss, (m, n))" by simp
      then show ?thesis
        by (rule module_init_sensor_fails [OF sane null alloc])
          (use init im(1) null in \<open>simp add: unloaded_def\<close>)
    next
      case False
      with loop have "sensor_loop K ?M = (False, r0, si, ss, (m, n))" by simp
      from failed_after_sensors [OF sane im(1) null alloc this init r] null show ?thesis by simp
    qed
  qed
  then show ?thesis using bare by (simp add: bare_machine_def)
qed

lemma cleanup_frees:
  assumes run: "running m0 s"
  obtains M where "lunix_module_cleanup (lunix s) = Some M" "pages (world (driver M)) = m0"
    "attached (driver M) = attached (driver_of s)" "attached (driver M) = [] \<Longrightarrow> unloaded M"
proof -
  let ?M = "(lunix s)\<lparr>registry := lunix_chrdev_destroy (registry (lunix s)), driver := lunix_ldisc_destroy (driver_of s)\<rparr>"
  let ?ss = "sensors (world_of s)"
  have inv: "init_inv m0 (length ?ss) ?ss (pages (world (driver ?M)))" "sensors (world (driver ?M)) = ?ss"
    using runningD(7) [OF run] by (simp_all add: lunix_ldisc_destroy_def)
  then obtain M where out: "out_with_sensors (int (length ?ss) - 1) ?M = Some M"
    using destroy_initialized [OF inv(1)] by (simp add: out_with_sensors_def Let_def)
  then have "lunix_module_cleanup (lunix s) = Some M"
    using runningD(6) [OF run] by (simp add: lunix_module_cleanup_def Let_def lunix_ldisc_destroy_def)
  moreover note r = out_with_sensors_restores [OF inv out]
  have "attached (driver M) = attached (driver_of s)" using r by (simp add: lunix_ldisc_destroy_def)
  moreover have "unloaded M" if "attached (driver M) = []"
    using r that by (simp add: unloaded_def lunix_ldisc_destroy_def lunix_chrdev_destroy_def)
  ultimately show thesis using that r(1) by blast
qed

lemma rmmod_ok:
  assumes run: "running m0 s" and idle: "attached (driver_of s) = []" "opened s = Map.empty"
  obtains M where "lunix_module_cleanup (lunix s) = Some M" "bare_machine (s\<lparr>lunix := M\<rparr>)"
    "pages (world (driver M)) = m0"
  by (rule cleanup_frees [OF run])
    (use that idle runningD(7) [OF run] in \<open>simp add: bare_machine_def init_inv_def\<close>)

section \<open>Every reachable state\<close>

lemma bare_machine_idle:
  assumes "bare_machine s" "system_step lookup intr dbg s e s'"
  obtains cnt r K M where "e = Insmod cnt r" "s' = s\<lparr>lunix := M\<rparr>" "sane_kernel K"
    "lunix_module_init K (load_image cnt (lunix s)) = Some (r, M)"
  using assms(2)
proof cases
  case (tty e r d)
  then show thesis using assms(1) by (auto simp: bare_machine_def unloaded_def elim!: ldisc_step.cases)
qed (use assms(1) that in \<open>auto simp: bare_machine_def unloaded_def\<close>)

lemma system_step_inv:
  assumes inv: "system_inv s" and step: "system_step lookup intr dbg s e s'"
  shows "system_inv s'"
proof (cases "sensors_live (lunix s)")
  case False
  then have bare: "bare_machine s" using inv by (simp add: system_inv_def)
  show ?thesis
  proof (rule bare_machine_idle [OF bare step])
    fix cnt r K M
    assume a: "s' = s\<lparr>lunix := M\<rparr>" "sane_kernel K" "lunix_module_init K (load_image cnt (lunix s)) = Some (r, M)"
    show ?thesis
    proof (cases "r = 0")
      case True
      then have "running (pages (world_of s)) s'" using insmod_ok(1) [OF bare a(2)] a(1,3) by simp
      then show ?thesis using runningD(1) by (auto simp: system_inv_def)
    next
      case False
      have "bare_machine s'" using insmod_fails [OF bare a(2,3) False] a(1) by simp
      then show ?thesis by (simp add: system_inv_def) (simp add: bare_machine_def unloaded_def)
    qed
  qed
next
  case True
  then obtain m0 where run: "running m0 s" using inv by (auto simp: system_inv_def)
  show ?thesis
  proof (cases "stays_loaded e")
    case True
    then show ?thesis using running_step [OF run step] runningD(1) by (auto simp: system_inv_def)
  next
    case out: False
    from step show ?thesis
    proof cases
      case (rmmod M)
      obtain M1 where "lunix_module_cleanup (lunix s) = Some M1" "bare_machine (s\<lparr>lunix := M1\<rparr>)"
        by (rule rmmod_ok [OF run rmmod(4,5)])
      then have "bare_machine s'" using rmmod by simp
      then show ?thesis by (simp add: system_inv_def) (simp add: bare_machine_def unloaded_def)
    qed (use out True in auto)
  qed
qed

lemma system_run_inv: "system_run lookup intr dbg s es s' \<Longrightarrow> system_inv s \<Longrightarrow> system_inv s'"
  by (induction rule: system_run.induct) (auto intro: system_step_inv)

lemma bare_machine_inv: "bare_machine s \<Longrightarrow> system_inv s"
  by (simp add: system_inv_def bare_machine_def unloaded_def)

lemma running_run:
  "system_run lookup intr dbg s es s' \<Longrightarrow> list_all stays_loaded es \<Longrightarrow> running m0 s \<Longrightarrow> running m0 s'"
  by (induction rule: system_run.induct) (auto intro: running_step)





section \<open>Runs\<close>

text \<open>The steps of one reader, in the system.\<close>

lemma lift_calls:
  assumes run: "(read_call lookup intr p)\<^sup>*\<^sup>* (view s x) v" and x: "opened s f = Some x"
    and alone: "\<And>g y. g \<noteq> f \<Longrightarrow> opened s g = Some y \<Longrightarrow> calls y p = Idle"
  obtains es s' x' where "system_run lookup intr dbg s es s'" "set es \<subseteq> {Read f p}"
    "opened s' f = Some x'" "view s' x' = v" "\<And>g. g \<noteq> f \<Longrightarrow> opened s' g = opened s g"
    "attached (driver_of s') = attached (driver_of s)"
    "lunix_protocol_state (driver_of s') = lunix_protocol_state (driver_of s)"
proof -
  have "\<exists>es s' x'. system_run lookup intr dbg s es s' \<and> set es \<subseteq> {Read f p} \<and> opened s' f = Some x' \<and> view s' x' = v
      \<and> (\<forall>g. g \<noteq> f \<longrightarrow> opened s' g = opened s g) \<and> attached (driver_of s') = attached (driver_of s)
      \<and> lunix_protocol_state (driver_of s') = lunix_protocol_state (driver_of s)"
    using run
  proof (induction rule: rtranclp_induct)
    case base
    show ?case using x stop [of lookup intr dbg s] by (intro exI [of _ "[]"] exI [of _ s] exI [of _ x]) auto
  next
    case (step v1 v2)
    then obtain es s1 x1 where r: "system_run lookup intr dbg s es s1" "set es \<subseteq> {Read f p}"
      "opened s1 f = Some x1" "view s1 x1 = v1" "\<forall>g. g \<noteq> f \<longrightarrow> opened s1 g = opened s g"
      "attached (driver_of s1) = attached (driver_of s)"
      "lunix_protocol_state (driver_of s1) = lunix_protocol_state (driver_of s)" by blast
    have "system_step lookup intr dbg s1 (Read f p) (put_view f v2 s1)"
      by (rule reads [OF r(3)]) (use alone r(4,5) step.hyps(2) in auto)
    then have "system_run lookup intr dbg s (es @ [Read f p]) (put_view f v2 s1)"
      using system_run_append [OF r(1)] by (blast intro: system_run.intros)
    moreover have "\<forall>g. g \<noteq> f \<longrightarrow> opened (put_view f v2 s1) g = opened s g" using r(5) by simp
    ultimately show ?case
      using r(2,6,7) by (intro exI [of _ "es @ [Read f p]"] exI [of _ "put_view f v2 s1"] exI) (auto simp: view_put_view)
  qed
  then show thesis using that by blast
qed

text \<open>The TTY layer gives the discipline to a free line, and the bytes of a report arrive.\<close>

lemma attach_line:
  assumes run: "running m0 s" and free: "attached (driver_of s) = []"
  obtains s' where "system_step lookup intr dbg s (Tty (Set_Ldisc tty True) 0) s'"
    "attached (driver_of s') = [tty]" "opened s' = opened s" "world_of s' = world_of s"
    "lunix_protocol_state (driver_of s') = lunix_protocol_state (driver_of s)" "registry (lunix s') = registry (lunix s)"
proof -
  let ?d = "(driver_of s)\<lparr>lunix_disc_available := 0,
      receive_room := (receive_room (driver_of s))(tty := 65536), attached := [tty]\<rparr>"
  have "ldisc_step dbg (driver_of s) (Set_Ldisc tty True) 0 ?d"
    by (rule set_ldisc_ok [OF runningD(2) [OF run] free]) (use run in \<open>simp add: running_def\<close>)
  then show thesis by (intro that [of "set_driver ?d s"] tty) simp_all
qed

lemma report_line:
  assumes run: "running m0 s" and tty: "tty \<in> set (attached (driver_of s))"
    and idle: "phase (lunix_protocol_state (driver_of s)) = SEEKING_START_BYTE"
    and fr: "wf_frame fr" "f_am_type fr = 0x0B" "f_payload fr = report_payload hdr node mid batt temp light tail"
      "length hdr = 2" "length mid = 7" "dbg \<longrightarrow> length (encode_frame fr) < 50"
    and node: "unat node = Suc i" "i < length (sensors (world_of s))"
  obtains s' where "system_step lookup intr dbg s (Tty (Line tty now (encode_frame fr)) 0) s'"
    "sensor_peek (pages (world_of s')) (sensors (world_of s') ! i) k =
      Some (case k of BATT \<Rightarrow> batt | TEMP \<Rightarrow> temp | LIGHT \<Rightarrow> light, ucast now)"
    "runnable (world_of s') = runnable (world_of s) @ wq (sensors (world_of s) ! i)" "opened s' = opened s"
    "length (sensors (world_of s')) = length (sensors (world_of s))"
proof -
  let ?p = "overwrite (packet (lunix_protocol_state (driver_of s))) 0 (frame_bytes fr)"
  have p: "length (packet (lunix_protocol_state (driver_of s))) = MAX_PACKET_LEN"
    using runningD(5) [OF run] by (simp add: proto_inv_def proto_shape_def)
  note fields = report_fields [OF fr(2-5) p fr(1)]
  have "uint node = int (Suc i)" using node(1) by (metis uint_nat)
  then have slot: "report_slot (lunix_sensor_cnt (world_of s)) ?p = Some i"
    using fields node runningD(6) [OF run] by (simp add: report_slot_def)
  obtain st w where recv: "lunix_protocol_received_buf dbg now (lunix_protocol_state (driver_of s)) (encode_frame fr) (world_of s) = Some (st, w)"
    and snap: "snapshot_of w = apply_report (lunix_sensor_cnt (world_of s)) now ?p (snapshot_of (world_of s))"
    and woken: "runnable w = runnable (world_of s) @ sleepers_of (world_of s) (report_slot (lunix_sensor_cnt (world_of s)) ?p)"
    by (rule received_frame [OF runningD(5) [OF run] idle fr(1) runningD(4) [OF run], of dbg "[]" now])
      (use fr(6) in simp_all)
  have len: "length (sensors w) = length (sensors (world_of s))"
    using arg_cong [OF snap, of length] by (simp add: apply_report_def slot)
  have "snapshot_of w ! i = (\<lambda>k. Some (uint16_from_packet ?p (report_offset k), ucast now))"
    using snap slot node(2) by (simp add: apply_report_def)
  then have "sensor_peek (pages w) (sensors w ! i) k = Some (case k of BATT \<Rightarrow> batt | TEMP \<Rightarrow> temp | LIGHT \<Rightarrow> light, ucast now)"
    using fields node(2) len by (cases k) (simp_all add: fun_eq_iff)
  moreover have "ldisc_step dbg (driver_of s) (Line tty now (encode_frame fr)) 0
      ((driver_of s)\<lparr>lunix_protocol_state := st, world := w\<rparr>)"
    by (rule ldisc_step.line [OF tty]) (simp add: lunix_ldisc_receive_def recv)
  ultimately show thesis
    using woken slot len
    by (intro that [of "set_driver ((driver_of s)\<lparr>lunix_protocol_state := st, world := w\<rparr>) s"] system_step.tty)
      (simp_all add: sleepers_of_def)
qed

section \<open>A concrete machine\<close>

text \<open>
  The driver loaded for two sensors on a machine with six pages, its discipline on TTY 4, and the
  temperature of the second sensor (minor number 9) opened as file 0.
\<close>

definition bare :: lunix_system where
  "bare = \<lparr>lunix = blank_module, opened = Map.empty\<rparr>"

definition loaded_module :: lunix_module where
  "loaded_module = \<lparr>driver = \<lparr>lunix_disc_available = 1, lunix_protocol_state = lunix_protocol_init zeroed_protocol,
     world = \<lparr>sensors = [\<lparr>msr_data = [1, 2, 3], sensor_lock = False, wq = []\<rparr>,
                \<lparr>msr_data = [4, 5, 6], sensor_lock = False, wq = []\<rparr>], lunix_sensor_cnt = 2,
        pages = Map.empty(1 \<mapsto> init_page, 2 \<mapsto> init_page, 3 \<mapsto> init_page, 4 \<mapsto> init_page, 5 \<mapsto> init_page, 6 \<mapsto> init_page),
        runnable = []\<rparr>, attached = [],
     receive_room = (\<lambda>_. 0), ldisc_registered = True\<rparr>, registry = \<lparr>region = Some 16, cdev_live = True\<rparr>,
     sensors_live = True, page_calls = 6\<rparr>"

definition loaded :: lunix_system where
  "loaded = \<lparr>lunix = loaded_module, opened = Map.empty\<rparr>"

lemma bare_bare: "bare_machine bare"
  using blank_module_unloaded by (simp add: bare_machine_def bare_def)

lemma module_loads: "lunix_module_init (small_kernel 6) (load_image 2 blank_module) = Some (0, loaded_module)"
proof -
  have upt: "[0..<2 :: nat] = [0, 1]" by (simp add: upt_rec)
  have two: "replicate 2 x = [x, x]" for x :: lunix_sensor_struct by (simp add: numeral_2_eq_2)
  show ?thesis
    by (simp add: lunix_module_init_def load_image_def Let_def small_kernel_def blank_module_def upt two
      sensor_init_unfold counted_pages_def zeroed_sensor_def lunix_ldisc_init_def lunix_chrdev_init_def
      loaded_module_def init_page_def lunix_minor_cnt_def)
qed

lemma step_insmod: "system_step lookup intr dbg bare (Insmod 2 0) loaded"
proof -
  have "\<not> sensors_live (lunix bare)" "lunix bare = blank_module" by (simp_all add: bare_def blank_module_def)
  from insmod [of bare "small_kernel 6" 2 0 loaded_module lookup intr dbg] this small_kernel_sane module_loads
  show ?thesis by (simp add: loaded_def bare_def)
qed

lemma loaded_running: "running Map.empty loaded"
proof -
  have "lunix bare = blank_module" "pages (world_of bare) = Map.empty" by (simp_all add: bare_def blank_module_def)
  from insmod_ok(1) [OF bare_bare small_kernel_sane, of 6 2 loaded_module] this module_loads
  show ?thesis by (simp add: loaded_def bare_def)
qed

lemma loaded_facts:
  "attached (driver_of loaded) = []" "opened loaded = Map.empty" "lunix_protocol_state (driver_of loaded) = lunix_protocol_init zeroed_protocol"
  "region (registry (lunix loaded)) = Some 16" "cdev_live (registry (lunix loaded))" "length (sensors (world_of loaded)) = 2"
  "lunix_chrdev_state_needs_refresh (world_of loaded) sample_chrdev = Some False"
  by (simp_all add: loaded_def loaded_module_def lunix_chrdev_state_needs_refresh_def sample_chrdev_def blank_chrdev_def
      get_last_update_def init_page_def)

lemma open_sample: "lunix_chrdev_open 0 (Some blank_chrdev) 9 = (0, Some sample_chrdev)"
  by (simp add: lunix_chrdev_open_def minor_type minor_sensor N_LUNIX_MSR_def Let_def sample_chrdev_def blank_chrdev_def)

text \<open>A run from the bare machine to a sleeping reader, process 7.\<close>

lemma sleeping_run:
  obtains es s x where "system_run lookup intr dbg bare es s" "attached (driver_of s) = [4]"
    "phase (lunix_protocol_state (driver_of s)) = SEEKING_START_BYTE" "opened s 0 = Some x"
    "priv x = sample_chrdev" "calls x 7 = Asleep 0 99" "7 \<in> set (wq (sensors (world_of s) ! 1))"
proof -
  obtain s1 where attach: "system_step lookup intr dbg loaded (Tty (Set_Ldisc 4 True) 0) s1"
    and s1: "attached (driver_of s1) = [4]" "opened s1 = opened loaded" "world_of s1 = world_of loaded"
      "lunix_protocol_state (driver_of s1) = lunix_protocol_state (driver_of loaded)"
      "registry (lunix s1) = registry (lunix loaded)"
    by (rule attach_line [OF loaded_running loaded_facts(1)])
  let ?x = "\<lparr>priv = sample_chrdev, offset = 0, calls = (\<lambda>_. Idle)\<rparr>"
  define s2 where "s2 = set_file 0 (Some ?x) s1"
  have opn: "system_step lookup intr dbg s1 (Open 0 9 0) s2"
    using opens [OF _ _ _ _ _ _ open_sample, of s1 16 0 lookup intr dbg] s1 loaded_facts
    by (simp add: s2_def blank_chrdev_def LUNIX_CHRDEV_BUFSZ_def)
  have start: "system_run lookup intr dbg bare [Insmod 2 0, Tty (Set_Ldisc 4 True) 0, Open 0 9 0] s2"
    by (rule step [OF step_insmod step [OF attach step [OF opn stop]]])
  have x2: "opened s2 0 = Some ?x" by (simp add: s2_def)
  let ?v = "put_to_sleep 7 99 (entered 7 99 (view s2 ?x))"
  have l: "lock sample_chrdev = 1" by (simp add: sample_chrdev_def)
  have "(read_call lookup intr 7)\<^sup>*\<^sup>* (view s2 ?x) (entered 7 99 (view s2 ?x))"
    by (rule calls_entered) (simp_all add: l)
  moreover have "(read_call lookup intr 7)\<^sup>*\<^sup>* (entered 7 99 (view s2 ?x)) ?v"
    by (rule calls_put_to_sleep) (simp_all add: s2_def s1(3) loaded_facts(7))
  ultimately have calls: "(read_call lookup intr 7)\<^sup>*\<^sup>* (view s2 ?x) ?v" by (rule rtranclp_trans)
  have alone: "calls y 7 = Idle" if "g \<noteq> 0" "opened s2 g = Some y" for g y
    using that s1(2) loaded_facts(2) by (simp add: s2_def)
  obtain es s3 x3 where run: "system_run lookup intr dbg s2 es s3" and x3: "opened s3 0 = Some x3" "view s3 x3 = ?v"
    and d: "attached (driver_of s3) = attached (driver_of s2)"
      "lunix_protocol_state (driver_of s3) = lunix_protocol_state (driver_of s2)"
    by (rule lift_calls [OF calls x2 alone])
  have "priv x3 = chrdev ?v" "calls x3 7 = pcs ?v 7" "world_of s3 = sys ?v"
    using x3(2) by (metis view_simps)+
  moreover have "chrdev ?v = sample_chrdev" by (simp add: sample_chrdev_def)
  moreover have "the_wq ?v = 7 # the_wq (entered 7 99 (view s2 ?x))"
    by (rule put_to_sleep_wq) (simp add: s2_def s1(3) loaded_facts(6) sample_chrdev_def)
  moreover have "the_wq ?v = wq (sensors (sys ?v) ! 1)" by (simp add: the_wq_def sample_chrdev_def)
  moreover have "attached (driver_of s3) = [4]" "phase (lunix_protocol_state (driver_of s3)) = SEEKING_START_BYTE"
    using d s1(1,4) loaded_facts(3) by (simp_all add: s2_def lunix_protocol_init_def)
  ultimately show thesis using that system_run_append [OF start run] x3(1) by simp
qed

section \<open>Properties\<close>





text \<open>C14: unloading gives everything back. Whatever happens between a successful load and the unload, the
  machine is afterwards as it was before: no sensor, no registration, and the page heap the same, page
  for page. And the unload is possible as soon as no TTY and no open file holds the module.\<close>

theorem unload_returns_memory:
  assumes "bare_machine s0" "system_step lookup intr dbg s0 (Insmod cnt 0) s1"
    and "list_all stays_loaded es" "system_run lookup intr dbg s1 es s2"
    and "attached (driver_of s2) = []" "opened s2 = Map.empty"
  shows "\<exists>s3. system_step lookup intr dbg s2 Rmmod s3 \<and> bare_machine s3 \<and> pages (world_of s3) = pages (world_of s0)"
proof -
  have "running (pages (world_of s0)) s1"
    by (rule bare_machine_idle [OF assms(1,2)]) (use insmod_ok(1) [OF assms(1)] in simp)
  then have run: "running (pages (world_of s0)) s2" by (rule running_run [OF assms(4,3)])
  obtain M where M: "lunix_module_cleanup (lunix s2) = Some M" "bare_machine (s2\<lparr>lunix := M\<rparr>)"
    "pages (world (driver M)) = pages (world_of s0)"
    by (rule rmmod_ok [OF run assms(5,6)])
  have "system_step lookup intr dbg s2 Rmmod (s2\<lparr>lunix := M\<rparr>)"
    by (rule rmmod [OF runningD(1) [OF run] assms(5,6) M(1)])
  then show ?thesis using M(2,3) by fastforce
qed

lemma unload_returns_memory_witness:
  "\<exists>s. system_step (\<lambda>k v. 7) False True loaded Rmmod s \<and> bare_machine s \<and> pages (world_of s) = Map.empty"
proof -
  have "pages (world_of bare) = Map.empty" by (simp add: bare_def blank_module_def)
  then show ?thesis
    using unload_returns_memory [OF bare_bare step_insmod _ stop loaded_facts(1,2), of "\<lambda>k v. 7" False True] by simp
qed

text \<open>A measurement reaches its reader. In any reachable state, let a process sleep in its read of at
  least 16 bytes on an open file, with the semaphore of the file free, and let a report of the node
  behind this file arrive complete on the line while the receiver is idle, with a time after the cached
  one. Then the bytes are taken, the process has been made runnable if it was still on the wait queue, and its
  own steps lead it out of the call with the whole text of the new measurement, taken from the
  lookup table of the kind the file was opened for.\<close>

lemma report_reaches_reader:
  fixes lookup :: lookup_tables and cnt :: u64
  assumes "bare_machine s0" "system_run lookup intr dbg s0 es s"
    and "tty \<in> set (attached (driver_of s))" "phase (lunix_protocol_state (driver_of s)) = SEEKING_START_BYTE"
    and "opened s f = Some x" "calls x p = Asleep 0 cnt" "16 \<le> unat cnt" "0 < lock (priv x)"
    and "wf_frame fr" "f_am_type fr = 0x0B" "f_payload fr = report_payload hdr node mid batt temp light tail"
    and "length hdr = 2" "length mid = 7" "dbg \<longrightarrow> length (encode_frame fr) < 50"
    and "unat node = Suc (sensor (priv x))" "buf_timestamp (priv x) < ucast now"
  defines "raw \<equiv> case type (priv x) of BATT \<Rightarrow> batt | TEMP \<Rightarrow> temp | LIGHT \<Rightarrow> light"
  defines "text \<equiv> reading_text (akeraio_meros (lookup (type (priv x)) raw)) \<bar>dekadiko_meros (lookup (type (priv x)) raw)\<bar>"
  shows "\<exists>s1 es1 s2 x2. system_step lookup intr dbg s (Tty (Line tty now (encode_frame fr)) 0) s1
    \<and> (p \<in> set (wq (sensors (world_of s) ! sensor (priv x))) \<longrightarrow> p \<in> set (runnable (world_of s1)))
    \<and> system_run lookup intr dbg s1 es1 s2 \<and> set es1 \<subseteq> {Read f p}
    \<and> opened s2 f = Some x2 \<and> calls x2 p = Returned (int (length text)) 0 text"
proof -
  obtain m0 where run: "running m0 s"
    using system_run_inv [OF assms(2) bare_machine_inv [OF assms(1)]] assms(5)
    by (auto simp: system_inv_def bare_machine_def split: if_splits)
  note ok = files_okD [OF runningD(3) [OF run] assms(5)]
  have i: "sensor (priv x) < length (sensors (world_of s))" using ok(3) by (simp add: wf_chrdev_def)
  obtain s1 where step: "system_step lookup intr dbg s (Tty (Line tty now (encode_frame fr)) 0) s1"
    and peek: "sensor_peek (pages (world_of s1)) (sensors (world_of s1) ! sensor (priv x)) (type (priv x)) =
      Some (raw, ucast now)"
    and woken: "runnable (world_of s1) = runnable (world_of s) @ wq (sensors (world_of s) ! sensor (priv x))"
    and same: "opened s1 = opened s"
    unfolding raw_def by (rule report_line [OF run assms(3,4,9-15) i])
  have x1: "opened s1 f = Some x" using same assms(5) by simp
  have "running m0 s1" by (rule running_step [OF run step]) simp
  note ok1 = files_okD [OF runningD(3) [OF this] x1] and run1 = this
  have "lunix_chrdev_state_needs_refresh (world_of s1) (priv x) = Some True"
    using needs_refresh_peek [OF runningD(4) [OF run1] _ peek] ok1(3) assms(16) by (simp add: wf_chrdev_def)
  then have off: "p \<notin> set (the_wq (view s1 x))" using ok1(2) assms(6) by (auto simp: sleep_inv_def)
  obtain v where calls: "(read_call lookup intr p)\<^sup>*\<^sup>* (view s1 x) v" "pcs v p = Returned (int (length text)) 0 text"
    by (rule woken_reader [of "view s1 x" p cnt raw "ucast now" lookup intr])
      (use ok1(1) assms(6-8,16) off peek in \<open>simp_all add: text_def\<close>)
  have alone: "calls y p = Idle" if "g \<noteq> f" "opened s1 g = Some y" for g y
    using ok1(4) [of g y p] that assms(6) by auto
  obtain es1 s2 x2 where "system_run lookup intr dbg s1 es1 s2" "set es1 \<subseteq> {Read f p}" "opened s2 f = Some x2"
    "view s2 x2 = v"
    by (rule lift_calls [OF calls(1) x1 alone])
  moreover from this(4) calls(2) have "calls x2 p = Returned (int (length text)) 0 text" by (auto simp: view_def)
  moreover have "p \<in> set (wq (sensors (world_of s) ! sensor (priv x))) \<longrightarrow> p \<in> set (runnable (world_of s1))"
    using woken by simp
  ultimately show ?thesis using step by blast
qed

text \<open>The whole way: loading, attaching, opening, sleeping, and the report of node 2 that wakes the reader.\<close>

lemma report_reaches_reader_witness:
  "\<exists>es s. system_run (\<lambda>k v. 1234) False True bare es s
    \<and> (\<exists>x. opened s 0 = Some x \<and> calls x 7 = Returned (int (length (reading_text 1 234))) 0 (reading_text 1 234))"
proof -
  let ?lookup = "\<lambda>k v. 1234 :: u64"
  have v: "akeraio_meros 1234 = 1" "dekadiko_meros 1234 = 234"
    by (simp_all add: akeraio_meros_def dekadiko_meros_def)
  obtain es s x where s: "system_run ?lookup False True bare es s" "attached (driver_of s) = [4]"
    "phase (lunix_protocol_state (driver_of s)) = SEEKING_START_BYTE" "opened s 0 = Some x"
    "priv x = sample_chrdev" "calls x 7 = Asleep 0 99"
    by (rule sleeping_run)
  have a: "4 \<in> set (attached (driver_of s))" "16 \<le> unat (99 :: u64)" "0 < lock (priv x)"
    "length [1, 2 :: u8] = 2" "length [0, 0, 0, 0, 0, 0, 0 :: u8] = 7" "True \<longrightarrow> length (encode_frame sample_report) < 50"
    "unat (2 :: u16) = Suc (sensor (priv x))" "buf_timestamp (priv x) < ucast (9 :: u64)"
    by (simp_all add: s(2,5) sample_chrdev_def blank_chrdev_def length_encode_sample)
  obtain s1 es1 s2 x2 where "system_step ?lookup False True s (Tty (Line 4 9 (encode_frame sample_report)) 0) s1"
    "system_run ?lookup False True s1 es1 s2" "opened s2 0 = Some x2"
    "calls x2 7 = Returned (int (length (reading_text 1 234))) 0 (reading_text 1 234)"
    using report_reaches_reader [OF bare_bare s(1) a(1) s(3,4,6) a(2,3) sample_report_wf a(4-8)] v by auto
  then show ?thesis using system_run_append [OF s(1) step] by blast
qed

end
