(* ===== verification/Tables.thy ===== *)
theory Tables
  imports Complex_Main Prelude
begin

text \<open>
  The generator of the lookup tables, \<open>mk_lookup_tables.c\<close>. Floating point is real arithmetic with a
  rounding function \<open>rnd\<close> after every operation; what is used of it is that it is monotone, exact on
  integers and has the relative error of a double. The temperature conversion also needs infinities
  and NaN: for the raw value 0 it divides by 0, at 1023 it takes the logarithm of 0, and above that of
  a negative number. \<open>log\<close> and \<open>pow(_, 3)\<close> of the C library on positive numbers are parameters.
\<close>

section \<open>The conversions\<close>

text \<open>The conversion of a double to a long.\<close>

definition to_long :: "real \<Rightarrow> int" where
  "to_long x = (if x < 0 then \<lceil>x\<rceil> else \<lfloor>x\<rfloor>)"

definition uint16_to_batt :: "(real \<Rightarrow> real) \<Rightarrow> u16 \<Rightarrow> int" where
  "uint16_to_batt rnd v =
     (let d = (if v \<noteq> 0 then rnd (rnd 1.223 * rnd (1023 / of_nat (unat v))) else 0)
      in to_long (rnd (d * 1000)))"

definition uint16_to_light :: "(real \<Rightarrow> real) \<Rightarrow> u16 \<Rightarrow> int" where
  "uint16_to_light rnd v = to_long (rnd (rnd (of_nat (unat v) * 5000000) / 65535))"












text \<open>The rows that \<open>main\<close> prints for a table, four entries each, up to \<open>0xFFFC\<close>.\<close>

definition table_row :: "(u16 \<Rightarrow> int) \<Rightarrow> nat \<Rightarrow> int list" where
  "table_row f k = [f (of_nat (4 * k)), f (of_nat (4 * k + 1)), f (of_nat (4 * k + 2)), f (of_nat (4 * k + 3))]"

definition lookup_table :: "(u16 \<Rightarrow> int) \<Rightarrow> int list" where
  "lookup_table f = concat (map (table_row f) [0..<0x4000])"

section \<open>Lemmas\<close>

text \<open>IEEE double precision, as far as it is used.\<close>

definition double_rounding :: "(real \<Rightarrow> real) \<Rightarrow> bool" where
  "double_rounding rnd \<longleftrightarrow> (\<forall>n :: int. \<bar>n\<bar> \<le> 2 ^ 53 \<longrightarrow> rnd (of_int n) = of_int n)
     \<and> (\<forall>x. 1 / 2 ^ 100 \<le> x \<longrightarrow> x \<le> 2 ^ 100 \<longrightarrow> \<bar>rnd x - x\<bar> \<le> x / 2 ^ 53)"

lemma rnd_nat: "double_rounding rnd \<Longrightarrow> n \<le> 2 ^ 53 \<Longrightarrow> rnd (of_nat n) = of_nat n"
proof -
  assume "double_rounding rnd" "n \<le> 2 ^ 53"
  then have "rnd (of_int (int n)) = of_int (int n)" unfolding double_rounding_def by (metis abs_of_nat numeral_power_le_of_nat_cancel_iff of_nat_le_numeral_power_cancel_iff)
  then show ?thesis by simp
qed

lemma row:
  "length (table_row f k) = 4" "j < 4 \<Longrightarrow> table_row f k ! j = f (of_nat (4 * k + j))"
proof -
  assume "j < 4"
  then consider "j = 0" | "j = 1" | "j = 2" | "j = 3" by linarith
  then show "table_row f k ! j = f (of_nat (4 * k + j))" by cases (simp_all add: table_row_def)
qed (simp add: table_row_def)

lemma concat_rows:
  "length (concat (map (table_row f) [0..<k])) = 4 * k"
  "i < 4 * k \<Longrightarrow> concat (map (table_row f) [0..<k]) ! i = f (of_nat i)"
proof -
  show len: "length (concat (map (table_row f) [0..<k])) = 4 * k" for k
    by (induction k) (simp_all add: row)
  show "i < 4 * k \<Longrightarrow> concat (map (table_row f) [0..<k]) ! i = f (of_nat i)"
  proof (induction k)
    case (Suc k)
    show ?case
    proof (cases "i < 4 * k")
      case False
      then show ?thesis using Suc.prems row(2) [of "i - 4 * k" f k] by (simp add: nth_append len)
    qed (use Suc in \<open>simp add: nth_append len\<close>)
  qed simp
qed

lemma lookup_table_nth: "length (lookup_table f) = 65536" "lookup_table f ! unat v = f v"
proof -
  show "length (lookup_table f) = 65536" by (simp add: lookup_table_def concat_rows)
  have "unat v < 4 * 0x4000" using unsigned_less [of v, where ?'a = nat] by simp
  then have "lookup_table f ! unat v = f (of_nat (unat v))" unfolding lookup_table_def by (rule concat_rows)
  then show "lookup_table f ! unat v = f v" by simp
qed

text \<open>A rounded quotient by 65535 of a number that is not too large has the floor of the exact one: the
  nearest other integer is at least 1/65535 away.\<close>

lemma rounded_quotient:
  fixes q r :: nat
  assumes "double_rounding rnd" "q \<le> 5000000" "r < 65535"
  shows "to_long (rnd ((real q * 65535 + real r) / 65535)) = int q"
proof -
  let ?x = "(real q * 65535 + real r) / 65535"
  have x: "?x = real q + real r / 65535" by (simp add: field_simps)
  show ?thesis
  proof (cases "r = 0")
    case True
    then have "rnd ?x = real q" using x rnd_nat [OF assms(1), of q] assms(2) by simp
    then show ?thesis by (simp only: to_long_def) simp
  next
    case False
    then have r: "1 \<le> real r" "real r \<le> 65534" using assms(3) by simp_all
    have q: "real q \<le> 5000000" using assms(2) by simp
    have "1 / 65535 \<le> real r / 65535" "real r / 65535 \<le> 1 - 1 / 65535" using r by simp_all
    then have b: "real q + 1 / 65535 \<le> ?x" "?x \<le> real q + 1 - 1 / 65535" unfolding x by linarith+
    have big: "1 / 2 ^ 100 \<le> (1 / 65535 :: real)" "(5000001 :: real) \<le> 2 ^ 100" "0 \<le> real q" by simp_all
    have "1 / 2 ^ 100 \<le> ?x" by (rule order_trans [OF big(1)]) (use b(1) big(3) in linarith)
    moreover have "?x \<le> 2 ^ 100" by (rule order_trans [OF _ big(2)]) (use b(2) q in linarith)
    ultimately have "\<bar>rnd ?x - ?x\<bar> \<le> ?x / 2 ^ 53" using assms(1) unfolding double_rounding_def by blast
    moreover have "?x / 2 ^ 53 < 1 / 65535" using b(2) q by simp
    ultimately have "real q < rnd ?x" "rnd ?x < real q + 1" using b by linarith+
    then have "\<lfloor>rnd ?x\<rfloor> = int q" "\<not> rnd ?x < 0" by linarith+
    then show ?thesis by (simp only: to_long_def) simp
  qed
qed

lemma light_exact:
  assumes "double_rounding rnd"
  shows "uint16_to_light rnd v = int (unat v * 5000000 div 65535)"
proof -
  obtain n where n: "n = unat v" by blast
  have v: "n \<le> 65535" using unsigned_less [of v, where ?'a = nat] n by simp
  have a: "n * 5000000 \<le> 2 ^ 53" using v by simp
  have prod: "rnd (real n * 5000000) = real (n * 5000000)"
    using rnd_nat [OF assms a] by (simp only: of_nat_mult of_nat_numeral)
  have "real (n * 5000000) = real (n * 5000000 div 65535 * 65535 + n * 5000000 mod 65535)"
    by (simp only: div_mult_mod_eq)
  then have split: "real (n * 5000000) = real (n * 5000000 div 65535) * 65535 + real (n * 5000000 mod 65535)"
    by (simp only: of_nat_add of_nat_mult of_nat_numeral)
  have "n * 5000000 div 65535 \<le> 65535 * 5000000 div 65535" using v by (intro div_le_mono) simp
  then have "to_long (rnd (real (n * 5000000) / 65535)) = int (n * 5000000 div 65535)"
    unfolding split by (intro rounded_quotient [OF assms]) simp_all
  then show ?thesis unfolding uint16_to_light_def n [symmetric] prod .
qed

text \<open>The relative form of the rounding error, and the four roundings of the battery conversion.\<close>

definition eps :: real where "eps = 1 / 2 ^ 53"

lemma eps_bounds: "0 < eps" "eps \<le> 1 / 1000000000"
  by (simp_all add: eps_def)

lemma eps_powers:
  "1 - 4 * eps \<le> (1 - eps) * (1 - eps) * (1 - eps) * (1 - eps)"
  "(1 + eps) * (1 + eps) * (1 + eps) * (1 + eps) \<le> 1 + 15 * eps"
proof -
  have e: "0 \<le> eps" "eps * eps \<le> eps" using eps_bounds by (simp_all add: mult_left_le)
  have l: "1 - 2 * eps \<le> (1 - eps) * (1 - eps)" "0 \<le> 1 - 2 * eps"
    using eps_bounds by (simp_all add: algebra_simps)
  have "1 - 4 * eps \<le> (1 - 2 * eps) * (1 - 2 * eps)" using e(1) by (simp add: algebra_simps)
  also have "\<dots> \<le> ((1 - eps) * (1 - eps)) * ((1 - eps) * (1 - eps))" using l by (intro mult_mono) simp_all
  finally show "1 - 4 * eps \<le> (1 - eps) * (1 - eps) * (1 - eps) * (1 - eps)" by (simp only: mult.assoc)
  have u: "(1 + eps) * (1 + eps) \<le> 1 + 3 * eps" "0 \<le> 1 + 3 * eps" using e by (simp_all add: algebra_simps)
  have "((1 + eps) * (1 + eps)) * ((1 + eps) * (1 + eps)) \<le> (1 + 3 * eps) * (1 + 3 * eps)"
    using u e(1) by (intro mult_mono) simp_all
  also have "\<dots> \<le> 1 + 15 * eps" using e by (simp add: algebra_simps)
  finally show "(1 + eps) * (1 + eps) * (1 + eps) * (1 + eps) \<le> 1 + 15 * eps" by (simp only: mult.assoc)
qed

lemma rnd_rel:
  assumes "double_rounding rnd" "1 / 1000 \<le> x" "x \<le> 100000000"
  shows "x * (1 - eps) \<le> rnd x" "rnd x \<le> x * (1 + eps)"
proof -
  have small: "1 / 2 ^ 100 \<le> (1 / 1000 :: real)" "(100000000 :: real) \<le> 2 ^ 100" by simp_all
  have "\<bar>rnd x - x\<bar> \<le> x / 2 ^ 53"
    using assms(1) order_trans [OF small(1) assms(2)] order_trans [OF assms(3) small(2)]
    unfolding double_rounding_def by blast
  then have "\<bar>rnd x - x\<bar> \<le> x * eps" by (simp only: eps_def times_divide_eq_right mult_1_right)
  then have e: "x - x * eps \<le> rnd x" "rnd x \<le> x + x * eps"
    unfolding abs_le_iff by (simp_all add: diff_le_eq le_diff_eq add.commute)
  have "x * (1 - eps) = x - x * eps" "x * (1 + eps) = x + x * eps"
    by (simp_all only: right_diff_distrib distrib_left mult_1_right)
  then show "x * (1 - eps) \<le> rnd x" "rnd x \<le> x * (1 + eps)" using e by simp_all
qed

text \<open>One rounding changes a factor by at most a half.\<close>

lemma eps_coarse:
  assumes "0 \<le> (x :: real)"
  shows "x / 2 \<le> x * (1 - eps)" "x * (1 + eps) \<le> 2 * x"
proof -
  have "x * (1 / 2) \<le> x * (1 - eps)" "x * (1 + eps) \<le> x * 2"
    using assms eps_bounds by (intro mult_left_mono; simp)+
  then show "x / 2 \<le> x * (1 - eps)" "x * (1 + eps) \<le> 2 * x" by simp_all
qed

lemma batt_close:
  fixes n :: nat
  assumes rnd: "double_rounding rnd" and "1 \<le> n" "n \<le> 65535"
  shows "\<bar>rnd (rnd (rnd 1.223 * rnd (1023 / real n)) * 1000) - 1251129 / real n\<bar> < 1 / 2"
proof -
  define l where "l = 1 - eps"
  define u where "u = 1 + eps"
  have lu: "0 \<le> l" "0 \<le> u" using eps_bounds by (simp_all add: l_def u_def)
  define x where "x = 1023 / real n"
  have n: "1 \<le> real n" "real n \<le> 65535" using assms(2,3) by simp_all
  have x: "1 / 100 \<le> x" "x \<le> 1023" using n by (simp_all add: x_def field_simps)
  define y where "y = rnd 1.223"
  define z where "z = rnd x"
  define p where "p = rnd (y * z)"
  define s where "s = rnd (p * 1000)"
  have y: "1.223 * l \<le> y" "y \<le> 1.223 * u"
    unfolding y_def l_def u_def by (rule rnd_rel [OF rnd]; simp)+
  have z: "x * l \<le> z" "z \<le> x * u"
    unfolding z_def l_def u_def by (rule rnd_rel [OF rnd]; use x in simp)+
  have yc: "1 / 2 \<le> y" "y \<le> 3"
    using y eps_coarse [of "1.223"] by (simp_all add: l_def u_def)
  have zc: "x / 2 \<le> z" "z \<le> 2 * x"
    using z(1) z(2) order_trans [OF eps_coarse(1) z(1) [unfolded l_def]] order_trans [OF z(2) [unfolded u_def] eps_coarse(2)] x
    by simp_all
  have yz1: "1.223 * l * (x * l) \<le> y * z"
    by (rule mult_mono [OF y(1) z(1)]) (use x yc lu in simp_all)
  have yz2: "y * z \<le> 1.223 * u * (x * u)"
    by (rule mult_mono [OF y(2) z(2)]) (use x zc lu in simp_all)
  note yz = yz1 yz2
  have yzc1: "1 / 2 * (x / 2) \<le> y * z"
    by (rule mult_mono [OF yc(1) zc(1)]) (use x yc in simp_all)
  have yzc2: "y * z \<le> 3 * (2 * x)"
    by (rule mult_mono [OF yc(2) zc(2)]) (use x zc in simp_all)
  note yzc = yzc1 yzc2
  have p: "y * z * l \<le> p" "p \<le> y * z * u"
    unfolding p_def l_def u_def by (rule rnd_rel [OF rnd]; use x yzc in simp)+
  have pc: "x / 8 \<le> p" "p \<le> 12 * x"
    using order_trans [OF eps_coarse(1) p(1) [unfolded l_def]] order_trans [OF p(2) [unfolded u_def] eps_coarse(2)] x yzc
    by simp_all
  have s: "p * 1000 * l \<le> s" "s \<le> p * 1000 * u"
    unfolding s_def l_def u_def by (rule rnd_rel [OF rnd]; use x pc in simp)+
  have lo: "1.223 * l * (x * l) * l * 1000 * l \<le> s"
  proof -
    have "1.223 * l * (x * l) * l \<le> p" by (rule order_trans [OF mult_right_mono [OF yz(1) lu(1)] p(1)])
    then have "1.223 * l * (x * l) * l * 1000 * l \<le> p * 1000 * l" using lu by (intro mult_right_mono) simp_all
    then show ?thesis using s(1) by (rule order_trans)
  qed
  have hi: "s \<le> 1.223 * u * (x * u) * u * 1000 * u"
  proof -
    have "p \<le> 1.223 * u * (x * u) * u" by (rule order_trans [OF p(2) mult_right_mono [OF yz(2) lu(2)]])
    then have "p * 1000 * u \<le> 1.223 * u * (x * u) * u * 1000 * u" using lu by (intro mult_right_mono) simp_all
    with s(2) show ?thesis by (rule order_trans)
  qed
  have c: "1.223 * l * (x * l) * l * 1000 * l = 1223 * x * (l * l * l * l)"
    "1.223 * u * (x * u) * u * 1000 * u = 1223 * x * (u * u * u * u)" by simp_all
  have "1223 * x * (1 - 4 * eps) \<le> 1223 * x * (l * l * l * l)" "1223 * x * (u * u * u * u) \<le> 1223 * x * (1 + 15 * eps)"
    using eps_powers x unfolding l_def u_def by (intro mult_left_mono; simp)+
  then have b: "1223 * x * (1 - 4 * eps) \<le> s" "s \<le> 1223 * x * (1 + 15 * eps)"
    using lo hi unfolding c by linarith+
  define e where "e = 1223 * x"
  define t where "t = e * eps"
  have "e * eps \<le> (1223 * 1023) * (1 / 1000000000)"
    unfolding e_def using x eps_bounds by (intro mult_mono) simp_all
  also have "\<dots> \<le> 1 / 100" by simp
  finally have t: "0 \<le> t" "t \<le> 1 / 100" using x eps_bounds by (simp_all add: t_def e_def)
  have "e * (1 - 4 * eps) = e - 4 * t" "e * (1 + 15 * eps) = e + 15 * t"
    by (simp_all add: t_def algebra_simps)
  then have "e - 4 * t \<le> s" "s \<le> e + 15 * t" using b unfolding e_def by simp_all
  then have "\<bar>s - e\<bar> < 1 / 2" using t unfolding abs_less_iff by (intro conjI) simp_all
  then have "\<bar>s - 1223 * x\<bar> < 1 / 2" by (simp only: e_def)
  moreover have "1223 * x = 1251129 / real n" by (simp add: x_def)
  ultimately show ?thesis by (simp add: s_def p_def y_def z_def x_def)
qed

lemma batt_zero: "double_rounding rnd \<Longrightarrow> uint16_to_batt rnd 0 = 0"
  using rnd_nat [of rnd 0] by (simp add: uint16_to_batt_def to_long_def)

lemma batt_near:
  assumes "double_rounding rnd" "v \<noteq> 0"
  shows "\<bar>uint16_to_batt rnd v - int (1251129 div unat v)\<bar> \<le> 1"
proof -
  obtain n where n: "n = unat v" by blast
  have b: "1 \<le> n" "n \<le> 65535"
    using assms(2) unsigned_less [of v, where ?'a = nat] n by (simp_all add: unat_gt_0 Suc_leI)
  define s where "s = rnd (rnd (rnd 1.223 * rnd (1023 / real n)) * 1000)"
  have close: "\<bar>s - 1251129 / real n\<bar> < 1 / 2" unfolding s_def by (rule batt_close [OF assms(1) b])
  have "1251129 div n * n + 1251129 mod n = 1251129" "1251129 mod n < n" using b(1) by simp_all
  then have q: "real (1251129 div n) * real n + real (1251129 mod n) = 1251129" "real (1251129 mod n) < real n"
    by (metis of_nat_add of_nat_mult of_nat_numeral, simp)
  have r: "1251129 / real n = real (1251129 div n) + real (1251129 mod n) / real n"
    using q(1) b(1) by (simp add: field_simps)
  have f: "0 \<le> real (1251129 mod n) / real n" "real (1251129 mod n) / real n < 1" using q(2) b(1) by simp_all
  have "1 \<le> 1251129 / real n" using b by (simp add: field_simps)
  then have "\<not> s < 0" using close by linarith
  moreover have "\<bar>\<lfloor>s\<rfloor> - int (1251129 div n)\<bar> \<le> 1" using close r f by linarith
  ultimately show ?thesis
    using assms(2) by (simp add: uint16_to_batt_def to_long_def s_def n [symmetric])
qed

section \<open>The temperature\<close>



















section \<open>Properties\<close>

text \<open>The generated tables, for any correct rounding of doubles. A table has an entry for each of
  the 65536 raw values, at its index. The light entry of a value is exactly its share of 5000 in
  thousandths, rounded down; the battery entry is within one thousandth of 1.223 * 1023 divided by the
  value, and 0 for 0.\<close>

theorem generated_tables:
  fixes v :: u16
  assumes "double_rounding rnd"
  shows "length (lookup_table (uint16_to_light rnd)) = 65536 \<and> length (lookup_table (uint16_to_batt rnd)) = 65536
    \<and> lookup_table (uint16_to_light rnd) ! unat v = int (unat v * 5000000 div 65535)
    \<and> (if v = 0 then lookup_table (uint16_to_batt rnd) ! unat v = 0
       else \<bar>lookup_table (uint16_to_batt rnd) ! unat v - int (1251129 div unat v)\<bar> \<le> 1)"
  unfolding lookup_table_nth using light_exact [OF assms] batt_near [OF assms] batt_zero [OF assms] by simp

text \<open>Exact arithmetic is a correct rounding.\<close>

lemma generated_tables_witness:
  "lookup_table (uint16_to_light (\<lambda>x. x)) ! unat (512 :: u16) = 39063
   \<and> \<bar>lookup_table (uint16_to_batt (\<lambda>x. x)) ! unat (512 :: u16) - 2443\<bar> \<le> 1"
proof -
  have "double_rounding (\<lambda>x. x)" by (simp add: double_rounding_def)
  from generated_tables [OF this, of 512] show ?thesis by simp
qed



end
