(* ===== verification/TableText.thy ===== *)
theory TableText
  imports Tables Chrdev
begin

text \<open>
  The file that \<open>mk_lookup_tables.c\<close> writes, \<open>lunix-tables.h\<close>, as text; what the compiler makes of it;
  and what the readers of the driver that is built with it are shown.
\<close>

section \<open>The text\<close>

text \<open>A line feed and a tab; a row of four numbers, with the separator after it; a table.\<close>

abbreviation nl :: string where "nl \<equiv> [CHR 0x0A]"
abbreviation tab :: string where "tab \<equiv> [CHR 0x09]"

definition row_text :: "(u16 \<Rightarrow> int) \<Rightarrow> nat \<Rightarrow> string" where
  "row_text f i =
     tab @ print_int (f (of_nat i)) @ '', '' @ print_int (f (of_nat (i + 1))) @ '', ''
       @ print_int (f (of_nat (i + 2))) @ '', '' @ print_int (f (of_nat (i + 3)))
       @ (if i \<noteq> 0xFFFC then '','' @ nl else nl)"

definition rows_text :: "(u16 \<Rightarrow> int) \<Rightarrow> string" where
  "rows_text f = concat (map (\<lambda>k. row_text f (4 * k)) [0..<0x4000])"

definition comment_text :: "string \<Rightarrow> string" where
  "comment_text src =
     ''/*'' @ nl @
     '' * lunix-tables.h'' @ nl @
     '' *'' @ nl @
     '' * Machine-generated file. DO NOT EDIT.'' @ nl @
     '' * See '' @ src @ '' instead.'' @ nl @
     '' *'' @ nl @
     '' * Instead of doing floating-point in kernelspace,'' @ nl @
     '' * use the following lookup tables to convert 16-bit'' @ nl @
     '' * raw measurements to floating point values.'' @ nl @
     '' */'' @ nl @
     nl"

text \<open>The output of \<open>main\<close>; \<open>src\<close> is \<open>__FILE__\<close>.\<close>

definition mk_main :: "string \<Rightarrow> (u16 \<Rightarrow> int) \<Rightarrow> (u16 \<Rightarrow> int) \<Rightarrow> (u16 \<Rightarrow> int) \<Rightarrow> string" where
  "mk_main src temp batt light =
     comment_text src @ ''long lookup_temperature[65536] = {'' @ nl @ rows_text temp
     @ ''};'' @ nl @ nl @ ''long lookup_voltage[65536] = {'' @ nl @ rows_text batt
     @ ''};'' @ nl @ nl @ ''long lookup_light[65536] = {'' @ nl @ rows_text light
     @ ''};'' @ nl @ nl"

section \<open>What the compiler reads\<close>

text \<open>
  The numbers of an initializer, up to the closing brace. Between two numbers there is one comma, blanks
  are allowed around the numbers, and a comma after the last number as well; anything else is refused.
\<close>

datatype number_state = Wanted | Minus | Digits bool nat | Complete int

definition is_dec :: "char \<Rightarrow> bool" where
  "is_dec c \<longleftrightarrow> 48 \<le> (of_char c :: nat) \<and> (of_char c :: nat) \<le> 57"

definition is_blank :: "char \<Rightarrow> bool" where
  "is_blank c \<longleftrightarrow> c = CHR '' '' \<or> c = CHR 0x09 \<or> c = CHR 0x0A"

fun next_digit :: "number_state \<Rightarrow> nat \<Rightarrow> number_state option" where
  "next_digit Wanted d = Some (Digits False d)"
| "next_digit Minus d = Some (Digits True d)"
| "next_digit (Digits neg n) d = Some (Digits neg (10 * n + d))"
| "next_digit (Complete i) d = None"

fun the_number :: "number_state \<Rightarrow> int option" where
  "the_number (Digits neg n) = Some (if neg then - int n else int n)"
| "the_number (Complete i) = Some i"
| "the_number _ = None"

fun read_numbers :: "number_state \<Rightarrow> string \<Rightarrow> int list option" where
  "read_numbers st [] = None"
| "read_numbers st (c # cs) =
     (if is_dec c then
        case next_digit st (digit_value c) of None \<Rightarrow> None | Some st' \<Rightarrow> read_numbers st' cs
      else if c = CHR ''-'' then
        if st = Wanted then read_numbers Minus cs else None
      else if is_blank c then
        if st = Wanted then read_numbers Wanted cs
        else case the_number st of None \<Rightarrow> None | Some i \<Rightarrow> read_numbers (Complete i) cs
      else if c = CHR '','' then
        case the_number st of None \<Rightarrow> None | Some i \<Rightarrow> map_option ((#) i) (read_numbers Wanted cs)
      else if c = CHR ''}'' then
        if st = Wanted then Some [] else map_option (\<lambda>i. [i]) (the_number st)
      else None)"

text \<open>Comments are skipped, and the declarations of arrays are read one after the other.\<close>

fun skip_comment :: "string \<Rightarrow> string" where
  "skip_comment (c # d # cs) = (if c = CHR ''*'' \<and> d = CHR ''/'' then cs else skip_comment (d # cs))"
| "skip_comment cs = []"

definition after :: "char \<Rightarrow> string \<Rightarrow> string" where
  "after c s = tl (dropWhile (\<lambda>d. d \<noteq> c) s)"

lemma length_after: "length (after c s) \<le> length s"
  using length_dropWhile_le [of "\<lambda>d. d \<noteq> c" s] by (simp add: after_def)

function read_arrays :: "string \<Rightarrow> (string \<times> int list) list option" where
  "read_arrays s =
     (let s = dropWhile (\<lambda>c. c = CHR 0x0A) s in
      if s = [] then Some []
      else if take 5 s = ''long '' then do {
        numbers \<leftarrow> read_numbers Wanted (after CHR ''{'' s);
        arrays \<leftarrow> read_arrays (after CHR '';'' (drop 5 s));
        Some ((takeWhile (\<lambda>c. c \<noteq> CHR ''['') (drop 5 s), numbers) # arrays)
      }
      else None)"
  by pat_completeness auto

termination
proof (relation "measure length")
  fix s x
  assume x: "x = dropWhile (\<lambda>c. c = CHR 0x0A) s" and long: "take 5 x = ''long ''"
  have "length (take 5 x) = 5" unfolding long by simp
  then have "5 \<le> length x" by simp
  then have "length (after CHR '';'' (drop 5 x)) < length x"
    using length_after [of "CHR '';''" "drop 5 x"] by simp
  also have "length x \<le> length s" unfolding x by (rule length_dropWhile_le)
  finally show "(after CHR '';'' (drop 5 x), s) \<in> measure length" by simp
qed simp

definition read_header :: "string \<Rightarrow> (string \<times> int list) list option" where
  "read_header s = read_arrays (skip_comment s)"

declare read_arrays.simps [simp del]

section \<open>Reading back what was written\<close>

lemma is_dec_digit: "n < 10 \<Longrightarrow> is_dec (digit n)"
  by (simp add: is_dec_def digit_def)

lemma dec_is_dec: "c \<in> set (dec n) \<Longrightarrow> is_dec c"
  using dec_digits is_dec_digit by blast

lemma read_digits:
  "\<forall>c \<in> set ds. is_dec c \<Longrightarrow>
    read_numbers (Digits neg n) (ds @ rest) = read_numbers (Digits neg (foldl (\<lambda>a c. 10 * a + digit_value c) n ds)) rest"
  by (induction ds arbitrary: n) simp_all

lemma read_dec:
  "read_numbers Wanted (dec n @ rest) = read_numbers (Digits False n) rest"
  "read_numbers Minus (dec n @ rest) = read_numbers (Digits True n) rest"
proof -
  obtain e es where e: "dec n = e # es" using dec_nonempty by (metis neq_Nil_conv)
  then have d: "is_dec e" "\<forall>c \<in> set es. is_dec c" using dec_is_dec by (metis list.set_intros)+
  have "foldl (\<lambda>a c. 10 * a + digit_value c) (digit_value e) es = n"
    using undec_dec [of n] by (simp add: undec_def e)
  then show "read_numbers Wanted (dec n @ rest) = read_numbers (Digits False n) rest"
    "read_numbers Minus (dec n @ rest) = read_numbers (Digits True n) rest"
    using d by (simp_all add: e read_digits)
qed

text \<open>A printed number, followed by a comma, or by a line feed and the closing brace; a blank.\<close>

lemma not_dec: "\<not> is_dec CHR ''-''" "\<not> is_dec CHR '',''" "\<not> is_dec CHR 0x0A" "\<not> is_dec CHR ''}''"
  "\<not> is_dec CHR '' ''" "\<not> is_dec CHR 0x09"
  by (simp_all add: is_dec_def)

lemma read_int:
  "read_numbers Wanted (print_int i @ CHR '','' # rest) = map_option ((#) i) (read_numbers Wanted rest)"
  "read_numbers Wanted (print_int i @ CHR 0x0A # CHR ''}'' # rest) = Some [i]"
  by (simp_all add: print_int_def read_dec not_dec is_blank_def)

lemma read_blank: "c \<in> {CHR '' '', CHR 0x09, CHR 0x0A} \<Longrightarrow> read_numbers Wanted (c # rest) = read_numbers Wanted rest"
  by (auto simp: not_dec is_blank_def)

lemma read_row:
  "k \<noteq> 0x3FFF \<Longrightarrow> read_numbers Wanted (row_text f (4 * k) @ rest) = map_option (\<lambda>ns. table_row f k @ ns) (read_numbers Wanted rest)"
  "read_numbers Wanted (row_text f 0xFFFC @ CHR ''}'' # rest) = Some (table_row f 0x3FFF)"
  by (simp_all add: row_text_def table_row_def read_int read_blank option.map_comp comp_def del: read_numbers.simps)

lemma read_rows:
  "0x3FFF \<notin> set ks \<Longrightarrow> read_numbers Wanted (concat (map (\<lambda>k. row_text f (4 * k)) ks) @ rest) =
    map_option (\<lambda>ns. concat (map (table_row f) ks) @ ns) (read_numbers Wanted rest)"
  by (induction ks; cases "read_numbers Wanted rest") (simp_all add: read_row(1) del: read_numbers.simps)

lemma read_table: "read_numbers Wanted (rows_text f @ CHR ''}'' # rest) = Some (lookup_table f)"
proof -
  have rows: "[0..<0x4000] = [0..<0x3FFF] @ [0x3FFF :: nat]" using upt_Suc_append [of 0 "0x3FFF"] by simp
  have "rows_text f @ CHR ''}'' # rest = concat (map (\<lambda>k. row_text f (4 * k)) [0..<0x3FFF]) @ row_text f 0xFFFC @ CHR ''}'' # rest"
    unfolding rows_text_def rows by simp
  moreover have "0x3FFF \<notin> set [0..<0x3FFF :: nat]" by (simp only: set_upt atLeastLessThan_iff, simp)
  ultimately show ?thesis unfolding lookup_table_def rows by (simp add: read_rows read_row(2) del: read_numbers.simps)
qed

lemma rows_text_plain:
  assumes "c \<in> {CHR ''{'', CHR '';''}"
  shows "c \<notin> set (rows_text f)"
proof -
  have nd: "c \<notin> set (dec n)" for n using dec_is_dec [of c n] assms by (auto simp: is_dec_def)
  then have "c \<notin> set (print_int i)" for i using assms by (auto simp: print_int_def)
  then show ?thesis using assms by (auto simp: rows_text_def row_text_def)
qed

lemma after_plain: "c \<notin> set xs \<Longrightarrow> after c (xs @ c # ys) = ys"
  unfolding after_def by (subst dropWhile_append2) auto

lemma read_declaration:
  assumes "name \<in> {''lookup_temperature'', ''lookup_voltage'', ''lookup_light''}" "set ls \<subseteq> {CHR 0x0A}"
  shows "read_arrays (ls @ ''long '' @ name @ ''[65536] = {'' @ nl @ rows_text f @ ''};'' @ rest) =
    map_option ((#) (name, lookup_table f)) (read_arrays rest)"
proof -
  let ?s = "''long '' @ name @ ''[65536] = {'' @ nl @ rows_text f @ ''};'' @ rest"
  have s: "dropWhile (\<lambda>c. c = CHR 0x0A) (ls @ ?s) = ?s" using assms(2) by (subst dropWhile_append2) auto
  have open_brace: "after CHR ''{'' ?s = nl @ rows_text f @ ''};'' @ rest"
    using after_plain [of "CHR ''{''" "''long '' @ name @ ''[65536] = ''" "nl @ rows_text f @ ''};'' @ rest"] assms(1) by auto
  have semicolon: "after CHR '';'' (drop 5 ?s) = rest"
    using after_plain [of "CHR '';''" "name @ ''[65536] = {'' @ nl @ rows_text f @ ''}''" rest] assms(1)
      rows_text_plain [of "CHR '';''" f] by auto
  have name: "takeWhile (\<lambda>c. c \<noteq> CHR ''['') (drop 5 ?s) = name"
    using assms(1) by auto
  have numbers: "read_numbers Wanted (nl @ rows_text f @ ''};'' @ rest) = Some (lookup_table f)"
    using read_table [of f "'';'' @ rest"] by (simp add: read_blank del: read_numbers.simps)
  show ?thesis
    by (subst read_arrays.simps) (simp only: s open_brace semicolon name numbers Let_def, cases "read_arrays rest"; simp)
qed

lemma skip_one: "c \<noteq> CHR ''*'' \<Longrightarrow> cs \<noteq> [] \<Longrightarrow> skip_comment (c # cs) = skip_comment cs"
  by (cases cs) simp_all

lemma skip_plain: "CHR ''*'' \<notin> set xs \<Longrightarrow> ys \<noteq> [] \<Longrightarrow> skip_comment (xs @ ys) = skip_comment ys"
  by (induction xs) (auto simp: skip_one)

lemma skip_star: "d \<noteq> CHR ''/'' \<Longrightarrow> skip_comment (CHR ''*'' # d # cs) = skip_comment (d # cs)"
  by simp

lemma skip_header_comment: "CHR ''*'' \<notin> set src \<Longrightarrow> skip_comment (comment_text src @ rest) = nl @ nl @ rest"
  by (simp add: comment_text_def skip_one skip_plain)

text \<open>The text of \<open>main\<close> has the three arrays.\<close>

lemma read_mk_main:
  assumes "CHR ''*'' \<notin> set src"
  shows "read_header (mk_main src temp batt light) =
    Some [(''lookup_temperature'', lookup_table temp), (''lookup_voltage'', lookup_table batt), (''lookup_light'', lookup_table light)]"
proof -
  let ?e = "nl @ nl" and ?t = "''lookup_temperature''" and ?v = "''lookup_voltage''" and ?l = "''lookup_light''"
  have fin: "read_arrays ?e = Some []" by (subst read_arrays.simps) simp
  have "read_header (mk_main src temp batt light) = read_arrays (?e @ ''long '' @ ?t @ ''[65536] = {'' @ nl @ rows_text temp @ ''};'' @
      ?e @ ''long '' @ ?v @ ''[65536] = {'' @ nl @ rows_text batt @ ''};'' @
      ?e @ ''long '' @ ?l @ ''[65536] = {'' @ nl @ rows_text light @ ''};'' @ ?e)"
    unfolding read_header_def mk_main_def skip_header_comment [OF assms] by simp
  then show ?thesis
    using read_declaration [of ?t ?e temp] read_declaration [of ?v ?e batt] read_declaration [of ?l ?e light ?e] fin by simp
qed

section \<open>The driver that includes the header\<close>

text \<open>The array that \<open>lunix_chrdev_state_update\<close> looks the value up in, and the \<open>long\<close> it finds there.\<close>

fun lookup_array :: "lunix_msr_enum \<Rightarrow> string" where
  "lookup_array BATT = ''lookup_voltage''"
| "lookup_array TEMP = ''lookup_temperature''"
| "lookup_array LIGHT = ''lookup_light''"

definition header_lookup :: "string \<Rightarrow> lookup_tables" where
  "header_lookup header k v = word_of_int (the (map_of (the (read_header header)) (lookup_array k)) ! unat v)"

fun conversion :: "(u16 \<Rightarrow> int) \<Rightarrow> (u16 \<Rightarrow> int) \<Rightarrow> (u16 \<Rightarrow> int) \<Rightarrow> lunix_msr_enum \<Rightarrow> u16 \<Rightarrow> int" where
  "conversion temp batt light BATT = batt"
| "conversion temp batt light TEMP = temp"
| "conversion temp batt light LIGHT = light"

lemma header_lookup_conversion:
  assumes "CHR ''*'' \<notin> set src"
  shows "header_lookup (mk_main src temp batt light) k v = word_of_int (conversion temp batt light k v)"
  by (cases k) (simp_all add: header_lookup_def read_mk_main [OF assms] lookup_table_nth)

lemma sint_small:
  assumes "\<bar>x\<bar> < 2000000000000"
  shows "sint (word_of_int x :: u64) = x"
proof -
  have "- (2 ^ 63) \<le> x" "x < 2 ^ 63" using assms by simp_all
  then show ?thesis by (simp add: sint_sbintrunc' signed_take_bit_int_eq_self)
qed

lemma batt_small:
  assumes "double_rounding rnd"
  shows "\<bar>uint16_to_batt rnd v\<bar> \<le> 1251130"
proof (cases "v = 0")
  case False
  have "int (1251129 div unat v) \<le> int 1251129" unfolding of_nat_le_iff by (rule div_le_dividend)
  with batt_near [OF assms False] of_nat_0_le_iff [of "1251129 div unat v"] show ?thesis by linarith
qed (simp add: batt_zero [OF assms])

lemma light_small:
  assumes "double_rounding rnd"
  shows "\<bar>uint16_to_light rnd v\<bar> \<le> 5000000"
proof -
  have "unat v \<le> 65535" using unsigned_less [of v, where ?'a = nat] by simp
  then have "unat v * 5000000 div 65535 \<le> 5000000" by simp
  then show ?thesis unfolding light_exact [OF assms] by linarith
qed

text \<open>What the driver prints of an entry of the header: the two parts of an integer that is the one of the
  formula, for the battery to one thousandth.\<close>

lemma header_reading:
  fixes temp :: "u16 \<Rightarrow> int" and v :: u16 and k :: lunix_msr_enum
  assumes "double_rounding rnd" "CHR ''*'' \<notin> set src" "k = TEMP \<Longrightarrow> \<bar>temp v\<bar> < 2000000000000"
  defines "l \<equiv> header_lookup (mk_main src temp (uint16_to_batt rnd) (uint16_to_light rnd)) k v"
  obtains x where "akeraio_meros l = x sdiv 1000" "dekadiko_meros l = x smod 1000"
    "case k of LIGHT \<Rightarrow> x = int (unat v * 5000000 div 65535)
     | BATT \<Rightarrow> if v = 0 then x = 0 else \<bar>x - int (1251129 div unat v)\<bar> \<le> 1
     | TEMP \<Rightarrow> x = temp v"
proof -
  let ?f = "conversion temp (uint16_to_batt rnd) (uint16_to_light rnd) k v"
  have kind: "case k of LIGHT \<Rightarrow> ?f = int (unat v * 5000000 div 65535)
      | BATT \<Rightarrow> if v = 0 then ?f = 0 else \<bar>?f - int (1251129 div unat v)\<bar> \<le> 1
      | TEMP \<Rightarrow> ?f = temp v"
    using light_exact [OF assms(1)] batt_near [OF assms(1)] batt_zero [OF assms(1)] by (cases k) simp_all
  have small: "\<bar>?f\<bar> < 2000000000000"
    using batt_small [OF assms(1), of v] light_small [OF assms(1), of v] assms(3) by (cases k) simp_all
  have "sint l = ?f" unfolding l_def header_lookup_conversion [OF assms(2)] by (rule sint_small [OF small])
  then have "akeraio_meros l = ?f sdiv 1000" "dekadiko_meros l = ?f smod 1000"
    using small akeraio_eq [of l] by (simp_all add: dekadiko_eq)
  then show thesis using kind that by blast
qed

section \<open>Properties\<close>

text \<open>C30: the header says what the generator has computed. Whatever the three conversions are, a compiler
  that reads the text which \<open>main\<close> prints finds three arrays under the names that the driver uses, each
  with 65536 values, and at every raw value the number that its conversion gives for it.\<close>

theorem header_round_trip:
  fixes temp batt light :: "u16 \<Rightarrow> int"
  assumes "CHR ''*'' \<notin> set src"
  shows "\<exists>t b l. read_header (mk_main src temp batt light) =
      Some [(''lookup_temperature'', t), (''lookup_voltage'', b), (''lookup_light'', l)]
    \<and> length t = 65536 \<and> length b = 65536 \<and> length l = 65536
    \<and> (\<forall>v :: u16. t ! unat v = temp v \<and> b ! unat v = batt v \<and> l ! unat v = light v)"
  by (intro exI [of _ "lookup_table temp"] exI [of _ "lookup_table batt"] exI [of _ "lookup_table light"])
    (simp add: read_mk_main [OF assms] lookup_table_nth)

lemma header_round_trip_witness:
  "\<exists>t b l. read_header (mk_main ''mk_lookup_tables.c'' (\<lambda>v. - int (unat v)) (\<lambda>_. 0) (\<lambda>v. int (unat v))) =
      Some [(''lookup_temperature'', t), (''lookup_voltage'', b), (''lookup_light'', l)]
    \<and> t ! 512 = - 512 \<and> l ! 65535 = 65535"
proof -
  obtain t b l where "read_header (mk_main ''mk_lookup_tables.c'' (\<lambda>v. - int (unat v)) (\<lambda>_. 0) (\<lambda>v. int (unat v))) =
      Some [(''lookup_temperature'', t), (''lookup_voltage'', b), (''lookup_light'', l)]"
    and at: "\<And>v :: u16. t ! unat v = - int (unat v)" "\<And>v :: u16. l ! unat v = int (unat v)"
    using header_round_trip [of "''mk_lookup_tables.c''" "\<lambda>v. - int (unat v)" "\<lambda>_. 0" "\<lambda>v. int (unat v)"] by auto
  then show ?thesis using at(1) [of 512] at(2) [of 65535] by simp
qed

end
