(* ===== verification/Measurement.thy ===== *)
theory Measurement
  imports Lunix TableText
begin

text \<open>
  The sensor part as a whole: the generator of the tables, the driver built with its header, the line and
  the readers.
\<close>

text \<open>C3: a measurement reaches its reader, as the number it stands for. Take the driver built with the header
  that the generator writes, in any reachable state. Let a process sleep in its read of at
  least 16 bytes on an open file, with the semaphore of the file free, and let a report of the node
  behind this file arrive complete on the line while the receiver is idle, with a time after the cached
  one. Then the bytes are taken, the process has been made runnable if it was still on the wait queue, and
  its own steps lead it out of the call with the whole text of the new measurement: of
  \<open>light * 5000000 div 65535\<close> thousandths, of \<open>1251129 div batt\<close> thousandths up to one, or of what
  the temperature formula gave.\<close>

theorem measurement_reaches_reader:
  fixes cnt :: u64 and temperature :: "u16 \<Rightarrow> int"
  assumes "double_rounding rnd" "CHR ''*'' \<notin> set src" "\<bar>temperature temp\<bar> < 2000000000000"
    and "lookup = header_lookup (mk_main src temperature (uint16_to_batt rnd) (uint16_to_light rnd))"
    and "bare_machine s0" "system_run lookup intr dbg s0 es s"
    and "tty \<in> set (attached (driver_of s))" "phase (lunix_protocol_state (driver_of s)) = SEEKING_START_BYTE"
    and "opened s f = Some x" "calls x p = Asleep 0 cnt" "16 \<le> unat cnt" "0 < lock (priv x)"
    and "wf_frame fr" "f_am_type fr = 0x0B" "f_payload fr = report_payload hdr node mid batt temp light tail"
    and "length hdr = 2" "length mid = 7" "dbg \<longrightarrow> length (encode_frame fr) < 50"
    and "unat node = Suc (sensor (priv x))" "buf_timestamp (priv x) < ucast now"
  shows "\<exists>s1 es1 s2 x2 n. system_step lookup intr dbg s (Tty (Line tty now (encode_frame fr)) 0) s1
    \<and> (p \<in> set (wq (sensors (world_of s) ! sensor (priv x))) \<longrightarrow> p \<in> set (runnable (world_of s1)))
    \<and> system_run lookup intr dbg s1 es1 s2 \<and> set es1 \<subseteq> {Read f p} \<and> opened s2 f = Some x2
    \<and> (let text = reading_text (n sdiv 1000) \<bar>n smod 1000\<bar> in calls x2 p = Returned (int (length text)) 0 text)
    \<and> (case type (priv x) of LIGHT \<Rightarrow> n = int (unat light * 5000000 div 65535)
       | BATT \<Rightarrow> if batt = 0 then n = 0 else \<bar>n - int (1251129 div unat batt)\<bar> \<le> 1
       | TEMP \<Rightarrow> n = temperature temp)"
proof -
  let ?raw = "case type (priv x) of BATT \<Rightarrow> batt | TEMP \<Rightarrow> temp | LIGHT \<Rightarrow> light"
  have "type (priv x) = TEMP \<Longrightarrow> \<bar>temperature ?raw\<bar> < 2000000000000" using assms(3) by simp
  then obtain n where n: "akeraio_meros (lookup (type (priv x)) ?raw) = n sdiv 1000"
    "dekadiko_meros (lookup (type (priv x)) ?raw) = n smod 1000"
    "case type (priv x) of LIGHT \<Rightarrow> n = int (unat ?raw * 5000000 div 65535)
     | BATT \<Rightarrow> if ?raw = 0 then n = 0 else \<bar>n - int (1251129 div unat ?raw)\<bar> \<le> 1
     | TEMP \<Rightarrow> n = temperature ?raw"
    unfolding assms(4) by (rule header_reading [OF assms(1,2)])
  have "case type (priv x) of LIGHT \<Rightarrow> n = int (unat light * 5000000 div 65535)
     | BATT \<Rightarrow> if batt = 0 then n = 0 else \<bar>n - int (1251129 div unat batt)\<bar> \<le> 1
     | TEMP \<Rightarrow> n = temperature temp"
    using n(3) by (cases "type (priv x)"; simp split: if_splits)
  then show ?thesis
    using report_reaches_reader [OF assms(5-20)] unfolding n(1,2) Let_def by blast
qed

text \<open>Sensor 1 measures temperature in the sample run; the conversion gives 21.5 degrees for its value.\<close>

lemma measurement_reaches_reader_witness:
  "\<exists>lookup es s x. system_run lookup False True bare es s \<and> opened s 0 = Some x
    \<and> calls x 7 = Returned (int (length (reading_text 21 500))) 0 (reading_text 21 500)"
proof -
  have rnd: "double_rounding (\<lambda>x. x)" by (simp add: double_rounding_def)
  let ?lookup = "header_lookup (mk_main ''mk_lookup_tables.c'' (\<lambda>v. 21500) (uint16_to_batt (\<lambda>x. x)) (uint16_to_light (\<lambda>x. x)))"
  obtain es s x where s: "system_run ?lookup False True bare es s" "attached (driver_of s) = [4]"
    "phase (lunix_protocol_state (driver_of s)) = SEEKING_START_BYTE" "opened s 0 = Some x"
    "priv x = sample_chrdev" "calls x 7 = Asleep 0 99"
    by (rule sleeping_run)
  have a: "4 \<in> set (attached (driver_of s))" "16 \<le> unat (99 :: u64)" "0 < lock (priv x)"
    "length [1, 2 :: u8] = 2" "length [0, 0, 0, 0, 0, 0, 0 :: u8] = 7" "True \<longrightarrow> length (encode_frame sample_report) < 50"
    "unat (2 :: u16) = Suc (sensor (priv x))" "buf_timestamp (priv x) < ucast (9 :: u64)"
    by (simp_all add: s(2,5) sample_chrdev_def blank_chrdev_def length_encode_sample)
  have m: "CHR ''*'' \<notin> set ''mk_lookup_tables.c''" "\<bar>(\<lambda>v :: u16. 21500 :: int) (0x1F0 :: u16)\<bar> < 2000000000000" by simp_all
  have k: "type (priv x) = TEMP" using s(5) sample_chrdev_reported(3) by simp
  obtain s1 es1 s2 x2 where "system_step ?lookup False True s (Tty (Line 4 9 (encode_frame sample_report)) 0) s1"
    "system_run ?lookup False True s1 es1 s2" "opened s2 0 = Some x2"
    "calls x2 7 = Returned (int (length (reading_text 21 500))) 0 (reading_text 21 500)"
    using measurement_reaches_reader [OF rnd m refl bare_bare s(1) a(1) s(3,4,6) a(2,3) sample_report_wf a(4-8)] k
    by (auto simp: Let_def)
  then show ?thesis using system_run_append [OF s(1) step] s(1) by blast
qed

end
