(* ===== verification/Virtio.thy ===== *)
theory Virtio
  imports Prelude
begin

text \<open>
  The crypto device on the host, \<open>qemu_driver/virtio-cryptodev.c\<close>, and the requests that
  travel over the virtqueue: lists of memory segments, first the readable ones, then those the host
  writes. The segments keep the type the guest wrote them with, so that reading a pointer as an
  \<open>unsigned int\<close> can be stated.
\<close>

section \<open>The structures of cryptodev.h\<close>

record session_op =
  cipher :: u32
  mac :: u32
  keylen :: u32
  key :: addr
  mackeylen :: u32
  mackey :: addr
  ses :: u32

record crypt_op =
  op_ses :: u32
  op_code :: u16
  op_flags :: u16
  op_len :: u32
  op_src :: addr
  op_dst :: addr
  op_mac :: addr
  op_iv :: addr

text \<open>
  The ioctl numbers: direction, size of the argument, type \<open>'c'\<close> and number, as \<open>_IOC\<close>
  puts them together. Both structures have 48 bytes on a 64-bit machine.
\<close>

definition IOC :: "u32 \<Rightarrow> u32 \<Rightarrow> u32 \<Rightarrow> u32" where
  "IOC dir sz nr = push_bit 30 dir OR push_bit 16 sz OR push_bit 8 0x63 OR nr"

definition CIOCGSESSION :: u32 where "CIOCGSESSION = IOC 3 48 102"
definition CIOCFSESSION :: u32 where "CIOCFSESSION = IOC 1 4 103"
definition CIOCCRYPT :: u32 where "CIOCCRYPT = IOC 3 48 104"

lemma cioc_values:
  "CIOCGSESSION = 0xC0306366" "CIOCFSESSION = 0x40046367" "CIOCCRYPT = 0xC0306368"
  by (simp_all add: CIOCGSESSION_def CIOCFSESSION_def CIOCCRYPT_def IOC_def)

lemma cioc_distinct [simp]:
  "CIOCGSESSION \<noteq> CIOCFSESSION" "CIOCGSESSION \<noteq> CIOCCRYPT" "CIOCFSESSION \<noteq> CIOCGSESSION"
  "CIOCFSESSION \<noteq> CIOCCRYPT" "CIOCCRYPT \<noteq> CIOCGSESSION" "CIOCCRYPT \<noteq> CIOCFSESSION"
  by (simp_all add: cioc_values)

definition VIRTIO_CRYPTODEV_BLOCK_SIZE :: nat where "VIRTIO_CRYPTODEV_BLOCK_SIZE = 16"

definition SYSCALL_OPEN :: u32 where "SYSCALL_OPEN = 0"
definition SYSCALL_CLOSE :: u32 where "SYSCALL_CLOSE = 1"
definition SYSCALL_IOCTL :: u32 where "SYSCALL_IOCTL = 2"

section \<open>Segments and requests\<close>

datatype seg =
    Seg_u32 u32
  | Seg_ptr addr
  | Seg_bytes "u8 list"
  | Seg_session session_op
  | Seg_crypt crypt_op

text \<open>A request: the readable and the writable segments.\<close>

type_synonym request = "seg list \<times> seg list"

text \<open>\<open>OUT_SG(i, unsigned int)\<close>: the first four bytes of a segment, little-endian.\<close>

definition le32 :: "u8 list \<Rightarrow> u32" where
  "le32 b = ucast (b ! 0) OR push_bit 8 (ucast (b ! 1)) OR push_bit 16 (ucast (b ! 2)) OR push_bit 24 (ucast (b ! 3))"

fun seg_u32 :: "seg \<Rightarrow> u32 option" where
  "seg_u32 (Seg_u32 w) = Some w"
| "seg_u32 (Seg_ptr p) = Some (ucast p)"
| "seg_u32 (Seg_bytes b) = (if length b < 4 then None else Some (le32 b))"
| "seg_u32 (Seg_session s) = Some (cipher s)"
| "seg_u32 (Seg_crypt c) = Some (op_ses c)"

fun seg_size :: "seg \<Rightarrow> nat" where
  "seg_size (Seg_u32 w) = 4"
| "seg_size (Seg_ptr p) = 8"
| "seg_size (Seg_bytes b) = length b"
| "seg_size (Seg_session s) = 48"
| "seg_size (Seg_crypt c) = 48"

text \<open>Access to a segment by index; there is no bounds check in the code, so that outside the array
  it is a crash.\<close>

definition sg :: "seg list \<Rightarrow> nat \<Rightarrow> seg option" where
  "sg xs i = (if i < length xs then Some (xs ! i) else None)"

text \<open>A store of an int into a writable segment of four bytes.\<close>

definition put_u32 :: "seg list \<Rightarrow> nat \<Rightarrow> u32 \<Rightarrow> seg list option" where
  "put_u32 xs i v = (case sg xs i of Some (Seg_u32 _) \<Rightarrow> Some (xs[i := Seg_u32 v]) | _ \<Rightarrow> None)"

section \<open>The host's system calls\<close>

text \<open>
  \<open>open("/dev/crypto")\<close>, \<open>close\<close> and the three ioctls of the host's cryptodev, on its state
  \<open>'h\<close>. A session call gets the key, an operation the source, the iv and the old contents of the
  destination; its result has the destination after the call.
\<close>

record 'h host_os =
  os_open :: "'h \<Rightarrow> int \<times> 'h"
  os_close :: "u32 \<Rightarrow> 'h \<Rightarrow> 'h"
  os_gsession :: "u32 \<Rightarrow> session_op \<Rightarrow> u8 list \<Rightarrow> 'h \<Rightarrow> int \<times> session_op \<times> 'h"
  os_fsession :: "u32 \<Rightarrow> u32 \<Rightarrow> 'h \<Rightarrow> int \<times> 'h"
  os_crypt :: "u32 \<Rightarrow> crypt_op \<Rightarrow> u8 list \<Rightarrow> u8 list \<Rightarrow> u8 list \<Rightarrow> 'h \<Rightarrow> int \<times> u8 list \<times> 'h"

text \<open>
  The host addresses of the segments, \<open>iov_base\<close>. A crypt operation sees the structure with the
  three pointers replaced.
\<close>

record host_map =
  out_base :: "nat \<Rightarrow> addr"
  in_base :: "nat \<Rightarrow> addr"

section \<open>The handler\<close>

text \<open>The ioctl branch of \<open>vq_handle_output\<close>.\<close>

definition host_ioctl ::
  "'h host_os \<Rightarrow> host_map \<Rightarrow> request \<Rightarrow> 'h \<Rightarrow> (request \<times> 'h) option"
where
  "host_ioctl H B rq h = (case rq of (outs, ins) \<Rightarrow> do {
     s1 \<leftarrow> sg outs 1;
     host_fd \<leftarrow> seg_u32 s1;
     s2 \<leftarrow> sg outs 2;
     ioctl_cmd \<leftarrow> seg_u32 s2;
     if ioctl_cmd = CIOCGSESSION then
       (case (sg outs 3, sg ins 0) of
          (Some (Seg_bytes k), Some (Seg_session test)) \<Rightarrow>
            (case os_gsession H host_fd (test\<lparr>key := out_base B 3\<rparr>) k h of (r, test', h') \<Rightarrow> do {
               ins' \<leftarrow> put_u32 (ins[0 := Seg_session test']) 1 (word_of_int r);
               Some ((outs, ins'), h')
             })
        | _ \<Rightarrow> None)
     else if ioctl_cmd = CIOCFSESSION then
       (case sg outs 3 of
          Some (Seg_u32 i) \<Rightarrow>
            (case os_fsession H host_fd i h of (r, h') \<Rightarrow> do {
               ins' \<leftarrow> put_u32 ins 0 (word_of_int r);
               Some ((outs, ins'), h')
             })
        | _ \<Rightarrow> None)
     else if ioctl_cmd = CIOCCRYPT then
       (case (sg outs 3, sg outs 4, sg outs 5, sg ins 0) of
          (Some (Seg_crypt c), Some (Seg_bytes src), Some (Seg_bytes iv), Some (Seg_bytes dst)) \<Rightarrow>
            (let c' = c\<lparr>op_src := out_base B 4, op_iv := out_base B 5, op_dst := in_base B 0\<rparr> in
             case os_crypt H host_fd c' src iv dst h of (r, dst', h') \<Rightarrow> do {
               ins' \<leftarrow> put_u32 (ins[0 := Seg_bytes dst']) 1 (word_of_int r);
               Some ((outs[3 := Seg_crypt c'], ins'), h')
             })
        | _ \<Rightarrow> None)
     else Some (rq, h)
   })"

text \<open>
  \<open>vq_handle_output\<close>: \<open>pop\<close> is what \<open>virtqueue_pop\<close> answers. The result says whether an
  element has been pushed back.
\<close>

definition vq_handle_output ::
  "(request \<Rightarrow> bool) \<Rightarrow> 'h host_os \<Rightarrow> host_map \<Rightarrow> request \<Rightarrow> 'h \<Rightarrow> (bool \<times> request \<times> 'h) option"
where
  "vq_handle_output pop H B rq h =
     (if \<not> pop rq then Some (False, rq, h)
      else case rq of (outs, ins) \<Rightarrow> do {
        s0 \<leftarrow> sg outs 0;
        syscall_type \<leftarrow> seg_u32 s0;
        (rq', h') \<leftarrow>
          (if syscall_type = SYSCALL_OPEN then
             (case os_open H h of (fd, h') \<Rightarrow> do {
                ins' \<leftarrow> put_u32 ins 0 (word_of_int fd);
                Some ((outs, ins'), h')
              })
           else if syscall_type = SYSCALL_CLOSE then do {
             s1 \<leftarrow> sg outs 1;
             fd \<leftarrow> seg_u32 s1;
             Some (rq, os_close H fd h)
           }
           else if syscall_type = SYSCALL_IOCTL then host_ioctl H B rq h
           else Some (rq, h));
        Some (True, rq', h')
      })"

section \<open>The contract of a request server\<close>

text \<open>The kinds of segments, which the host keeps.\<close>

datatype seg_kind = U32 | Ptr | Bytes | Session | Crypt

fun kind_of :: "seg \<Rightarrow> seg_kind" where
  "kind_of (Seg_u32 _) = U32"
| "kind_of (Seg_ptr _) = Ptr"
| "kind_of (Seg_bytes _) = Bytes"
| "kind_of (Seg_session _) = Session"
| "kind_of (Seg_crypt _) = Crypt"

lemma kind_ofE:
  "kind_of s = U32 \<Longrightarrow> \<exists>w. s = Seg_u32 w" "kind_of s = Bytes \<Longrightarrow> \<exists>b. s = Seg_bytes b"
  "kind_of s = Session \<Longrightarrow> \<exists>x. s = Seg_session x" "kind_of s = Crypt \<Longrightarrow> \<exists>c. s = Seg_crypt c"
  by (cases s; simp)+

text \<open>The ioctl requests a guest may send: status word last, kinds as the command has them.\<close>

definition ioctl_kinds :: "u32 \<Rightarrow> seg_kind list \<times> seg_kind list" where
  "ioctl_kinds cmd =
     (if cmd = CIOCGSESSION then ([Bytes], [Session, U32])
      else if cmd = CIOCFSESSION then ([U32], [U32])
      else if cmd = CIOCCRYPT then ([Crypt, Bytes, Bytes], [Bytes, U32])
      else ([], []))"

definition ioctl_request :: "u32 \<Rightarrow> u32 \<Rightarrow> seg list \<Rightarrow> seg list \<Rightarrow> request" where
  "ioctl_request fd cmd outs ins = ([Seg_u32 SYSCALL_IOCTL, Seg_u32 fd, Seg_u32 cmd] @ outs, ins)"

text \<open>
  A server of such requests answers every one it has accepted, and the answer has the kinds the
  driver expects.
\<close>

locale request_server =
  fixes serve :: "request \<Rightarrow> 'h \<Rightarrow> (bool \<times> request \<times> 'h) option"
    and accepts :: "request \<Rightarrow> bool"
  assumes answers: "accepts (ioctl_request fd cmd outs ins) \<Longrightarrow>
      (map kind_of outs, map kind_of ins) = ioctl_kinds cmd \<Longrightarrow>
      \<exists>outs' ins' h'. serve (ioctl_request fd cmd outs ins) h = Some (True, (outs', ins'), h')
        \<and> map kind_of ins' = map kind_of ins"
    and never_pops: "\<not> accepts rq \<Longrightarrow> serve rq h = Some (False, rq, h)"
begin

text \<open>What the driver reads from the first writable segment of an answer.\<close>

lemma first_answer:
  assumes "accepts (ioctl_request fd cmd outs ins)" "(map kind_of outs, map kind_of ins) = ioctl_kinds cmd"
  obtains outs' ins' h' where "serve (ioctl_request fd cmd outs ins) h = Some (True, (outs', ins'), h')"
    "cmd = CIOCGSESSION \<longrightarrow> (\<exists>s w. ins' = [Seg_session s, Seg_u32 w])"
    "cmd = CIOCCRYPT \<longrightarrow> (\<exists>b w. ins' = [Seg_bytes b, Seg_u32 w])"
proof -
  obtain outs' ins' h' where a: "serve (ioctl_request fd cmd outs ins) h = Some (True, (outs', ins'), h')"
    "map kind_of ins' = map kind_of ins"
    using answers [OF assms] by blast
  have kinds: "map kind_of ins' = snd (ioctl_kinds cmd)" using a(2) assms(2) by (metis snd_conv)
  have "\<exists>s w. ins' = [Seg_session s, Seg_u32 w]" if "cmd = CIOCGSESSION"
    using kinds that kind_ofE by (auto simp: ioctl_kinds_def map_eq_Cons_conv)
  moreover have "\<exists>b w. ins' = [Seg_bytes b, Seg_u32 w]" if "cmd = CIOCCRYPT"
    using kinds that kind_ofE by (auto simp: ioctl_kinds_def map_eq_Cons_conv)
  ultimately show thesis using that a(1) by blast
qed

end

text \<open>The host's handler is one.\<close>

lemma sg_nth [simp]: "i < length xs \<Longrightarrow> sg xs i = Some (xs ! i)"
  by (simp add: sg_def)

interpretation crypto_host: request_server "vq_handle_output pop H B" pop for pop H B
proof
  fix fd cmd :: u32 and outs ins :: "seg list" and h
  assume pop: "pop (ioctl_request fd cmd outs ins)"
    and kinds: "(map kind_of outs, map kind_of ins) = ioctl_kinds cmd"
  consider (gs) k s w where "cmd = CIOCGSESSION" "outs = [Seg_bytes k]" "ins = [Seg_session s, Seg_u32 w]"
    | (fs) i w where "cmd = CIOCFSESSION" "outs = [Seg_u32 i]" "ins = [Seg_u32 w]"
    | (cr) c a b d w where "cmd = CIOCCRYPT" "outs = [Seg_crypt c, Seg_bytes a, Seg_bytes b]"
        "ins = [Seg_bytes d, Seg_u32 w]"
    | (other) "cmd \<noteq> CIOCGSESSION" "cmd \<noteq> CIOCFSESSION" "cmd \<noteq> CIOCCRYPT" "outs = []" "ins = []"
    using kinds kind_ofE by (auto simp: ioctl_kinds_def map_eq_Cons_conv split: if_splits) metis+
  then show "\<exists>outs' ins' h'. vq_handle_output pop H B (ioctl_request fd cmd outs ins) h =
      Some (True, (outs', ins'), h') \<and> map kind_of ins' = map kind_of ins"
    using pop
    by cases (auto simp: vq_handle_output_def ioctl_request_def host_ioctl_def put_u32_def SYSCALL_IOCTL_def
        SYSCALL_OPEN_def SYSCALL_CLOSE_def Let_def split: prod.splits)
next
  fix rq h
  assume "\<not> pop rq"
  then show "vq_handle_output pop H B rq h = Some (False, rq, h)" by (simp add: vq_handle_output_def)
qed

section \<open>Typed requests\<close>

text \<open>
  What the handler takes for granted of a request, as a type discipline: the words it reads must be
  there, and behind them the segments must start with the kinds of the call. Nothing in the code
  checks it.
\<close>

definition starts_with :: "seg list \<Rightarrow> seg_kind list \<Rightarrow> bool" where
  "starts_with xs ks \<longleftrightarrow> take (length ks) (map kind_of xs) = ks"




lemma starts_with_simps [simp]:
  "starts_with xs []"
  "starts_with [] (k # ks) \<longleftrightarrow> False"
  "starts_with (x # xs) (k # ks) \<longleftrightarrow> kind_of x = k \<and> starts_with xs ks"
  by (auto simp: starts_with_def)




lemma sg_Cons [simp]: "sg (x # xs) 0 = Some x" "sg (x # xs) (Suc n) = sg xs n" "sg [] n = None"
  by (simp_all add: sg_def)

lemma sg_numeral [simp]: "sg (x # xs) (numeral k) = sg xs (pred_numeral k)"
  by (simp add: numeral_eq_Suc)

lemma sg_one [simp]: "sg (x # xs) 1 = sg xs 0"
  using sg_Cons(2) [of x xs 0] by simp

lemma put_u32_Cons [simp]:
  "put_u32 [] i v = None"
  "put_u32 (Seg_u32 w # xs) 0 v = Some (Seg_u32 v # xs)"
  "kind_of x \<noteq> U32 \<Longrightarrow> put_u32 (x # xs) 0 v = None"
  "put_u32 (x # xs) (Suc n) v = map_option ((#) x) (put_u32 xs n v)"
  by (auto simp: put_u32_def split: option.splits seg.splits)

lemma put_u32_one [simp]: "put_u32 (x # xs) 1 v = map_option ((#) x) (put_u32 xs 0 v)"
  using put_u32_Cons(4) [of x xs 0 v] by simp














end
