(* ===== verification/CryptoModule.thy ===== *)
theory CryptoModule
  imports Prelude
begin

text \<open>
  The guest driver's devices: \<open>guest/crypto-module.c\<close> (probe and removal of virtio devices, module
  init and exit), the lookup by minor number and the registration of the character devices of
  \<open>guest/crypto-chrdev.c\<close>.
\<close>

section \<open>State\<close>

definition CRYPTO_NR_DEVICES :: u32 where "CRYPTO_NR_DEVICES = 32"

text \<open>\<open>struct crypto_device\<close>: its virtio device (a number), the address of its virtqueue, its minor
  number. The list node is the device's place in the driver's list, the locks are held by the code
  around what is a single step here.\<close>

record crypto_device =
  vdev :: nat
  vq :: addr
  minor :: u32

text \<open>
  \<open>struct crypto_driver_data\<close> with the kernel memory it points into: the list of the devices by
  address, the next minor number, the allocated device structures, and the \<open>priv\<close> pointers of the
  virtio devices.
\<close>

record crypto_driver_data =
  devs :: "addr list"
  next_minor :: u32
  cheap :: "addr \<rightharpoonup> crypto_device"
  priv :: "nat \<rightharpoonup> addr"

section \<open>Operations\<close>

text \<open>The list walk; a device structure that is not in memory is an Oops.\<close>

fun find_minor :: "(addr \<rightharpoonup> crypto_device) \<Rightarrow> u32 \<Rightarrow> addr list \<Rightarrow> addr option option" where
  "find_minor m k [] = Some None"
| "find_minor m k (p # ps) = (case m p of None \<Rightarrow> None
     | Some d \<Rightarrow> if minor d = k then Some (Some p) else find_minor m k ps)"

definition get_crypto_dev_by_minor :: "u32 \<Rightarrow> crypto_driver_data \<Rightarrow> addr option option" where
  "get_crypto_dev_by_minor k D = find_minor (cheap D) k (devs D)"

text \<open>
  The kernel's \<open>IS_ERR\<close>: the last 4095 addresses are error codes. \<open>find_vq\<close> gets the answer of
  \<open>virtio_find_single_vq\<close>.
\<close>

definition IS_ERR :: "addr \<Rightarrow> bool" where
  "IS_ERR q \<longleftrightarrow> - 4095 \<le> q"

definition find_vq :: "addr \<Rightarrow> addr" where
  "find_vq single = (if IS_ERR single then 0 else single)"

text \<open>\<open>virtcons_probe\<close>: \<open>p\<close> is what \<open>kzalloc\<close> returns.\<close>

definition virtcons_probe :: "addr \<Rightarrow> addr \<Rightarrow> nat \<Rightarrow> crypto_driver_data \<Rightarrow> int \<times> crypto_driver_data" where
  "virtcons_probe p single v D =
     (if p = 0 then (- ENOMEM, D)
      else
        let crdev = \<lparr>vdev = v, vq = find_vq single, minor = 0\<rparr>;
            D = D\<lparr>cheap := (cheap D)(p \<mapsto> crdev), priv := (priv D)(v \<mapsto> p)\<rparr>
        in if vq crdev = 0 then (- ENXIO, D)
        else
          let crdev = crdev\<lparr>minor := next_minor D\<rparr>
          in (0, D\<lparr>next_minor := next_minor D + 1, cheap := (cheap D)(p \<mapsto> crdev), devs := devs D @ [p]\<rparr>))"

definition unlink_device :: "addr \<Rightarrow> crypto_driver_data \<Rightarrow> crypto_driver_data" where
  "unlink_device p D = D\<lparr>devs := remove1 p (devs D), cheap := (cheap D)(p := None)\<rparr>"

text \<open>\<open>virtcons_remove\<close>; unlinking a structure that is not in the list is an Oops.\<close>

definition virtcons_remove :: "nat \<Rightarrow> crypto_driver_data \<Rightarrow> crypto_driver_data option" where
  "virtcons_remove v D = do {
     p \<leftarrow> priv D v;
     if p \<notin> set (devs D) then None
     else Some (unlink_device p D)
   }"

definition crypto_chrdev_init :: "int \<Rightarrow> int \<Rightarrow> chrdev_registry \<Rightarrow> int \<times> chrdev_registry" where
  "crypto_chrdev_init reg add r =
     (if reg < 0 then (reg, r)
      else let r = r\<lparr>region := Some CRYPTO_NR_DEVICES\<rparr>
      in if add < 0 then (add, r\<lparr>region := None\<rparr>)
      else (0, r\<lparr>cdev_live := True\<rparr>))"

definition crypto_chrdev_destroy :: "chrdev_registry \<Rightarrow> chrdev_registry" where
  "crypto_chrdev_destroy r = r\<lparr>cdev_live := False, region := None\<rparr>"

text \<open>
  The module's \<open>init\<close> and \<open>fini\<close>; \<open>virtio\<close> is the result of \<open>register_virtio_driver\<close>. The
  last component says whether the virtio driver is registered.
\<close>

definition init_module ::
  "int \<Rightarrow> int \<Rightarrow> int \<Rightarrow> chrdev_registry \<times> crypto_driver_data \<times> bool
     \<Rightarrow> int \<times> chrdev_registry \<times> crypto_driver_data \<times> bool"
where
  "init_module reg add virtio S =
     (case S of (r, D, b) \<Rightarrow>
        (case crypto_chrdev_init reg add r of (ret, r) \<Rightarrow>
           if ret < 0 then (ret, r, D, b)
           else let D = D\<lparr>devs := []\<rparr>
           in if virtio < 0 then (virtio, crypto_chrdev_destroy r, D, b)
           else (virtio, r, D, True)))"

text \<open>
  \<open>unregister_virtio_driver\<close> detaches the driver from the devices bound to it: the virtio core
  calls \<open>virtcons_remove\<close> for each of them, in the order of \<open>bound\<close>.
\<close>

fun unbind :: "nat list \<Rightarrow> crypto_driver_data \<Rightarrow> crypto_driver_data option" where
  "unbind [] D = Some D"
| "unbind (v # vs) D = do { D \<leftarrow> virtcons_remove v D; unbind vs D }"

definition fini_module ::
  "nat list \<Rightarrow> chrdev_registry \<times> crypto_driver_data \<times> bool
     \<Rightarrow> (chrdev_registry \<times> crypto_driver_data \<times> bool) option"
where
  "fini_module bound S =
     (case S of (r, D, b) \<Rightarrow>
        let r = crypto_chrdev_destroy r
        in do {
          D \<leftarrow> unbind bound D;
          Some (r, D, False)
        })"

section \<open>Invariant\<close>

text \<open>Every listed device is in memory, and the minor numbers grow along the list.\<close>

definition devs_inv :: "crypto_driver_data \<Rightarrow> bool" where
  "devs_inv D \<longleftrightarrow> distinct (devs D) \<and> (\<forall>p \<in> set (devs D). cheap D p \<noteq> None)
     \<and> (\<forall>p \<in> set (devs D). \<forall>d. cheap D p = Some d \<longrightarrow> minor d < next_minor D)
     \<and> (\<forall>p \<in> set (devs D). \<forall>q \<in> set (devs D). \<forall>d e.
          cheap D p = Some d \<longrightarrow> cheap D q = Some e \<longrightarrow> minor d = minor e \<longrightarrow> p = q)"

lemma find_minor_Some:
  "\<forall>p \<in> set ps. m p \<noteq> None \<Longrightarrow>
    find_minor m k ps = Some (find (\<lambda>p. minor (the (m p)) = k) ps)"
  by (induction ps) (auto split: option.splits)

lemma lookup_iff:
  assumes "devs_inv D"
  shows "get_crypto_dev_by_minor k D = Some (Some p) \<longleftrightarrow>
    p \<in> set (devs D) \<and> (\<exists>d. cheap D p = Some d \<and> minor d = k)"
proof -
  have mem: "\<forall>p \<in> set (devs D). cheap D p \<noteq> None" using assms by (simp add: devs_inv_def)
  have uniq: "p = q" if "p \<in> set (devs D)" "q \<in> set (devs D)" "cheap D p = Some d" "cheap D q = Some e" "minor d = minor e" for p q d e
    using assms that unfolding devs_inv_def by blast
  show ?thesis
  proof
    assume "get_crypto_dev_by_minor k D = Some (Some p)"
    then have "find (\<lambda>p. minor (the (cheap D p)) = k) (devs D) = Some p"
      by (simp add: get_crypto_dev_by_minor_def find_minor_Some [OF mem])
    then show "p \<in> set (devs D) \<and> (\<exists>d. cheap D p = Some d \<and> minor d = k)"
      using mem by (fastforce simp: find_Some_iff)
  next
    assume r: "p \<in> set (devs D) \<and> (\<exists>d. cheap D p = Some d \<and> minor d = k)"
    have "find (\<lambda>p. minor (the (cheap D p)) = k) (devs D) \<noteq> None"
      using r by (auto simp: find_None_iff)
    then obtain q where q: "find (\<lambda>p. minor (the (cheap D p)) = k) (devs D) = Some q" by blast
    then have "q \<in> set (devs D)" "minor (the (cheap D q)) = k" by (auto simp: find_Some_iff)
    then have "q = p" using r mem uniq by fastforce
    then show "get_crypto_dev_by_minor k D = Some (Some p)"
      using q by (simp add: get_crypto_dev_by_minor_def find_minor_Some [OF mem])
  qed
qed

lemma lookup_total:
  "devs_inv D \<Longrightarrow> \<exists>r. get_crypto_dev_by_minor k D = Some r"
  by (simp add: get_crypto_dev_by_minor_def devs_inv_def find_minor_Some)

section \<open>The table of devices\<close>

text \<open>
  The contract between the hotplug side (probe, removal) and the file side (open): a table that
  hands out the next free key on insertion.
\<close>

locale minor_table =
  fixes lookup :: "'t \<Rightarrow> 'k \<Rightarrow> 'd option"
    and add :: "'v \<Rightarrow> 'd \<Rightarrow> 't \<Rightarrow> 't"
    and del :: "'d \<Rightarrow> 't \<Rightarrow> 't"
    and next_key :: "'t \<Rightarrow> 'k"
    and good :: "'t \<Rightarrow> bool"
    and room :: "'t \<Rightarrow> 'v \<Rightarrow> 'd \<Rightarrow> bool"
  assumes next_free: "good t \<Longrightarrow> lookup t (next_key t) = None"
    and add_good: "good t \<Longrightarrow> room t v d \<Longrightarrow> good (add v d t)"
    and lookup_add: "good t \<Longrightarrow> room t v d \<Longrightarrow> lookup (add v d t) k = (if k = next_key t then Some d else lookup t k)"
    and del_good: "good t \<Longrightarrow> lookup t k = Some d \<Longrightarrow> good (del d t)"
    and lookup_del: "good t \<Longrightarrow> lookup t k0 = Some d \<Longrightarrow> lookup (del d t) k = (if k = k0 then None else lookup t k)"
begin

lemma add_finds: "good t \<Longrightarrow> room t v d \<Longrightarrow> lookup (add v d t) (next_key t) = Some d"
  by (simp add: lookup_add)

lemma add_keeps: "good t \<Longrightarrow> room t v d \<Longrightarrow> lookup t k = Some e \<Longrightarrow> lookup (add v d t) k = Some e"
  using next_free [of t] by (auto simp: lookup_add)

lemma add_then_del: "good t \<Longrightarrow> room t v d \<Longrightarrow> lookup (del d (add v d t)) k = lookup t k"
  using lookup_del [OF add_good add_finds] next_free [of t] by (auto simp: lookup_add)

end

definition minor_lookup :: "crypto_driver_data \<Rightarrow> u32 \<Rightarrow> addr option" where
  "minor_lookup D k = (case get_crypto_dev_by_minor k D of None \<Rightarrow> None | Some r \<Rightarrow> r)"

text \<open>A virtqueue, a free address, and a minor number that does not wrap; \<open>x\<close> is the virtio device and
  its virtqueue.\<close>

definition probe_room :: "crypto_driver_data \<Rightarrow> nat \<times> addr \<Rightarrow> addr \<Rightarrow> bool" where
  "probe_room D x p \<longleftrightarrow> p \<noteq> 0 \<and> snd x \<noteq> 0 \<and> \<not> IS_ERR (snd x) \<and> cheap D p = None
     \<and> next_minor D < next_minor D + 1"

lemma minor_lookup_iff:
  "devs_inv D \<Longrightarrow> minor_lookup D k = Some p \<longleftrightarrow> p \<in> set (devs D) \<and> (\<exists>d. cheap D p = Some d \<and> minor d = k)"
  using lookup_total [of D k] lookup_iff [of D k p] by (auto simp: minor_lookup_def)

lemma minor_lookup_eqI:
  assumes "devs_inv D" "\<And>p. p \<in> set (devs D) \<and> (\<exists>d. cheap D p = Some d \<and> minor d = k) \<longleftrightarrow> r = Some p"
  shows "minor_lookup D k = r"
proof -
  have "minor_lookup D k = Some p \<longleftrightarrow> r = Some p" for p
    unfolding minor_lookup_iff [OF assms(1)] by (rule assms(2))
  then show ?thesis by (metis not_None_eq)
qed

definition probed :: "nat \<times> addr \<Rightarrow> addr \<Rightarrow> crypto_driver_data \<Rightarrow> crypto_driver_data" where
  "probed x p D = snd (virtcons_probe p (snd x) (fst x) D)"

lemma probe_ok:
  assumes "probe_room D (v, q) p"
  shows "virtcons_probe p q v D = (0, probed (v, q) p D)"
  using assms by (simp add: probed_def probe_room_def virtcons_probe_def find_vq_def Let_def)

lemma probed_eq:
  assumes "probe_room D x p"
  shows "probed x p D = D\<lparr>next_minor := next_minor D + 1, devs := devs D @ [p], priv := (priv D)(fst x \<mapsto> p),
     cheap := (cheap D)(p \<mapsto> \<lparr>vdev = fst x, vq = snd x, minor = next_minor D\<rparr>)\<rparr>"
  using assms by (simp add: probed_def probe_room_def virtcons_probe_def find_vq_def Let_def)

lemma probed_inv:
  assumes inv: "devs_inv D" and room: "probe_room D v p"
  shows "devs_inv (probed v p D)"
proof -
  have p: "p \<noteq> 0" "p \<notin> set (devs D)" and up: "next_minor D < next_minor D + 1"
    using inv room by (auto simp: devs_inv_def probe_room_def)
  have low: "minor d < next_minor D" if "q \<in> set (devs D)" "cheap D q = Some d" for q d
    using inv that by (simp add: devs_inv_def)
  have low': "minor d < next_minor D + 1" if "q \<in> set (devs D)" "cheap D q = Some d" for q d
    using low [OF that] up by (rule less_trans)
  have ne: "minor d \<noteq> next_minor D" if "q \<in> set (devs D)" "cheap D q = Some d" for q d
    using low [OF that] by auto
  show ?thesis
    using inv p up low' ne unfolding probed_eq [OF room] devs_inv_def
    by (auto split: if_splits)
qed

lemma unlink_inv: "devs_inv D \<Longrightarrow> devs_inv (unlink_device p D)"
  by (auto simp: devs_inv_def unlink_device_def split: if_splits)

interpretation crypto_minors: minor_table minor_lookup probed unlink_device next_minor devs_inv probe_room
proof
  fix D :: crypto_driver_data and p v k k0
  assume inv: "devs_inv D"
  show free: "minor_lookup D (next_minor D) = None"
    using inv by (intro minor_lookup_eqI) (auto simp: devs_inv_def)
  show "devs_inv (unlink_device p D)" using inv by (rule unlink_inv)
  show "minor_lookup (unlink_device p D) k = (if k = k0 then None else minor_lookup D k)"
    if "minor_lookup D k0 = Some p"
  proof -
    have p: "p \<in> set (devs D)" "\<exists>d. cheap D p = Some d \<and> minor d = k0"
      using that minor_lookup_iff [OF inv] by simp_all
    have set: "set (devs (unlink_device p D)) = set (devs D) - {p}"
      using inv by (simp add: unlink_device_def devs_inv_def)
    have "q \<in> set (devs (unlink_device p D)) \<and> (\<exists>d. cheap (unlink_device p D) q = Some d \<and> minor d = k) \<longleftrightarrow>
        (if k = k0 then None else minor_lookup D k) = Some q" for q
    proof (cases "k = k0")
      case True
      then show ?thesis
        using p inv unfolding set by (auto simp: unlink_device_def devs_inv_def)
    next
      case False
      then show ?thesis
        using p minor_lookup_iff [OF inv, of k q] unfolding set by (auto simp: unlink_device_def)
    qed
    then show ?thesis by (rule minor_lookup_eqI [OF unlink_inv [OF inv]])
  qed
  assume room: "probe_room D v p"
  show "devs_inv (probed v p D)" using inv room by (rule probed_inv)
  have p: "p \<noteq> 0" "p \<notin> set (devs D)" using inv room by (auto simp: devs_inv_def probe_room_def)
  have "q \<in> set (devs (probed v p D)) \<and> (\<exists>d. cheap (probed v p D) q = Some d \<and> minor d = k) \<longleftrightarrow>
      (if k = next_minor D then Some p else minor_lookup D k) = Some q" for q
    using p minor_lookup_iff [OF inv, of k q] free by (auto simp: probed_eq [OF room])
  then show "minor_lookup (probed v p D) k = (if k = next_minor D then Some p else minor_lookup D k)"
    by (rule minor_lookup_eqI [OF probed_inv [OF inv room]])
qed

section \<open>Plugging devices and unloading\<close>

text \<open>The virtio core probes a sequence of devices, each with the answers of \<open>virtio_find_single_vq\<close>
  and \<open>kzalloc\<close>, and keeps those bound whose probe has returned 0.\<close>

fun plug :: "(nat \<times> addr \<times> addr) list \<Rightarrow> nat list \<times> crypto_driver_data \<Rightarrow> nat list \<times> crypto_driver_data" where
  "plug [] S = S"
| "plug ((v, q, p) # es) (bound, D) =
     (case virtcons_probe p q v D of (ret, D) \<Rightarrow> plug es (if ret = 0 then bound @ [v] else bound, D))"

definition linked :: "nat list \<Rightarrow> crypto_driver_data \<Rightarrow> bool" where
  "linked bound D \<longleftrightarrow> map (priv D) bound = map Some (devs D) \<and> distinct (devs D)"

lemma unbind_all:
  "linked bound D \<Longrightarrow> \<exists>D'. unbind bound D = Some D' \<and> devs D' = [] \<and> cheap D' = cheap D |` (- set (devs D))"
proof (induction bound arbitrary: D)
  case Nil
  then show ?case by (auto simp: linked_def)
next
  case (Cons v bound)
  then obtain p ps where D: "devs D = p # ps" "priv D v = Some p" "map (priv D) bound = map Some ps" "p \<notin> set ps"
    by (auto simp: linked_def map_eq_Cons_conv)
  have "linked bound (unlink_device p D)"
    using D Cons.prems by (auto simp: linked_def unlink_device_def)
  from Cons.IH [OF this] show ?case
    using D by (auto simp: virtcons_remove_def unlink_device_def restrict_map_def fun_eq_iff)
qed

text \<open>The structures of the devices that have a virtqueue, and of those that do not.\<close>

definition with_vq :: "(nat \<times> addr \<times> addr) list \<Rightarrow> addr list" where
  "with_vq es = map (snd \<circ> snd) (filter (\<lambda>(v, q, p). p \<noteq> 0 \<and> find_vq q \<noteq> 0) es)"

definition without_vq :: "(nat \<times> addr \<times> addr) list \<Rightarrow> addr list" where
  "without_vq es = map (snd \<circ> snd) (filter (\<lambda>(v, q, p). p \<noteq> 0 \<and> find_vq q = 0) es)"

lemma vq_simps [simp]:
  "with_vq [] = []" "without_vq [] = []"
  "with_vq ((v, q, p) # es) = (if p \<noteq> 0 \<and> find_vq q \<noteq> 0 then p # with_vq es else with_vq es)"
  "without_vq ((v, q, p) # es) = (if p \<noteq> 0 \<and> find_vq q = 0 then p # without_vq es else without_vq es)"
  by (simp_all add: with_vq_def without_vq_def)

lemma plug_state:
  assumes "linked bound D" "distinct (map fst es)" "set bound \<inter> fst ` set es = {}"
    and "distinct (with_vq es)" "set (devs D) \<inter> set (with_vq es) = {}"
    and "plug es (bound, D) = (bound', D')"
  shows "linked bound' D' \<and> devs D' = devs D @ with_vq es
    \<and> dom (cheap D') = dom (cheap D) \<union> set (with_vq es) \<union> set (without_vq es)"
  using assms
proof (induction es arbitrary: bound D)
  case (Cons e es)
  obtain v q p where e: "e = (v, q, p)" by (metis prod_cases3)
  obtain ret D1 where pr: "virtcons_probe p q v D = (ret, D1)" by fastforce
  let ?b = "if ret = 0 then bound @ [v] else bound"
  have v: "v \<notin> set bound" "v \<notin> fst ` set es" using Cons.prems(2,3) e by auto
  have same: "map ((priv D)(v \<mapsto> p)) bound = map (priv D) bound" using v(1) by auto
  have link: "linked ?b D1" and devs: "devs D1 = devs D @ (if p \<noteq> 0 \<and> find_vq q \<noteq> 0 then [p] else [])"
    and dom: "dom (cheap D1) = (if p = 0 then {} else {p}) \<union> dom (cheap D)"
    using pr Cons.prems(1,5) same e by (auto simp: virtcons_probe_def linked_def Let_def split: if_splits)
  have "linked bound' D' \<and> devs D' = devs D1 @ with_vq es
      \<and> dom (cheap D') = dom (cheap D1) \<union> set (with_vq es) \<union> set (without_vq es)"
    using Cons.prems v e pr devs by (intro Cons.IH [OF link]) (auto split: if_splits)
  then show ?case using devs dom e by auto
qed simp

section \<open>Properties\<close>

lemma lookup_as_option: "devs_inv D \<Longrightarrow> get_crypto_dev_by_minor k D = Some (minor_lookup D k)"
  using lookup_total [of D k] by (auto simp: minor_lookup_def)

definition no_devices :: crypto_driver_data where
  "no_devices = \<lparr>devs = [], next_minor = 0, cheap = Map.empty, priv = Map.empty\<rparr>"

lemma no_devices_inv: "devs_inv no_devices"
  by (simp add: no_devices_def devs_inv_def)

lemma good_vq: "(0x2000 :: addr) \<noteq> 0" "\<not> IS_ERR 0x2000"
  by (simp_all add: IS_ERR_def)

text \<open>C20: hotplug. A successful probe makes the device, and no other, known under the next minor
  number; removing it again frees its structure and leaves every lookup as it was before the
  probe.\<close>

theorem hotplug_round_trip:
  assumes "devs_inv D" "probe_room D (v, q) p"
  shows "\<exists>D1 D2. virtcons_probe p q v D = (0, D1) \<and> devs_inv D1
    \<and> (\<forall>k. get_crypto_dev_by_minor k D1 =
         (if k = next_minor D then Some (Some p) else get_crypto_dev_by_minor k D))
    \<and> virtcons_remove v D1 = Some D2 \<and> devs_inv D2 \<and> cheap D2 p = None
    \<and> (\<forall>k. get_crypto_dev_by_minor k D2 = get_crypto_dev_by_minor k D)"
proof -
  let ?D1 = "probed (v, q) p D"
  let ?D2 = "unlink_device p ?D1"
  have inv1: "devs_inv ?D1" by (rule crypto_minors.add_good [OF assms])
  have inv2: "devs_inv ?D2" by (rule unlink_inv [OF inv1])
  have "virtcons_remove v ?D1 = Some ?D2"
    by (simp add: virtcons_remove_def probed_eq [OF assms(2)])
  moreover have "cheap ?D2 p = None" by (simp add: unlink_device_def)
  moreover have "get_crypto_dev_by_minor k ?D1 =
      (if k = next_minor D then Some (Some p) else get_crypto_dev_by_minor k D)" for k
    using crypto_minors.lookup_add [OF assms, of k]
    by (simp add: lookup_as_option [OF inv1] lookup_as_option [OF assms(1)])
  moreover have "get_crypto_dev_by_minor k ?D2 = get_crypto_dev_by_minor k D" for k
    using crypto_minors.add_then_del [OF assms, of k]
    by (simp add: lookup_as_option [OF inv2] lookup_as_option [OF assms(1)])
  ultimately show ?thesis using probe_ok [OF assms(2)] inv1 inv2 by blast
qed

lemma hotplug_round_trip_witness:
  "\<exists>D1 D2. virtcons_probe 0x1000 0x2000 7 no_devices = (0, D1)
    \<and> get_crypto_dev_by_minor 0 D1 = Some (Some 0x1000) \<and> virtcons_remove 7 D1 = Some D2
    \<and> get_crypto_dev_by_minor 0 D2 = Some None"
proof -
  have "probe_room no_devices (7, 0x2000) 0x1000"
    using good_vq by (simp add: probe_room_def no_devices_def)
  moreover have "next_minor no_devices = 0" "get_crypto_dev_by_minor 0 no_devices = Some None"
    by (simp_all add: no_devices_def get_crypto_dev_by_minor_def)
  ultimately show ?thesis using hotplug_round_trip [OF no_devices_inv, of 7 "0x2000" "0x1000"] by fastforce
qed

text \<open>Minor numbers run out. They are never reused, and only the first 32 have device numbers:
  once 32 devices have come and gone, a probe still returns 0, but the new device is found under no
  minor number that can be opened.\<close>

theorem devices_beyond_32_unreachable:
  assumes "devs_inv D" "probe_room D (v, q) p" "CRYPTO_NR_DEVICES \<le> next_minor D"
  shows "\<exists>D1. virtcons_probe p q v D = (0, D1) \<and> p \<in> set (devs D1)
    \<and> (\<forall>k < CRYPTO_NR_DEVICES. get_crypto_dev_by_minor k D1 \<noteq> Some (Some p))"
proof -
  let ?D1 = "probed (v, q) p D"
  have p: "p \<notin> set (devs D)" using assms(1,2) by (auto simp: probe_room_def devs_inv_def)
  have inv1: "devs_inv ?D1" by (rule crypto_minors.add_good [OF assms(1,2)])
  have "get_crypto_dev_by_minor k ?D1 \<noteq> Some (Some p)" if "k < CRYPTO_NR_DEVICES" for k
  proof -
    have "k \<noteq> next_minor D" using that assms(3) by auto
    then have "minor_lookup ?D1 k = minor_lookup D k"
      using crypto_minors.lookup_add [OF assms(1,2), of k] by simp
    moreover have "minor_lookup D k \<noteq> Some p" using p by (simp add: minor_lookup_iff [OF assms(1)])
    ultimately show ?thesis by (simp add: lookup_as_option [OF inv1])
  qed
  moreover have "p \<in> set (devs ?D1)" by (simp add: probed_eq [OF assms(2)])
  ultimately show ?thesis using probe_ok [OF assms(2)] by blast
qed

lemma devices_beyond_32_unreachable_witness:
  "\<exists>D1. virtcons_probe 0x1000 0x2000 7 (no_devices\<lparr>next_minor := 32\<rparr>) = (0, D1)
    \<and> (\<forall>k < 32. get_crypto_dev_by_minor k D1 \<noteq> Some (Some 0x1000))"
proof -
  have "devs_inv (no_devices\<lparr>next_minor := 32\<rparr>)" "probe_room (no_devices\<lparr>next_minor := 32\<rparr>) (7, 0x2000) 0x1000"
    "CRYPTO_NR_DEVICES \<le> next_minor (no_devices\<lparr>next_minor := 32\<rparr>)"
    using good_vq by (simp_all add: devs_inv_def probe_room_def no_devices_def CRYPTO_NR_DEVICES_def)
  from devices_beyond_32_unreachable [OF this] show ?thesis by (auto simp: CRYPTO_NR_DEVICES_def)
qed

text \<open>A probe that finds no virtqueue returns -ENXIO and leaks: the structure it has allocated
  is on no list, no removal frees it.\<close>

theorem failed_probe_leaks:
  assumes "p \<noteq> 0" "p \<notin> set (devs D)" "IS_ERR q"
  shows "\<exists>D1. virtcons_probe p q v D = (- ENXIO, D1) \<and> devs D1 = devs D \<and> next_minor D1 = next_minor D
    \<and> cheap D1 p \<noteq> None \<and> virtcons_remove v D1 = None"
  using assms by (simp add: virtcons_probe_def find_vq_def virtcons_remove_def Let_def)

lemma failed_probe_leaks_witness:
  "\<exists>D1. virtcons_probe 0x1000 (- 19) 7 no_devices = (- ENXIO, D1) \<and> cheap D1 0x1000 \<noteq> None"
  using failed_probe_leaks [of "0x1000" no_devices "- 19" 7] by (auto simp: no_devices_def IS_ERR_def)

text \<open>The guest module is loaded completely or not at all: 0 needs both registrations and the
  virtio core, an error of the virtio core takes the character devices back, and every error is
  returned as it came.\<close>

theorem crypto_module_all_or_nothing:
  assumes "region r0 = None" "\<not> cdev_live r0" "reg \<le> 0" "add \<le> 0" "virtio \<le> 0"
    and "init_module reg add virtio (r0, D, False) = (ret, r1, D1, b)"
  shows "ret = (if reg < 0 then reg else if add < 0 then add else virtio)
    \<and> (if ret = 0 then region r1 = Some CRYPTO_NR_DEVICES \<and> cdev_live r1 \<and> b \<and> devs D1 = [] else r1 = r0 \<and> \<not> b)"
  using assms by (cases r0)
    (auto simp: init_module_def crypto_chrdev_init_def crypto_chrdev_destroy_def Let_def split: if_splits)

lemma crypto_module_all_or_nothing_witness:
  "fst (init_module 0 0 (- ENODEV) (\<lparr>region = None, cdev_live = False\<rparr>, no_devices, False)) = - ENODEV
   \<and> fst (snd (init_module 0 0 (- ENODEV) (\<lparr>region = None, cdev_live = False\<rparr>, no_devices, False))) =
       \<lparr>region = None, cdev_live = False\<rparr>"
proof -
  obtain ret r1 D1 b where i: "init_module 0 0 (- ENODEV) (\<lparr>region = None, cdev_live = False\<rparr>, no_devices, False) = (ret, r1, D1, b)"
    by (metis surj_pair)
  show ?thesis using crypto_module_all_or_nothing [OF _ _ _ _ _ i] i by simp
qed

text \<open>C19: load, plug, unload. After a successful load and any sequence of probes of different devices,
  unloading removes every bound device without an Oops, leaves no device listed and nothing
  registered, and frees every device structure but those of the probes that found no virtqueue.\<close>

theorem unload_removes_devices:
  assumes "init_module 0 0 0 (r0, no_devices, False) = (ret, r1, D1, b)"
    and "distinct (map fst es)" "distinct (with_vq es @ without_vq es)"
    and "plug es ([], D1) = (bound, D2)"
  shows "ret = 0 \<and> length bound = length (with_vq es)
    \<and> (\<exists>r3 D3. fini_module bound (r1, D2, b) = Some (r3, D3, False) \<and> region r3 = None \<and> \<not> cdev_live r3
         \<and> devs D3 = [] \<and> dom (cheap D3) = set (without_vq es))"
proof -
  have ret: "ret = 0" and D1: "D1 = no_devices"
    using assms(1) by (auto simp: init_module_def crypto_chrdev_init_def no_devices_def Let_def)
  have "linked [] no_devices" by (simp add: linked_def no_devices_def)
  then have st: "linked bound D2" "devs D2 = with_vq es" "dom (cheap D2) = set (with_vq es) \<union> set (without_vq es)"
    using plug_state [of "[]" no_devices es bound D2] assms(2-4) D1 by (auto simp: no_devices_def)
  then obtain D3 where D3: "unbind bound D2 = Some D3" "devs D3 = []" "cheap D3 = cheap D2 |` (- set (devs D2))"
    using unbind_all by blast
  have "dom (cheap D3) = set (without_vq es)"
    using D3(3) st(2,3) assms(3) by auto
  moreover have "length bound = length (with_vq es)"
    using st(1,2) by (metis length_map linked_def)
  ultimately show ?thesis
    using ret D3 by (simp add: fini_module_def crypto_chrdev_destroy_def Let_def)
qed

lemma unload_removes_devices_witness:
  "\<exists>r1 D1 D2 r3 D3. init_module 0 0 0 (\<lparr>region = None, cdev_live = False\<rparr>, no_devices, False) = (0, r1, D1, True)
    \<and> plug [(1, 0x2000, 0x1000), (2, - 19, 0x1100)] ([], D1) = ([1], D2)
    \<and> fini_module [1] (r1, D2, True) = Some (r3, D3, False) \<and> dom (cheap D3) = {0x1100}"
proof -
  have vq: "find_vq 0x2000 = 0x2000" "find_vq (- 19) = 0" by (simp_all add: find_vq_def IS_ERR_def)
  let ?r = "\<lparr>region = None, cdev_live = False\<rparr>" and ?es = "[(1, 0x2000, 0x1000), (2, - 19, 0x1100)] :: (nat \<times> addr \<times> addr) list"
  obtain ret r1 D1 b where i: "init_module 0 0 0 (?r, no_devices, False) = (ret, r1, D1, b)" by (metis surj_pair)
  then have b: "b" by (auto simp: init_module_def crypto_chrdev_init_def Let_def)
  obtain bound D2 where pl: "plug ?es ([], D1) = (bound, D2)" by fastforce
  have "bound = [1]" using pl vq by (simp add: virtcons_probe_def Let_def)
  then show ?thesis
    using unload_removes_devices [OF i _ _ pl] i pl b vq by auto
qed

end
