(* ===== verification/CryptoGuest.thy ===== *)
theory CryptoGuest
  imports Virtio CryptoModule "HOL-Library.Multiset"
begin

text \<open>
  The file operations of the guest driver, \<open>guest/crypto-chrdev.c\<close>: open, release and ioctl build
  a request of segments, hand it to the host and wait for its return. The kernel objects that are
  allocated and freed on the way are counted in a multiset.
\<close>

section \<open>State\<close>

text \<open>The user's memory, as the driver accesses it: bytes, and the structures the ioctls point to.\<close>

record user_mem =
  um_bytes :: "addr \<rightharpoonup> u8"
  um_session :: "addr \<rightharpoonup> session_op"
  um_u32 :: "addr \<rightharpoonup> u32"
  um_crypt :: "addr \<rightharpoonup> crypt_op"

text \<open>The kernel objects of the driver.\<close>

datatype kobj =
    K_crof
  | K_syscall_type
  | K_host_ret_val
  | K_host_fd
  | K_ioctl_cmd
  | K_sess
  | K_crypt
  | K_sess_key
  | K_session_id
  | K_crypt_dst
  | K_crypt_iv
  | K_crypt_src

text \<open>\<open>struct crypto_open_file\<close>: the address of the device and the host's descriptor.\<close>

record crypto_open_file =
  crof_dev :: addr
  crof_fd :: u32

record 'h guest =
  live :: "kobj multiset"
  kcalls :: nat
  um :: user_mem
  host :: 'h

text \<open>
  The platform: whether the n-th \<open>kzalloc\<close> succeeds and its address, the build, and the host
  side.
\<close>

record 'h platform =
  kz :: "nat \<Rightarrow> bool"
  kaddr :: "nat \<Rightarrow> addr"
  build_debug :: bool
  vq_pop :: "request \<Rightarrow> bool"
  hos :: "'h host_os"
  hmap :: host_map

section \<open>Kernel services\<close>

text \<open>
  \<open>kzalloc_ptr\<close> answers the pointer, null when there is no memory. \<open>kzalloc\<close> is an allocation
  whose result the code writes to at once, without a check: an Oops when it fails. An allocation of
  0 bytes is the constant \<open>ZERO_SIZE_PTR\<close>, no object, and one of an impossible size fails.
\<close>

definition kzalloc_ptr :: "'h platform \<Rightarrow> kobj \<Rightarrow> 'h guest \<Rightarrow> addr \<times> 'h guest" where
  "kzalloc_ptr K x g =
     (if kz K (kcalls g) then (kaddr K (kcalls g), g\<lparr>live := add_mset x (live g), kcalls := Suc (kcalls g)\<rparr>)
      else (0, g\<lparr>kcalls := Suc (kcalls g)\<rparr>))"

definition kzalloc :: "'h platform \<Rightarrow> kobj \<Rightarrow> 'h guest \<Rightarrow> 'h guest option" where
  "kzalloc K x g = (case kzalloc_ptr K x g of (p, g) \<Rightarrow> if p = 0 then None else Some g)"

definition ZERO_SIZE_PTR :: addr where "ZERO_SIZE_PTR = 16"

definition kzalloc_sized :: "'h platform \<Rightarrow> kobj \<Rightarrow> nat \<Rightarrow> 'h guest \<Rightarrow> addr \<times> 'h guest" where
  "kzalloc_sized K x n g = (if n = 0 then (ZERO_SIZE_PTR, g\<lparr>kcalls := Suc (kcalls g)\<rparr>) else kzalloc_ptr K x g)"

definition kzalloc_refused :: "'h guest \<Rightarrow> 'h guest" where
  "kzalloc_refused g = g\<lparr>kcalls := Suc (kcalls g)\<rparr>"

definition kfree :: "kobj \<Rightarrow> 'h guest \<Rightarrow> 'h guest" where
  "kfree x g = g\<lparr>live := live g - {#x#}\<rparr>"

definition kfree_sized :: "kobj \<Rightarrow> nat \<Rightarrow> 'h guest \<Rightarrow> 'h guest" where
  "kfree_sized x n g = (if n = 0 then g else kfree x g)"

text \<open>\<open>copy_from_user\<close> and \<open>copy_to_user\<close> for a run of bytes.\<close>

definition user_read :: "user_mem \<Rightarrow> addr \<Rightarrow> nat \<Rightarrow> u8 list option" where
  "user_read u p n = those (map (\<lambda>i. um_bytes u (p + of_nat i)) [0..<n])"

definition user_write :: "user_mem \<Rightarrow> addr \<Rightarrow> u8 list \<Rightarrow> user_mem option" where
  "user_write u p bs =
     (if list_all (\<lambda>i. um_bytes u (p + of_nat i) \<noteq> None) [0..<length bs]
      then Some (u\<lparr>um_bytes := fold (\<lambda>i m. m(p + of_nat i \<mapsto> bs ! i)) [0..<length bs] (um_bytes u)\<rparr>)
      else None)"

text \<open>
  \<open>virtqueue_add_sgs\<close>, \<open>virtqueue_kick\<close> and the loop on \<open>virtqueue_get_buf\<close>, under the
  device's spinlock: the driver waits until the host has pushed the element back. If it never does,
  the loop does not end: \<open>None\<close>.
\<close>

definition exchange :: "'h platform \<Rightarrow> request \<Rightarrow> 'h guest \<Rightarrow> (request \<times> 'h guest) option" where
  "exchange K rq g = do {
     (pushed, rq', h) \<leftarrow> vq_handle_output (vq_pop K) (hos K) (hmap K) rq (host g);
     if pushed then Some (rq', g\<lparr>host := h\<rparr>) else None
   }"

section \<open>Open and release\<close>

text \<open>
  \<open>crypto_chrdev_open\<close>, of the minor number \<open>k\<close>, with the driver's devices \<open>D\<close>. The first segment is made from \<open>&syscall_type\<close>, the address of the pointer variable: its content is the pointer,
  not the 0 it points to. The result has the file's private data.
\<close>

definition crypto_chrdev_open ::
  "'h platform \<Rightarrow> int \<Rightarrow> crypto_driver_data \<Rightarrow> u32 \<Rightarrow> 'h guest
     \<Rightarrow> (int \<times> crypto_open_file option \<times> 'h guest) option"
where
  "crypto_chrdev_open K nonseekable D k g = do {
     let syscall_type = kaddr K (kcalls g);
     g \<leftarrow> kzalloc K K_syscall_type g;
     if nonseekable < 0 then Some (nonseekable, None, g)
     else do {
       dev \<leftarrow> get_crypto_dev_by_minor k D;
       case dev of
         None \<Rightarrow> Some (- ENODEV, None, g)
       | Some crdev \<Rightarrow>
           (case kzalloc_ptr K K_crof g of (p, g) \<Rightarrow>
              if p = 0 then Some (- ENOMEM, None, g)
              else do {
                let crof = \<lparr>crof_dev = crdev, crof_fd = word_of_int (-1)\<rparr>;
                ((outs, ins), g) \<leftarrow> exchange K ([Seg_ptr syscall_type], [Seg_u32 (crof_fd crof)]) g;
                s \<leftarrow> sg ins 0;
                fd \<leftarrow> seg_u32 s;
                let crof = crof\<lparr>crof_fd := fd\<rparr>;
                Some (if sint fd < 0 then - ENODEV else nonseekable, Some crof, g)
              })
     }
   }"

definition crypto_chrdev_release ::
  "'h platform \<Rightarrow> crypto_open_file option \<Rightarrow> 'h guest \<Rightarrow> (int \<times> 'h guest) option"
where
  "crypto_chrdev_release K private_data g = do {
     crof \<leftarrow> private_data;
     g \<leftarrow> kzalloc K K_syscall_type g;
     (rq, g) \<leftarrow> exchange K ([Seg_u32 SYSCALL_CLOSE, Seg_u32 (crof_fd crof)], []) g;
     Some (0, kfree K_crof g)
   }"

definition crypto_chrdev_read :: int where
  "crypto_chrdev_read = - EINVAL"

section \<open>Ioctl\<close>

text \<open>
  The first switch: what is added to the common three segments, with \<open>data_length\<close>, or an early
  return. The early returns free nothing. The pointers to the objects that have been allocated without
  a write, \<open>host_ret_val\<close>, \<open>sess\<close> and \<open>crypt\<close>, are arguments: using a null one, also as a
  segment, is an Oops.
\<close>

datatype prepared = Early int | Go int "seg list" "seg list"

definition gsession_prepare ::
  "'h platform \<Rightarrow> addr \<Rightarrow> addr \<Rightarrow> addr \<Rightarrow> 'h guest \<Rightarrow> (prepared \<times> 'h guest) option"
where
  "gsession_prepare K host_ret_val sess arg g =
     (if sess = 0 then None
      else case um_session (um g) arg of
        None \<Rightarrow> Some (Early (- EFAULT), g)
      | Some s \<Rightarrow>
          (case kzalloc_sized K K_sess_key (unat (keylen s)) g of (sess_key, g) \<Rightarrow>
             if sess_key = 0 then None
             else case user_read (um g) (key s) (unat (keylen s)) of
               None \<Rightarrow> Some (Early (- EFAULT), g)
             | Some k \<Rightarrow>
                 if host_ret_val = 0 then None
                 else Some (Go 0 [Seg_bytes k] [Seg_session s, Seg_u32 0], g)))"

definition fsession_prepare ::
  "'h platform \<Rightarrow> addr \<Rightarrow> addr \<Rightarrow> 'h guest \<Rightarrow> (prepared \<times> 'h guest) option"
where
  "fsession_prepare K host_ret_val arg g = do {
     g \<leftarrow> kzalloc K K_session_id g;
     case um_u32 (um g) arg of
       None \<Rightarrow> Some (Early (- EFAULT), g)
     | Some i \<Rightarrow>
         if host_ret_val = 0 then None
         else Some (Go 0 [Seg_u32 i] [Seg_u32 0], g)
   }"

text \<open>
  \<open>data_length\<close> is an int: with a length of \<open>2 ^ 31\<close> or more the two allocations fail and
  \<open>copy_from_user\<close> refuses the size. A debug build prints the first byte of the source and of the
  destination, which do not exist when the length is 0.
\<close>

definition crypt_prepare ::
  "'h platform \<Rightarrow> addr \<Rightarrow> addr \<Rightarrow> addr \<Rightarrow> 'h guest \<Rightarrow> (prepared \<times> 'h guest) option"
where
  "crypt_prepare K host_ret_val crypt arg g =
     (if crypt = 0 then None
      else case um_crypt (um g) arg of
        None \<Rightarrow> Some (Early (- EFAULT), g)
      | Some c \<Rightarrow>
          let data_length = sint (op_len c) in
          if data_length < 0 then
            Some (Early (- EFAULT), kzalloc_refused (snd (kzalloc_ptr K K_crypt_iv (kzalloc_refused g))))
          else
            (case kzalloc_sized K K_crypt_dst (nat data_length) g of (crypt_dst, g) \<Rightarrow>
            (case kzalloc_ptr K K_crypt_iv g of (crypt_iv, g) \<Rightarrow>
            (case kzalloc_sized K K_crypt_src (nat data_length) g of (crypt_src, g) \<Rightarrow>
               if crypt_src = 0 then None
               else case user_read (um g) (op_src c) (nat data_length) of
                 None \<Rightarrow> Some (Early (- EFAULT), g)
               | Some src \<Rightarrow>
                   if build_debug K \<and> src = [] then None
                   else if crypt_iv = 0 then None
                   else case user_read (um g) (op_iv c) VIRTIO_CRYPTODEV_BLOCK_SIZE of
                     None \<Rightarrow> Some (Early (- EFAULT), g)
                   | Some iv \<Rightarrow>
                       if crypt_dst = 0 \<or> host_ret_val = 0 then None
                       else Some (Go data_length [Seg_crypt c, Seg_bytes src, Seg_bytes iv]
                                    [Seg_bytes (replicate (nat data_length) 0), Seg_u32 0], g)))))"

definition ioctl_prepare ::
  "'h platform \<Rightarrow> addr \<Rightarrow> addr \<Rightarrow> addr \<Rightarrow> u32 \<Rightarrow> addr \<Rightarrow> 'h guest \<Rightarrow> (prepared \<times> 'h guest) option"
where
  "ioctl_prepare K host_ret_val sess crypt cmd arg g =
     (if cmd = CIOCGSESSION then gsession_prepare K host_ret_val sess arg g
      else if cmd = CIOCFSESSION then fsession_prepare K host_ret_val arg g
      else if cmd = CIOCCRYPT then crypt_prepare K host_ret_val crypt arg g
      else Some (Go 0 [] [], g))"

text \<open>
  The second switch: the answer goes back to the user; the flag says that the function returns at
  once. \<open>returning_struct->dst\<close> is read from the user's structure directly.
\<close>

definition ioctl_finish :: "u32 \<Rightarrow> addr \<Rightarrow> int \<Rightarrow> seg list \<Rightarrow> 'h guest \<Rightarrow> (bool \<times> 'h guest) option" where
  "ioctl_finish cmd arg data_length ins g =
     (if cmd = CIOCGSESSION then
        (case sg ins 0 of
           Some (Seg_session s) \<Rightarrow>
             (case um_session (um g) arg of
                None \<Rightarrow> Some (True, g)
              | Some _ \<Rightarrow> Some (False, g\<lparr>um := (um g)\<lparr>um_session := (um_session (um g))(arg \<mapsto> s)\<rparr>\<rparr>))
         | _ \<Rightarrow> None)
      else if cmd = CIOCFSESSION then Some (False, kfree K_session_id g)
      else if cmd = CIOCCRYPT then
        (case sg ins 0 of
           Some (Seg_bytes dst) \<Rightarrow>
             (case um_crypt (um g) arg of
                None \<Rightarrow> None
              | Some c \<Rightarrow>
                  (case user_write (um g) (op_dst c) (take (nat data_length) dst) of
                     None \<Rightarrow> Some (True, g)
                   | Some u \<Rightarrow>
                       let g = g\<lparr>um := u\<rparr>;
                           g = kfree_sized K_crypt_dst (nat data_length) g;
                           g = kfree K_crypt_iv g;
                           g = kfree_sized K_crypt_src (nat data_length) g
                       in Some (False, g)))
         | _ \<Rightarrow> None)
      else Some (False, g))"

definition crypto_chrdev_ioctl ::
  "'h platform \<Rightarrow> crypto_open_file option \<Rightarrow> u32 \<Rightarrow> addr \<Rightarrow> 'h guest \<Rightarrow> (int \<times> 'h guest) option"
where
  "crypto_chrdev_ioctl K private_data cmd arg g = do {
     crof \<leftarrow> private_data;
     g \<leftarrow> kzalloc K K_syscall_type g;
     let (host_ret_val, g) = kzalloc_ptr K K_host_ret_val g;
     g \<leftarrow> kzalloc K K_host_fd g;
     g \<leftarrow> kzalloc K K_ioctl_cmd g;
     let (sess, g) = kzalloc_ptr K K_sess g;
     let (crypt, g) = kzalloc_ptr K K_crypt g;
     (prep, g) \<leftarrow> ioctl_prepare K host_ret_val sess crypt cmd arg g;
     case prep of
       Early r \<Rightarrow> Some (r, g)
     | Go data_length outs ins \<Rightarrow> do {
         ((outs', ins'), g) \<leftarrow>
           exchange K ([Seg_u32 SYSCALL_IOCTL, Seg_u32 (crof_fd crof), Seg_u32 cmd] @ outs, ins) g;
         (early, g) \<leftarrow> ioctl_finish cmd arg data_length ins' g;
         if early then Some (- EFAULT, g)
         else Some (0, kfree K_ioctl_cmd (kfree K_host_ret_val (kfree K_host_fd (kfree K_syscall_type g))))
       }
   }"

section \<open>Lemmas\<close>

text \<open>Memory is never short, and the host pops every request without an empty segment.\<close>

definition ample :: "'h platform \<Rightarrow> bool" where
  "ample K \<longleftrightarrow> (\<forall>n. kz K n \<and> kaddr K n \<noteq> 0)
     \<and> (\<forall>rq. (\<forall>s \<in> set (fst rq @ snd rq). 0 < seg_size s) \<longrightarrow> vq_pop K rq)"

lemma kzalloc_ptr_ample [simp]:
  "ample K \<Longrightarrow> kzalloc_ptr K x g = (kaddr K (kcalls g), g\<lparr>live := add_mset x (live g), kcalls := Suc (kcalls g)\<rparr>)"
  by (simp add: kzalloc_ptr_def ample_def)

lemma kaddr_ample [simp]: "ample K \<Longrightarrow> kaddr K n \<noteq> 0"
  by (simp add: ample_def)

lemma kzalloc_ample [simp]:
  "ample K \<Longrightarrow> kzalloc K x g = Some (g\<lparr>live := add_mset x (live g), kcalls := Suc (kcalls g)\<rparr>)"
  by (simp add: kzalloc_def)

text \<open>The sized allocations: only the size decides whether there is an object.\<close>

definition sized :: "kobj \<Rightarrow> nat \<Rightarrow> kobj multiset" where
  "sized x n = (if n = 0 then {#} else {#x#})"

lemma kzalloc_sized_ample:
  assumes "ample K"
  obtains p where "p \<noteq> 0"
    "kzalloc_sized K x n g = (p, g\<lparr>live := sized x n + live g, kcalls := Suc (kcalls g)\<rparr>)"
proof -
  have "fst (kzalloc_sized K x n g) \<noteq> 0"
    "snd (kzalloc_sized K x n g) = g\<lparr>live := sized x n + live g, kcalls := Suc (kcalls g)\<rparr>"
    using assms by (simp_all add: kzalloc_sized_def sized_def ZERO_SIZE_PTR_def)
  then show thesis using that by (metis prod.collapse)
qed

lemma ample_pop: "ample K \<Longrightarrow> (\<And>s. s \<in> set outs \<union> set ins \<Longrightarrow> 0 < seg_size s) \<Longrightarrow> vq_pop K (outs, ins)"
  by (auto simp: ample_def)

text \<open>The six objects every ioctl allocates first.\<close>

definition ioctl_objects :: "kobj multiset" where
  "ioctl_objects = {#K_syscall_type, K_host_ret_val, K_host_fd, K_ioctl_cmd, K_sess, K_crypt#}"

definition with_objects :: "'h guest \<Rightarrow> 'h guest" where
  "with_objects g = g\<lparr>live := ioctl_objects + live g, kcalls := kcalls g + 6\<rparr>"

lemma with_objects_simps [simp]:
  "um (with_objects g) = um g" "host (with_objects g) = host g"
  "live (with_objects g) = ioctl_objects + live g"
  by (simp_all add: with_objects_def)

text \<open>With memory for every object the preparation does not depend on their addresses; the
  destination, iv and source buffers are added by the crypt operation.\<close>

lemma ioctl_prepare_nonnull:
  assumes "a \<noteq> 0" "b \<noteq> 0" "c \<noteq> 0"
  shows "ioctl_prepare K a b c = ioctl_prepare K 1 1 1"
proof -
  have n: "(a = 0) = False" "(b = 0) = False" "(c = 0) = False" "((1 :: addr) = 0) = False"
    using assms by simp_all
  show ?thesis
    by (intro ext)
      (simp only: ioctl_prepare_def gsession_prepare_def fsession_prepare_def crypt_prepare_def n if_False)
qed

lemma ioctl_unfold:
  assumes "ample K"
  shows "crypto_chrdev_ioctl K (Some crof) cmd arg g = do {
     (prep, g) \<leftarrow> ioctl_prepare K 1 1 1 cmd arg (with_objects g);
     case prep of
       Early r \<Rightarrow> Some (r, g)
     | Go data_length outs ins \<Rightarrow> do {
         ((outs', ins'), g) \<leftarrow> exchange K (ioctl_request (crof_fd crof) cmd outs ins) g;
         (early, g) \<leftarrow> ioctl_finish cmd arg data_length ins' g;
         if early then Some (- EFAULT, g)
         else Some (0, kfree K_ioctl_cmd (kfree K_host_ret_val (kfree K_host_fd (kfree K_syscall_type g))))
       }
   }"
proof -
  have "g\<lparr>live := add_mset K_crypt (add_mset K_sess (add_mset K_ioctl_cmd (add_mset K_host_fd
      (add_mset K_host_ret_val (add_mset K_syscall_type (live g)))))),
      kcalls := Suc (Suc (Suc (Suc (Suc (Suc (kcalls g))))))\<rparr> = with_objects g"
    by (simp add: with_objects_def ioctl_objects_def eval_nat_numeral)
  moreover have "ioctl_prepare K (kaddr K i) (kaddr K j) (kaddr K k) = ioctl_prepare K 1 1 1" for i j k
    using assms by (intro ioctl_prepare_nonnull) simp_all
  ultimately show ?thesis
    using assms unfolding crypto_chrdev_ioctl_def ioctl_request_def by simp
qed

text \<open>The crypt preparation on mapped memory.\<close>

definition with_buffers :: "nat \<Rightarrow> 'h guest \<Rightarrow> 'h guest" where
  "with_buffers n g = g\<lparr>live := sized K_crypt_src n + {#K_crypt_iv#} + sized K_crypt_dst n + live g,
     kcalls := kcalls g + 3\<rparr>"

lemma with_buffers_simps [simp]:
  "um (with_buffers n g) = um g" "host (with_buffers n g) = host g"
  "live (with_buffers n g) = sized K_crypt_src n + {#K_crypt_iv#} + sized K_crypt_dst n + live g"
  by (simp_all add: with_buffers_def)

lemma crypt_prepare_eq:
  assumes ample: "ample K" and c: "um_crypt (um g) arg = Some c" and len: "0 \<le> sint (op_len c)"
  shows "ioctl_prepare K 1 1 1 CIOCCRYPT arg g =
    (let n = nat (sint (op_len c)); g' = with_buffers n g in
     case user_read (um g) (op_src c) n of
       None \<Rightarrow> Some (Early (- EFAULT), g')
     | Some src \<Rightarrow>
         if build_debug K \<and> src = [] then None
         else case user_read (um g) (op_iv c) 16 of
           None \<Rightarrow> Some (Early (- EFAULT), g')
         | Some iv \<Rightarrow> Some (Go (sint (op_len c)) [Seg_crypt c, Seg_bytes src, Seg_bytes iv]
                          [Seg_bytes (replicate n 0), Seg_u32 0], g'))"
proof -
  let ?n = "nat (sint (op_len c))"
  obtain p where p: "p \<noteq> 0"
    "kzalloc_sized K K_crypt_dst ?n g = (p, g\<lparr>live := sized K_crypt_dst ?n + live g, kcalls := Suc (kcalls g)\<rparr>)"
    by (rule kzalloc_sized_ample [OF ample])
  let ?g2 = "g\<lparr>live := add_mset K_crypt_iv (sized K_crypt_dst ?n + live g), kcalls := Suc (Suc (kcalls g))\<rparr>"
  obtain q where q: "q \<noteq> 0"
    "kzalloc_sized K K_crypt_src ?n ?g2 = (q, ?g2\<lparr>live := sized K_crypt_src ?n + live ?g2, kcalls := Suc (kcalls ?g2)\<rparr>)"
    by (rule kzalloc_sized_ample [OF ample])
  have g': "?g2\<lparr>live := sized K_crypt_src ?n + live ?g2, kcalls := Suc (kcalls ?g2)\<rparr> = with_buffers ?n g"
    by (simp add: with_buffers_def eval_nat_numeral)
  have start: "ioctl_prepare K 1 1 1 CIOCCRYPT arg g = crypt_prepare K 1 1 arg g"
    by (simp add: ioctl_prepare_def)
  have iv: "kzalloc_ptr K K_crypt_iv (g\<lparr>live := sized K_crypt_dst ?n + live g, kcalls := Suc (kcalls g)\<rparr>) =
      (kaddr K (Suc (kcalls g)), ?g2)"
    using ample by simp
  have n: "(p = 0) = False" "(q = 0) = False" "(kaddr K (Suc (kcalls g)) = 0) = False" "((1 :: addr) = 0) = False"
    "(sint (op_len c) < 0) = False"
    using p(1) q(1) ample len by simp_all
  show ?thesis
    unfolding start crypt_prepare_def c Let_def option.case prod.case p(2) iv q(2) g' n if_False simp_thms
      VIRTIO_CRYPTODEV_BLOCK_SIZE_def with_buffers_simps
    by (rule TrueI)
qed

text \<open>The exchanges, one by one.\<close>

lemma exchange_fsession:
  assumes "ample K" "os_fsession (hos K) fd i (host g) = (r, h')"
  shows "exchange K (ioctl_request fd CIOCFSESSION [Seg_u32 i] [Seg_u32 0]) g =
    Some ((fst (ioctl_request fd CIOCFSESSION [Seg_u32 i] []), [Seg_u32 (word_of_int r)]), g\<lparr>host := h'\<rparr>)"
proof -
  have "vq_pop K (ioctl_request fd CIOCFSESSION [Seg_u32 i] [Seg_u32 0])"
    unfolding ioctl_request_def using assms(1) by (rule ample_pop) auto
  then show ?thesis
    using assms(2) by (simp add: exchange_def vq_handle_output_def ioctl_request_def host_ioctl_def put_u32_def
        SYSCALL_IOCTL_def SYSCALL_OPEN_def SYSCALL_CLOSE_def)
qed

lemma exchange_gsession:
  assumes "ample K" "k \<noteq> []"
    and "os_gsession (hos K) fd (s\<lparr>key := out_base (hmap K) 3\<rparr>) k (host g) = (r, s', h')"
  shows "exchange K (ioctl_request fd CIOCGSESSION [Seg_bytes k] [Seg_session s, Seg_u32 0]) g =
    Some ((fst (ioctl_request fd CIOCGSESSION [Seg_bytes k] []), [Seg_session s', Seg_u32 (word_of_int r)]),
      g\<lparr>host := h'\<rparr>)"
proof -
  have "vq_pop K (ioctl_request fd CIOCGSESSION [Seg_bytes k] [Seg_session s, Seg_u32 0])"
    unfolding ioctl_request_def using assms(1) by (rule ample_pop) (use assms(2) in auto)
  then show ?thesis
    using assms(3) by (simp add: exchange_def vq_handle_output_def ioctl_request_def host_ioctl_def put_u32_def
        SYSCALL_IOCTL_def SYSCALL_OPEN_def SYSCALL_CLOSE_def)
qed

text \<open>The crypt structure as the host's kernel sees it.\<close>

definition host_view :: "'h platform \<Rightarrow> crypt_op \<Rightarrow> crypt_op" where
  "host_view K c = c\<lparr>op_src := out_base (hmap K) 4, op_iv := out_base (hmap K) 5, op_dst := in_base (hmap K) 0\<rparr>"

lemma exchange_crypt:
  assumes "ample K" "src \<noteq> []" "iv \<noteq> []" "dst \<noteq> []"
    and "os_crypt (hos K) fd (host_view K c) src iv dst (host g) = (r, dst', h')"
  shows "\<exists>outs'. exchange K (ioctl_request fd CIOCCRYPT [Seg_crypt c, Seg_bytes src, Seg_bytes iv]
      [Seg_bytes dst, Seg_u32 0]) g =
    Some ((outs', [Seg_bytes dst', Seg_u32 (word_of_int r)]), g\<lparr>host := h'\<rparr>)"
proof -
  have "vq_pop K (ioctl_request fd CIOCCRYPT [Seg_crypt c, Seg_bytes src, Seg_bytes iv]
      [Seg_bytes dst, Seg_u32 0])"
    unfolding ioctl_request_def using assms(1) by (rule ample_pop) (use assms(2-4) in auto)
  then show ?thesis
    using assms(5) by (simp add: exchange_def vq_handle_output_def ioctl_request_def host_ioctl_def put_u32_def
        SYSCALL_IOCTL_def SYSCALL_OPEN_def SYSCALL_CLOSE_def host_view_def Let_def)
qed

text \<open>What the four final calls of \<open>kfree\<close> leave of the common objects.\<close>

lemma final_frees:
  "live (kfree K_ioctl_cmd (kfree K_host_ret_val (kfree K_host_fd (kfree K_syscall_type
      (g\<lparr>live := ioctl_objects + m\<rparr>))))) = {#K_sess, K_crypt#} + m"
  by (simp add: kfree_def ioctl_objects_def)

lemma kfree_frame [simp]: "um (kfree x g) = um g" "host (kfree x g) = host g" "live (kfree x g) = live g - {#x#}"
  by (simp_all add: kfree_def)

lemma kfree_sized_frame [simp]: "um (kfree_sized x n g) = um g" "host (kfree_sized x n g) = host g"
  by (simp_all add: kfree_sized_def)

lemma unat_sint_nonneg:
  fixes w :: u32
  assumes "0 \<le> sint w"
  shows "unat w = nat (sint w)"
proof -
  have "uint w = uint (word_of_int (sint w) :: u32)" by simp
  also have "\<dots> = sint w mod 2 ^ 32" by (simp only: uint_word_of_int) simp
  also have "\<dots> = sint w" using assms sint_lt [of w] by simp
  finally show ?thesis by (simp add: unat_eq_nat_uint)
qed

text \<open>Bytes written to the user are read back.\<close>

lemma length_user_read: "user_read u p n = Some bs \<Longrightarrow> length bs = n"
proof -
  have "those xs = Some ys \<Longrightarrow> length ys = length xs" for xs :: "'x option list" and ys
    by (induction xs arbitrary: ys) (auto split: option.splits)
  then show "user_read u p n = Some bs \<Longrightarrow> length bs = n" by (fastforce simp: user_read_def)
qed

lemma fold_upd_other:
  "(\<And>i. i \<in> set is \<Longrightarrow> f i \<noteq> a) \<Longrightarrow> fold (\<lambda>i m. m(f i \<mapsto> v i)) is m a = m a"
  by (induction "is" arbitrary: m) auto

lemma user_write_read:
  assumes "user_write u p bs = Some u'" "length bs < 2 ^ 64"
  shows "user_read u' p (length bs) = Some bs"
proof -
  let ?f = "\<lambda>i. p + of_nat i :: addr"
  have inj: "?f i \<noteq> ?f j" if "i < length bs" "j < length bs" "i \<noteq> j" for i j
  proof
    assume "?f i = ?f j"
    then have "(of_nat i :: addr) = of_nat j" by simp
    then have "unat (of_nat i :: addr) = unat (of_nat j :: addr)" by simp
    then show False using that assms(2) by (simp add: unat_of_nat)
  qed
  have u': "um_bytes u' = fold (\<lambda>i m. m(?f i \<mapsto> bs ! i)) [0..<length bs] (um_bytes u)"
    using assms(1) by (auto simp: user_write_def split: if_splits)
  have at: "um_bytes u' (?f j) = Some (bs ! j)" if "j < length bs" for j
  proof -
    have "[0..<length bs] = [0..<j] @ j # [Suc j..<length bs]"
      using that by (metis le_add_diff_inverse less_imp_le upt_add_eq_append upt_conv_Cons zero_le)
    then have split: "um_bytes u' = fold (\<lambda>i m. m(?f i \<mapsto> bs ! i)) [Suc j..<length bs]
        ((fold (\<lambda>i m. m(?f i \<mapsto> bs ! i)) [0..<j] (um_bytes u))(?f j \<mapsto> bs ! j))"
      unfolding u' by simp
    show ?thesis
      unfolding split by (subst fold_upd_other) (use inj that in auto)
  qed
  have "map (\<lambda>i. um_bytes u' (?f i)) [0..<length bs] = map Some bs"
    by (rule nth_equalityI) (simp_all add: at)
  moreover have "those (map Some bs) = Some bs" by (induction bs) simp_all
  ultimately show ?thesis by (simp add: user_read_def)
qed

text \<open>The whole CIOCCRYPT on mapped memory.\<close>

lemma crypt_call:
  assumes "ample K" "um_crypt (um g) arg = Some c" "0 < sint (op_len c)"
    and "user_read (um g) (op_src c) (unat (op_len c)) = Some src"
    and "user_read (um g) (op_iv c) 16 = Some iv"
    and "os_crypt (hos K) (crof_fd crof) (host_view K c) src iv (replicate (unat (op_len c)) 0) (host g) = (r, out, h')"
    and "length out = unat (op_len c)" "user_write (um g) (op_dst c) out = Some u"
  shows "\<exists>g'. crypto_chrdev_ioctl K (Some crof) CIOCCRYPT arg g = Some (0, g')
    \<and> host g' = h' \<and> um g' = u \<and> user_read (um g') (op_dst c) (unat (op_len c)) = Some out
    \<and> live g' = {#K_sess, K_crypt#} + live g"
proof -
  let ?n = "nat (sint (op_len c))"
  have n: "unat (op_len c) = ?n"
    using assms(3) by (intro unat_sint_nonneg) simp
  have ne: "src \<noteq> []" "iv \<noteq> []" "replicate ?n (0 :: u8) \<noteq> []"
    using length_user_read [OF assms(4)] length_user_read [OF assms(5)] assms(3) n by auto
  define g1 where "g1 = with_buffers ?n (with_objects g)"
  have um1: "um g1 = um g" "host g1 = host g" by (simp_all add: g1_def)
  have prep: "ioctl_prepare K 1 1 1 CIOCCRYPT arg (with_objects g) =
      Some (Go (sint (op_len c)) [Seg_crypt c, Seg_bytes src, Seg_bytes iv] [Seg_bytes (replicate ?n 0), Seg_u32 0], g1)"
    using crypt_prepare_eq [of K "with_objects g" arg c] assms(1-5) ne(1) n by (simp add: g1_def Let_def)
  obtain outs' where ex: "exchange K (ioctl_request (crof_fd crof) CIOCCRYPT [Seg_crypt c, Seg_bytes src, Seg_bytes iv]
      [Seg_bytes (replicate ?n 0), Seg_u32 0]) g1 =
      Some ((outs', [Seg_bytes out, Seg_u32 (word_of_int r)]), g1\<lparr>host := h'\<rparr>)"
    using exchange_crypt [OF assms(1) ne, of "crof_fd crof" c g1] assms(6) um1(2) n by auto
  have "take ?n out = out" using assms(7) n by simp
  then have fin: "\<exists>g2. ioctl_finish CIOCCRYPT arg (sint (op_len c)) [Seg_bytes out, Seg_u32 (word_of_int r)] (g1\<lparr>host := h'\<rparr>) =
      Some (False, g2) \<and> um g2 = u \<and> host g2 = h' \<and> live g2 = ioctl_objects + live g"
    using assms(2,3,8) um1(1)
    by (simp add: ioctl_finish_def Let_def kfree_sized_def g1_def sized_def)
  have "user_read u (op_dst c) (unat (op_len c)) = Some out"
  proof -
    have "unat (op_len c) < 2 ^ 64"
      using unsigned_less [of "op_len c", where ?'a = nat] by simp
    then show ?thesis using user_write_read [OF assms(8)] assms(7) by simp
  qed
  then show ?thesis
    using prep ex fin by (auto simp: ioctl_unfold [OF assms(1)] ioctl_objects_def)
qed

section \<open>Properties\<close>

text \<open>The device is transparent. A CIOCCRYPT on mapped memory calls the host's CIOCCRYPT once,
  on the open file's host descriptor, with the user's structure (but for the three buffer pointers),
  the user's source bytes and iv; and what the host computes is what the user then reads at
  \<open>dst\<close>. The buffers are freed; the copies of the two structures stay allocated.\<close>

theorem crypt_is_transparent:
  assumes "ample K" "um_crypt (um g) arg = Some c" "0 < sint (op_len c)"
    and "user_read (um g) (op_src c) (unat (op_len c)) = Some src"
    and "user_read (um g) (op_iv c) 16 = Some iv"
    and "os_crypt (hos K) (crof_fd crof) (host_view K c) src iv (replicate (unat (op_len c)) 0) (host g) = (r, out, h')"
    and "length out = unat (op_len c)" "user_write (um g) (op_dst c) out = Some u"
  shows "\<exists>g'. crypto_chrdev_ioctl K (Some crof) CIOCCRYPT arg g = Some (0, g')
    \<and> host g' = h' \<and> um g' = u \<and> user_read (um g') (op_dst c) (unat (op_len c)) = Some out
    \<and> live g' = {#K_sess, K_crypt#} + live g"
  using assms by (rule crypt_call)

text \<open>A platform and a host whose cipher flips every byte.\<close>

definition flip_os :: "nat host_os" where
  "flip_os = \<lparr>os_open = (\<lambda>h. (3, h)), os_close = (\<lambda>fd h. h),
     os_gsession = (\<lambda>fd s k h. (0, s\<lparr>ses := of_nat h\<rparr>, Suc h)),
     os_fsession = (\<lambda>fd i h. (- EINVAL, h)),
     os_crypt = (\<lambda>fd c src iv dst h. (0, map (\<lambda>b. b XOR 0xFF) src, h))\<rparr>"

definition sample_platform :: "nat platform" where
  "sample_platform = \<lparr>kz = (\<lambda>_. True), kaddr = (\<lambda>n. 0xFFFF880012340000 + of_nat (n mod 1000)), build_debug = True,
     vq_pop = (\<lambda>rq. list_all (\<lambda>s. 0 < seg_size s) (fst rq @ snd rq)), hos = flip_os,
     hmap = \<lparr>out_base = (\<lambda>i. 0x7F0000000000 + of_nat i), in_base = (\<lambda>i. 0x7F0000001000 + of_nat i)\<rparr>\<rparr>"

definition sample_crypt :: crypt_op where
  "sample_crypt = \<lparr>op_ses = 1, op_code = 0, op_flags = 0, op_len = 2, op_src = 0x10, op_dst = 0x20, op_mac = 0, op_iv = 0x30\<rparr>"

definition sample_session :: session_op where
  "sample_session = \<lparr>cipher = 11, mac = 0, keylen = 2, key = 0x10, mackeylen = 0, mackey = 0, ses = 0\<rparr>"

definition sample_guest :: "nat guest" where
  "sample_guest = \<lparr>live = {#K_crof#}, kcalls = 0,
     um = \<lparr>um_bytes = (\<lambda>a. if 0x10 \<le> a \<and> a < 0x40 then Some 5 else None),
       um_session = [0x50 \<mapsto> sample_session], um_u32 = [0x60 \<mapsto> 1], um_crypt = [0x70 \<mapsto> sample_crypt]\<rparr>,
     host = 8\<rparr>"

definition sample_crof :: crypto_open_file where
  "sample_crof = \<lparr>crof_dev = 0, crof_fd = 3\<rparr>"

lemma address_nonzero:
  fixes b :: addr
  assumes "0 < unat b" "unat b + 1000 < 2 ^ 64"
  shows "b + of_nat (n mod 1000) \<noteq> 0"
proof
  assume z: "b + of_nat (n mod 1000) = 0"
  have "unat (of_nat (n mod 1000) :: addr) = n mod 1000" by (simp add: unat_of_nat)
  moreover have "n mod 1000 < 1000" by simp
  ultimately have "unat (b + of_nat (n mod 1000)) = unat b + n mod 1000"
    using assms(2) by (simp add: unat_word_ariths)
  then show False using z assms(1) by simp
qed

lemma sample_platform_ample: "ample sample_platform"
proof -
  have "0xFFFF880012340000 + of_nat (n mod 1000) \<noteq> (0 :: addr)" for n by (rule address_nonzero) simp_all
  then show ?thesis by (auto simp: ample_def sample_platform_def list_all_iff)
qed

lemma sample_reads:
  "user_read (um sample_guest) 0x10 2 = Some [5, 5]" "user_read (um sample_guest) 0x30 16 = Some (replicate 16 5)"
proof -
  have r: "replicate 16 x = [x, x, x, x, x, x, x, x, x, x, x, x, x, x, x, x]" for x :: u8
    by (simp add: numeral_eq_Suc)
  show "user_read (um sample_guest) 0x10 2 = Some [5, 5]" "user_read (um sample_guest) 0x30 16 = Some (replicate 16 5)"
    unfolding r by (simp_all add: user_read_def sample_guest_def upt_rec)
qed

lemma crypt_is_transparent_witness:
  "\<exists>g'. crypto_chrdev_ioctl sample_platform (Some sample_crof) CIOCCRYPT 0x70 sample_guest = Some (0, g')
    \<and> user_read (um g') 0x20 2 = Some [0xFA, 0xFA]"
proof -
  have c: "um_crypt (um sample_guest) 0x70 = Some sample_crypt" by (simp add: sample_guest_def)
  have f: "op_len sample_crypt = 2" "op_src sample_crypt = 0x10" "op_dst sample_crypt = 0x20" "op_iv sample_crypt = 0x30"
    by (simp_all add: sample_crypt_def)
  have run: "os_crypt (hos sample_platform) (crof_fd sample_crof) (host_view sample_platform sample_crypt) [5, 5]
      (replicate 16 5) (replicate (unat (op_len sample_crypt)) 0) (host sample_guest) = (0, [0xFA, 0xFA], host sample_guest)"
    by (simp add: sample_platform_def flip_os_def)
  obtain u where w: "user_write (um sample_guest) 0x20 [0xFA, 0xFA] = Some u"
    by (simp add: user_write_def sample_guest_def upt_rec)
  show ?thesis
    using crypt_is_transparent [OF sample_platform_ample c _ _ _ run] f w sample_reads by auto
qed

text \<open>The whole CIOCGSESSION on mapped memory.\<close>

lemma gsession_call:
  assumes "ample K" "um_session (um g) arg = Some s" "keylen s \<noteq> 0"
    and "user_read (um g) (key s) (unat (keylen s)) = Some k"
    and "os_gsession (hos K) (crof_fd crof) (s\<lparr>key := out_base (hmap K) 3\<rparr>) k (host g) = (r, s', h')"
    and "s' = s\<lparr>key := out_base (hmap K) 3, ses := ses s'\<rparr>"
  shows "\<exists>g'. crypto_chrdev_ioctl K (Some crof) CIOCGSESSION arg g = Some (0, g') \<and> host g' = h'
    \<and> um g' = (um g)\<lparr>um_session := (um_session (um g))(arg \<mapsto> s\<lparr>key := out_base (hmap K) 3, ses := ses s'\<rparr>)\<rparr>
    \<and> live g' = {#K_sess, K_crypt, K_sess_key#} + live g"
proof -
  have ne: "k \<noteq> []"
    using length_user_read [OF assms(4)] assms(3) by (auto simp: unat_eq_zero)
  define g1 where "g1 = (with_objects g)\<lparr>live := ioctl_objects + add_mset K_sess_key (live g),
      kcalls := Suc (kcalls (with_objects g))\<rparr>"
  have g1: "um g1 = um g" "host g1 = host g" by (simp_all add: g1_def)
  have "unat (keylen s) \<noteq> 0" using assms(3) by (simp add: unat_eq_zero)
  then have prep: "ioctl_prepare K 1 1 1 CIOCGSESSION arg (with_objects g) =
      Some (Go 0 [Seg_bytes k] [Seg_session s, Seg_u32 0], g1)"
    using assms(1,2,4) by (simp add: ioctl_prepare_def gsession_prepare_def kzalloc_sized_def g1_def)
  have ex: "exchange K (ioctl_request (crof_fd crof) CIOCGSESSION [Seg_bytes k] [Seg_session s, Seg_u32 0]) g1 =
      Some ((fst (ioctl_request (crof_fd crof) CIOCGSESSION [Seg_bytes k] []), [Seg_session s', Seg_u32 (word_of_int r)]),
        g1\<lparr>host := h'\<rparr>)"
    by (rule exchange_gsession [OF assms(1) ne]) (use assms(5) g1(2) in simp)
  have fin: "ioctl_finish CIOCGSESSION arg 0 [Seg_session s', Seg_u32 (word_of_int r)] (g1\<lparr>host := h'\<rparr>) =
      Some (False, g1\<lparr>host := h', um := (um g)\<lparr>um_session := (um_session (um g))(arg \<mapsto> s')\<rparr>\<rparr>)"
    using assms(2) g1(1) by (simp add: ioctl_finish_def)
  show ?thesis
    using prep ex fin assms(6)
    by (simp add: ioctl_unfold [OF assms(1)] g1_def ioctl_objects_def)
qed

text \<open>Opening a session. The host's CIOCGSESSION gets the key bytes of the user; the user gets
  the session id it assigns. The user's key pointer, however, comes back as an address of the
  emulator, and the call returns 0 whatever the host has answered; the copies of the session, of its
  key and of the crypt structure stay allocated.\<close>

theorem session_opened:
  assumes "ample K" "um_session (um g) arg = Some s" "keylen s \<noteq> 0"
    and "user_read (um g) (key s) (unat (keylen s)) = Some k"
    and "os_gsession (hos K) (crof_fd crof) (s\<lparr>key := out_base (hmap K) 3\<rparr>) k (host g) = (r, s', h')"
    and "s' = s\<lparr>key := out_base (hmap K) 3, ses := ses s'\<rparr>"
  shows "\<exists>g'. crypto_chrdev_ioctl K (Some crof) CIOCGSESSION arg g = Some (0, g') \<and> host g' = h'
    \<and> um g' = (um g)\<lparr>um_session := (um_session (um g))(arg \<mapsto> s\<lparr>key := out_base (hmap K) 3, ses := ses s'\<rparr>)\<rparr>
    \<and> live g' = {#K_sess, K_crypt, K_sess_key#} + live g"
  using assms by (rule gsession_call)

lemma session_opened_witness:
  "\<exists>g'. crypto_chrdev_ioctl sample_platform (Some sample_crof) CIOCGSESSION 0x50 sample_guest = Some (0, g')
    \<and> um_session (um g') 0x50 = Some (sample_session\<lparr>key := 0x7F0000000003, ses := 8\<rparr>)"
proof -
  have s: "um_session (um sample_guest) 0x50 = Some sample_session" by (simp add: sample_guest_def)
  have f: "keylen sample_session = 2" "key sample_session = 0x10" by (simp_all add: sample_session_def)
  have b: "out_base (hmap sample_platform) 3 = 0x7F0000000003" by (simp add: sample_platform_def)
  let ?s = "sample_session\<lparr>key := out_base (hmap sample_platform) 3, ses := 8\<rparr>"
  have run: "os_gsession (hos sample_platform) (crof_fd sample_crof)
      (sample_session\<lparr>key := out_base (hmap sample_platform) 3\<rparr>) [5, 5] (host sample_guest) = (0, ?s, 9)"
    by (simp add: sample_platform_def flip_os_def sample_guest_def sample_session_def)
  show ?thesis
    using session_opened [OF sample_platform_ample s _ _ run] f sample_reads b by auto
qed

text \<open>The whole CIOCFSESSION on mapped memory.\<close>

lemma fsession_call:
  assumes "ample K" "um_u32 (um g) arg = Some i"
    and "os_fsession (hos K) (crof_fd crof) i (host g) = (r, h')"
  shows "\<exists>g'. crypto_chrdev_ioctl K (Some crof) CIOCFSESSION arg g = Some (0, g') \<and> host g' = h' \<and> um g' = um g
    \<and> live g' = {#K_sess, K_crypt#} + live g"
proof -
  define g1 where "g1 = (with_objects g)\<lparr>live := add_mset K_session_id (live (with_objects g)),
      kcalls := Suc (kcalls (with_objects g))\<rparr>"
  have g1: "um g1 = um g" "host g1 = host g" by (simp_all add: g1_def)
  have prep: "ioctl_prepare K 1 1 1 CIOCFSESSION arg (with_objects g) = Some (Go 0 [Seg_u32 i] [Seg_u32 0], g1)"
    using assms(1,2) by (simp add: ioctl_prepare_def fsession_prepare_def g1_def)
  have ex: "exchange K (ioctl_request (crof_fd crof) CIOCFSESSION [Seg_u32 i] [Seg_u32 0]) g1 =
      Some ((fst (ioctl_request (crof_fd crof) CIOCFSESSION [Seg_u32 i] []), [Seg_u32 (word_of_int r)]), g1\<lparr>host := h'\<rparr>)"
    by (rule exchange_fsession [OF assms(1)]) (use assms(3) g1(2) in simp)
  show ?thesis
    using prep ex g1 by (simp add: ioctl_unfold [OF assms(1)] ioctl_finish_def) (simp add: g1_def ioctl_objects_def)
qed

text \<open>The host's verdict is lost. The status word that the host writes for CIOCFSESSION is freed
  unread: the guest's ioctl returns 0 for every answer of the host.\<close>

theorem host_errors_ignored:
  assumes "ample K" "um_u32 (um g) arg = Some i"
    and "os_fsession (hos K) (crof_fd crof) i (host g) = (r, h')"
  shows "\<exists>g'. crypto_chrdev_ioctl K (Some crof) CIOCFSESSION arg g = Some (0, g') \<and> host g' = h' \<and> um g' = um g"
  using fsession_call [OF assms] by blast

lemma host_errors_ignored_witness:
  "os_fsession flip_os 3 1 8 = (- EINVAL, 8) \<and>
   (\<exists>g'. crypto_chrdev_ioctl sample_platform (Some sample_crof) CIOCFSESSION 0x60 sample_guest = Some (0, g'))"
proof -
  have i: "um_u32 (um sample_guest) 0x60 = Some 1" by (simp add: sample_guest_def)
  have run: "os_fsession (hos sample_platform) (crof_fd sample_crof) 1 (host sample_guest) = (- EINVAL, host sample_guest)"
    by (simp add: sample_platform_def flip_os_def)
  show ?thesis using host_errors_ignored [OF sample_platform_ample i run] by (auto simp: flip_os_def)
qed

text \<open>The whole of open: what the host sees is the lower half of the pointer.\<close>

lemma open_call:
  assumes "ample K" "0 \<le> nonseekable" "p = kaddr K (kcalls g)" "get_crypto_dev_by_minor k D = Some (Some d)"
  shows "(ucast p \<notin> {0, 1, 2 :: u32} \<longrightarrow> crypto_chrdev_open K nonseekable D k g =
      Some (- ENODEV, Some \<lparr>crof_dev = d, crof_fd = word_of_int (-1)\<rparr>,
        g\<lparr>live := {#K_crof, K_syscall_type#} + live g, kcalls := kcalls g + 2\<rparr>))
    \<and> (ucast p = (0 :: u32) \<longrightarrow> (case os_open (hos K) (host g) of (fd, h') \<Rightarrow>
        crypto_chrdev_open K nonseekable D k g =
          Some (if sint (word_of_int fd :: u32) < 0 then - ENODEV else nonseekable,
            Some \<lparr>crof_dev = d, crof_fd = word_of_int fd\<rparr>,
            g\<lparr>live := {#K_crof, K_syscall_type#} + live g, kcalls := kcalls g + 2, host := h'\<rparr>)))"
proof -
  have kz: "kz K n" "kaddr K n \<noteq> 0" for n using assms(1) by (simp_all add: ample_def)
  have pop: "vq_pop K ([Seg_ptr p], [Seg_u32 (- 1)])" using assms(1) by (rule ample_pop) auto
  let ?g = "g\<lparr>live := {#K_crof, K_syscall_type#} + live g, kcalls := kcalls g + 2\<rparr>"
  have unknown: "exchange K ([Seg_ptr p], [Seg_u32 (- 1)]) x = Some (([Seg_ptr p], [Seg_u32 (- 1)]), x)"
    if "ucast p \<notin> {0, 1, 2 :: u32}" for x
    using that pop by (cases x) (simp add: exchange_def vq_handle_output_def SYSCALL_OPEN_def SYSCALL_CLOSE_def SYSCALL_IOCTL_def)
  have known: "exchange K ([Seg_ptr p], [Seg_u32 (- 1)]) x =
      (case os_open (hos K) (host x) of (fd, h') \<Rightarrow> Some (([Seg_ptr p], [Seg_u32 (word_of_int fd)]), x\<lparr>host := h'\<rparr>))"
    if "ucast p = (0 :: u32)" for x
    using that pop by (simp add: exchange_def vq_handle_output_def SYSCALL_OPEN_def put_u32_def split: prod.split)
  have neg: "sint (- 1 :: u32) < 0" by simp
  show ?thesis
    using assms(2-4) kz unknown known neg
    by (auto simp: crypto_chrdev_open_def kzalloc_ptr_ample [OF assms(1)] kzalloc_ample [OF assms(1)] Let_def split: prod.splits)
qed

text \<open>C38: an open succeeds by luck only. The word the host takes for the system call number is the
  lower half of a kernel address; unless it happens to be 0, 1 or 2 the host does nothing, the
  descriptor stays -1 and the user gets -ENODEV. With 0 the host's descriptor is stored. The file's
  structure and the system call word are not freed.\<close>

theorem open_sends_pointer:
  assumes "ample K" "0 \<le> nonseekable" "p = kaddr K (kcalls g)" "get_crypto_dev_by_minor k D = Some (Some d)"
  shows "(ucast p \<notin> {0, 1, 2 :: u32} \<longrightarrow> crypto_chrdev_open K nonseekable D k g =
      Some (- ENODEV, Some \<lparr>crof_dev = d, crof_fd = word_of_int (-1)\<rparr>,
        g\<lparr>live := {#K_crof, K_syscall_type#} + live g, kcalls := kcalls g + 2\<rparr>))
    \<and> (ucast p = (0 :: u32) \<longrightarrow> (case os_open (hos K) (host g) of (fd, h') \<Rightarrow>
        crypto_chrdev_open K nonseekable D k g =
          Some (if sint (word_of_int fd :: u32) < 0 then - ENODEV else nonseekable,
            Some \<lparr>crof_dev = d, crof_fd = word_of_int fd\<rparr>,
            g\<lparr>live := {#K_crof, K_syscall_type#} + live g, kcalls := kcalls g + 2, host := h'\<rparr>)))"
  using assms by (rule open_call)

lemma open_sends_pointer_witness:
  "\<exists>g'. crypto_chrdev_open sample_platform 0 (probed (7, 0x2000) 0x1000 no_devices) 0 sample_guest =
    Some (- ENODEV, Some \<lparr>crof_dev = 0x1000, crof_fd = word_of_int (-1)\<rparr>, g') \<and> K_syscall_type \<in># live g'"
proof -
  have "kaddr sample_platform (kcalls sample_guest) = 0xFFFF880012340000"
    by (simp add: sample_platform_def sample_guest_def)
  moreover have "get_crypto_dev_by_minor 0 (probed (7, 0x2000) 0x1000 no_devices) = Some (Some 0x1000)"
    by (simp add: get_crypto_dev_by_minor_def probed_def virtcons_probe_def find_vq_def IS_ERR_def no_devices_def)
  ultimately show ?thesis
    using open_sends_pointer [OF sample_platform_ample, of 0 "0xFFFF880012340000" sample_guest 0] by simp
qed

text \<open>The whole of release.\<close>

lemma release_eq:
  assumes "ample K"
  shows "crypto_chrdev_release K (Some crof) g = Some (0, kfree K_crof (g\<lparr>live := add_mset K_syscall_type (live g),
    kcalls := Suc (kcalls g), host := os_close (hos K) (crof_fd crof) (host g)\<rparr>))"
proof -
  have "vq_pop K ([Seg_u32 SYSCALL_CLOSE, Seg_u32 (crof_fd crof)], [])" using assms by (rule ample_pop) auto
  then have "exchange K ([Seg_u32 SYSCALL_CLOSE, Seg_u32 (crof_fd crof)], []) x =
      Some (([Seg_u32 SYSCALL_CLOSE, Seg_u32 (crof_fd crof)], []), x\<lparr>host := os_close (hos K) (crof_fd crof) (host x)\<rparr>)" for x
    by (simp add: exchange_def vq_handle_output_def SYSCALL_OPEN_def SYSCALL_CLOSE_def)
  then show ?thesis using assms by (simp add: crypto_chrdev_release_def)
qed

text \<open>Release closes what open has opened: exactly one close of the file's host descriptor
  reaches the host, and the file's structure is freed.\<close>

theorem release_closes_host_fd:
  assumes "ample K" "K_crof \<in># live g"
  shows "crypto_chrdev_release K (Some crof) g =
    Some (0, g\<lparr>live := add_mset K_syscall_type (live g - {#K_crof#}), kcalls := Suc (kcalls g),
      host := os_close (hos K) (crof_fd crof) (host g)\<rparr>)"
  using assms by (simp add: release_eq kfree_def)

lemma release_closes_host_fd_witness:
  "crypto_chrdev_release sample_platform (Some sample_crof) sample_guest =
    Some (0, sample_guest\<lparr>live := {#K_syscall_type#}, kcalls := 1, host := 8\<rparr>)"
proof -
  have "K_crof \<in># live sample_guest" by (simp add: sample_guest_def)
  from release_closes_host_fd [OF sample_platform_ample this, of sample_crof] show ?thesis
    by (simp add: sample_guest_def sample_platform_def flip_os_def)
qed

text \<open>What the first switch can produce.\<close>

lemma ioctl_prepare_cases:
  assumes ample: "ample K"
    and key: "cmd = CIOCGSESSION \<Longrightarrow> \<forall>s. um_session (um g) arg = Some s \<longrightarrow> keylen s \<noteq> 0"
    and len: "cmd = CIOCCRYPT \<Longrightarrow> \<forall>c. um_crypt (um g) arg = Some c \<longrightarrow> op_len c \<noteq> 0"
  obtains (early) g' where "ioctl_prepare K 1 1 1 cmd arg g = Some (Early (- EFAULT), g')"
  | (go) n outs ins g' where "ioctl_prepare K 1 1 1 cmd arg g = Some (Go n outs ins, g')"
      "(map kind_of outs, map kind_of ins) = ioctl_kinds cmd"
      "list_all (\<lambda>s. 0 < seg_size s) (outs @ ins)" "um g' = um g"
      "cmd = CIOCCRYPT \<Longrightarrow> um_crypt (um g) arg \<noteq> None"
proof -
  consider (gs) "cmd = CIOCGSESSION" | (fs) "cmd = CIOCFSESSION" | (cr) "cmd = CIOCCRYPT"
    | (other) "cmd \<noteq> CIOCGSESSION" "cmd \<noteq> CIOCFSESSION" "cmd \<noteq> CIOCCRYPT" by blast
  then show thesis
  proof cases
    case gs
    show thesis
    proof (cases "um_session (um g) arg")
      case None
      then show thesis using gs early by (simp add: ioctl_prepare_def gsession_prepare_def)
    next
      case (Some s)
      show thesis
      proof (cases "user_read (um g) (key s) (unat (keylen s))")
        case None
        obtain p where "p \<noteq> 0" "kzalloc_sized K K_sess_key (unat (keylen s)) g =
            (p, g\<lparr>live := sized K_sess_key (unat (keylen s)) + live g, kcalls := Suc (kcalls g)\<rparr>)"
          by (rule kzalloc_sized_ample [OF ample])
        with Some None show thesis
          using gs early by (simp add: ioctl_prepare_def gsession_prepare_def)
      next
        case k: (Some k)
        have "0 < unat (keylen s)" using key [OF gs] Some by (simp add: unat_gt_0)
        then have "0 < length k" "unat (keylen s) \<noteq> 0" using length_user_read [OF k] by simp_all
        then show thesis
          using gs go Some k ample
          by (auto simp: ioctl_prepare_def gsession_prepare_def kzalloc_sized_def ioctl_kinds_def)
      qed
    qed
  next
    case fs
    then show thesis
      using early go ample
      by (cases "um_u32 (um g) arg") (auto simp: ioctl_prepare_def fsession_prepare_def ioctl_kinds_def)
  next
    case cr
    show thesis
    proof (cases "um_crypt (um g) arg")
      case None
      then show thesis using cr early by (simp add: ioctl_prepare_def crypt_prepare_def)
    next
      case (Some c)
      show thesis
      proof (cases "sint (op_len c) < 0")
        case True
        then show thesis using cr early Some by (simp add: ioctl_prepare_def crypt_prepare_def Let_def)
      next
        case False
        let ?n = "nat (sint (op_len c))"
        have n: "0 < ?n" using len [OF cr] Some False unat_sint_nonneg [of "op_len c"] by (simp add: unat_gt_0 [symmetric])
        note eq = crypt_prepare_eq [OF ample Some, unfolded Let_def]
        show thesis
        proof (cases "user_read (um g) (op_src c) ?n")
          case None
          then show thesis using cr early eq False by simp
        next
          case src: (Some src)
          then have ne: "src \<noteq> []" using length_user_read [OF src] n by auto
          show thesis
          proof (cases "user_read (um g) (op_iv c) 16")
            case None
            then show thesis using cr early eq False src ne by simp
          next
            case iv: (Some iv)
            then have "0 < length iv" using length_user_read [OF iv] by simp
            then show thesis using cr go eq Some False src ne iv n by (auto simp: ioctl_kinds_def)
          qed
        qed
      qed
    qed
  next
    case other
    then show thesis using go by (auto simp: ioctl_prepare_def ioctl_kinds_def)
  qed
qed

text \<open>Every ioctl comes back. For any command, any argument and any user memory, as long as the
  lengths in the structures are not 0, the guest neither Oopses nor waits forever, the host reads no
  segment that is not there, and the result is 0 or -EFAULT.\<close>

theorem ioctl_comes_back:
  assumes "ample K"
    and "cmd = CIOCGSESSION \<longrightarrow> (\<forall>s. um_session (um g) arg = Some s \<longrightarrow> keylen s \<noteq> 0)"
    and "cmd = CIOCCRYPT \<longrightarrow> (\<forall>c. um_crypt (um g) arg = Some c \<longrightarrow> op_len c \<noteq> 0)"
  shows "\<exists>r g'. crypto_chrdev_ioctl K (Some crof) cmd arg g = Some (r, g') \<and> (r = 0 \<or> r = - EFAULT)"
proof (rule ioctl_prepare_cases [of K cmd "with_objects g" arg])
  fix g'
  assume "ioctl_prepare K 1 1 1 cmd arg (with_objects g) = Some (Early (- EFAULT), g')"
  then show ?thesis by (simp add: ioctl_unfold [OF assms(1)])
next
  fix n outs ins g1
  assume prep: "ioctl_prepare K 1 1 1 cmd arg (with_objects g) = Some (Go n outs ins, g1)"
    and kinds: "(map kind_of outs, map kind_of ins) = ioctl_kinds cmd"
    and sizes: "list_all (\<lambda>s. 0 < seg_size s) (outs @ ins)"
    and same: "um g1 = um (with_objects g)" "cmd = CIOCCRYPT \<Longrightarrow> um_crypt (um (with_objects g)) arg \<noteq> None"
  let ?rq = "ioctl_request (crof_fd crof) cmd outs ins"
  have "vq_pop K ?rq"
    unfolding ioctl_request_def using assms(1) by (rule ample_pop) (use sizes in \<open>auto simp: list_all_iff\<close>)
  then obtain outs' ins' h' where
    serve: "vq_handle_output (vq_pop K) (hos K) (hmap K) ?rq (host g1) = Some (True, (outs', ins'), h')"
    and gs: "cmd = CIOCGSESSION \<longrightarrow> (\<exists>s w. ins' = [Seg_session s, Seg_u32 w])"
    and cr: "cmd = CIOCCRYPT \<longrightarrow> (\<exists>b w. ins' = [Seg_bytes b, Seg_u32 w])"
    using kinds by (rule crypto_host.first_answer [where H = "hos K" and B = "hmap K" and h = "host g1"])
  have "ioctl_finish cmd arg n ins' (g1\<lparr>host := h'\<rparr>) \<noteq> None"
    using gs cr same by (auto simp: ioctl_finish_def Let_def split: option.splits) blast+
  then obtain early g2 where "ioctl_finish cmd arg n ins' (g1\<lparr>host := h'\<rparr>) = Some (early, g2)"
    by (metis option.exhaust surj_pair)
  then show ?thesis
    using prep serve by (auto simp: ioctl_unfold [OF assms(1)] exchange_def)
qed (use assms in auto)

lemma ioctl_comes_back_witness:
  "\<exists>r g'. crypto_chrdev_ioctl sample_platform (Some sample_crof) CIOCCRYPT 0x99 sample_guest = Some (r, g')
    \<and> (r = 0 \<or> r = - EFAULT)"
  by (rule ioctl_comes_back [OF sample_platform_ample]) (simp_all add: sample_guest_def)

text \<open>C39: a zero length is fatal. In the debug build that the Makefile selects, a CIOCCRYPT with
  length 0 dereferences the pointer of an empty allocation; and a CIOCGSESSION with an empty key,
  which the host refuses to pop, leaves the guest waiting forever with its spinlock held. Neither
  call returns.\<close>

theorem zero_length_never_returns:
  assumes "ample K" "build_debug K" "\<forall>rq. (\<exists>s \<in> set (fst rq). seg_size s = 0) \<longrightarrow> \<not> vq_pop K rq"
    and "um_crypt (um g) arg = Some c" "op_len c = 0" "um_session (um g) arg' = Some s" "keylen s = 0"
  shows "crypto_chrdev_ioctl K (Some crof) CIOCCRYPT arg g = None
    \<and> crypto_chrdev_ioctl K (Some crof) CIOCGSESSION arg' g = None"
proof -
  have empty: "user_read u p 0 = Some []" for u p by (simp add: user_read_def)
  have "ioctl_prepare K 1 1 1 CIOCCRYPT arg (with_objects g) = None"
    using crypt_prepare_eq [OF assms(1), of "with_objects g" arg c] assms(2,4,5) empty by simp
  moreover obtain g1 where prep: "ioctl_prepare K 1 1 1 CIOCGSESSION arg' (with_objects g) =
      Some (Go 0 [Seg_bytes []] [Seg_session s, Seg_u32 0], g1)"
    using assms(6,7) empty by (simp add: ioctl_prepare_def gsession_prepare_def kzalloc_sized_def ZERO_SIZE_PTR_def)
  have "\<not> vq_pop K (ioctl_request (crof_fd crof) CIOCGSESSION [Seg_bytes []] [Seg_session s, Seg_u32 0])"
    using assms(3) by (auto simp: ioctl_request_def)
  then have "exchange K (ioctl_request (crof_fd crof) CIOCGSESSION [Seg_bytes []] [Seg_session s, Seg_u32 0]) g1 = None"
    by (simp add: exchange_def crypto_host.never_pops)
  ultimately show ?thesis using prep by (simp add: ioctl_unfold [OF assms(1)])
qed

lemma zero_length_never_returns_witness:
  "crypto_chrdev_ioctl sample_platform (Some sample_crof) CIOCCRYPT 1
     (sample_guest\<lparr>um := (um sample_guest)\<lparr>um_crypt := [1 \<mapsto> sample_crypt\<lparr>op_len := 0\<rparr>],
        um_session := [1 \<mapsto> sample_session\<lparr>keylen := 0\<rparr>]\<rparr>\<rparr>) = None"
  using zero_length_never_returns [OF sample_platform_ample, of
      "sample_guest\<lparr>um := (um sample_guest)\<lparr>um_crypt := [1 \<mapsto> sample_crypt\<lparr>op_len := 0\<rparr>],
        um_session := [1 \<mapsto> sample_session\<lparr>keylen := 0\<rparr>]\<rparr>\<rparr>" 1 "sample_crypt\<lparr>op_len := 0\<rparr>" 1
      "sample_session\<lparr>keylen := 0\<rparr>" sample_crof]
  by (auto simp: sample_platform_def list_all_iff)

end
