(* ===== verification/Chat.thy ===== *)
theory Chat
  imports CryptoGuest
begin

text \<open>
  The encrypted chat, \<open>encrypted_chat/server.c\<close> and \<open>client.c\<close>. Both programs hold the same
  functions; they differ in the handler of SIGINT and in what surrounds the loop. What arrives on a
  descriptor, how much each \<open>write\<close> takes and what \<open>select\<close> answers are scripts of the
  environment; a call on an exhausted script has not returned yet.
\<close>

section \<open>State\<close>

definition DATA_SIZE :: nat where "DATA_SIZE = 512"
definition BLOCK_SIZE :: nat where "BLOCK_SIZE = 16"
definition KEY_SIZE :: u32 where "KEY_SIZE = 16"

definition COP_ENCRYPT :: u16 where "COP_ENCRYPT = 0"
definition COP_DECRYPT :: u16 where "COP_DECRYPT = 1"
definition CRYPTO_AES_CBC :: u32 where "CRYPTO_AES_CBC = 11"

definition invect :: "u8 list" where
  "invect = map of_char ''0123456789abcdef'' @ [0]"

definition peer_key :: "u8 list" where
  "peer_key = map of_char ''0123456789abcdef'' @ [0]"

definition VERIF :: "u8 list" where
  "VERIF = map of_char ''Sent.'' @ [10]"

datatype fd = Stdin | Stdout | Sock

text \<open>
  The globals of the program and the environment: what the reads of a descriptor will deliver
  (\<open>None\<close> is an error), how many bytes its writes will take (negative is an error), and what has
  been written to it. \<open>rn\<close> is the global \<open>n\<close>.
\<close>

record 'd chat =
  buf :: "u8 list"
  rn :: int
  dec_buf_len :: nat
  sess :: session_op
  conn_active :: bool
  dev :: 'd
  inq :: "fd \<Rightarrow> u8 list option list"
  caps :: "fd \<Rightarrow> int list"
  outq :: "fd \<Rightarrow> u8 list"

text \<open>Addresses of the arrays, and the bytes in front of \<open>buf\<close>.\<close>

record layout =
  at_buf :: addr
  at_data :: addr
  at_invect :: addr
  at_key :: addr
  below :: "int \<Rightarrow> u8"

text \<open>How a function ends when it does not return: \<open>exit\<close>, an access outside an array, or waiting.\<close>

datatype stop = Exit int | Undefined | Blocked

definition ok_then :: "stop + 'a \<Rightarrow> ('a \<Rightarrow> stop + 'b) \<Rightarrow> stop + 'b" where
  "ok_then m f = (case m of Inl e \<Rightarrow> Inl e | Inr x \<Rightarrow> f x)"

lemma ok_then_simps [simp]: "ok_then (Inl e) f = Inl e" "ok_then (Inr x) f = f x"
  by (simp_all add: ok_then_def)

lemma ok_then_InrD: "ok_then m f = Inr y \<Longrightarrow> \<exists>x. m = Inr x \<and> f x = Inr y"
  by (cases m) auto

text \<open>
  The ioctls of \<open>/dev/crypto\<close>, with the bytes that the pointers in the structures point to; a call
  may fail to come back.
\<close>

record 'd crypto_dev =
  d_gsession :: "session_op \<Rightarrow> u8 list \<Rightarrow> 'd \<Rightarrow> (int \<times> session_op \<times> 'd) option"
  d_crypt :: "crypt_op \<Rightarrow> u8 list \<Rightarrow> u8 list \<Rightarrow> 'd \<Rightarrow> (int \<times> u8 list \<times> 'd) option"
  d_fsession :: "u32 \<Rightarrow> 'd \<Rightarrow> (int \<times> 'd) option"

section \<open>System calls\<close>

text \<open>\<open>read(fd, buf, sizeof(buf))\<close>: bytes that do not fit stay in the stream.\<close>

definition sys_read :: "fd \<Rightarrow> 'd chat \<Rightarrow> stop + 'd chat" where
  "sys_read fd s =
     (case inq s fd of
        [] \<Rightarrow> Inl Blocked
      | None # rs \<Rightarrow> Inr (s\<lparr>rn := -1, inq := (inq s)(fd := rs)\<rparr>)
      | Some bs # rs \<Rightarrow>
          Inr (s\<lparr>rn := int (min DATA_SIZE (length bs)), buf := take DATA_SIZE bs @ drop (length bs) (buf s),
            inq := (inq s)(fd := if length bs \<le> DATA_SIZE then rs else Some (drop DATA_SIZE bs) # rs)\<rparr>))"

text \<open>\<open>insist_write\<close>: each element of the list is how much one \<open>write\<close> takes, at most what is left.
  The result has the error of a failed call, the bytes written and the rest of the script.\<close>

fun insist_loop :: "u8 list \<Rightarrow> int list \<Rightarrow> (int option \<times> u8 list \<times> int list) option" where
  "insist_loop [] cs = Some (None, [], cs)"
| "insist_loop bs [] = None"
| "insist_loop bs (c # cs) =
     (if c < 0 then Some (Some c, [], cs)
      else case insist_loop (drop (nat c) bs) cs of
        None \<Rightarrow> None
      | Some (e, out, rest) \<Rightarrow> Some (e, take (nat c) bs @ out, rest))"

definition insist_write :: "fd \<Rightarrow> u8 list \<Rightarrow> 'd chat \<Rightarrow> stop + (int \<times> 'd chat)" where
  "insist_write fd bs s =
     (case insist_loop bs (caps s fd) of
        None \<Rightarrow> Inl Blocked
      | Some (e, out, rest) \<Rightarrow>
          Inr (case e of None \<Rightarrow> int (length bs) | Some r \<Rightarrow> r,
               s\<lparr>caps := (caps s)(fd := rest), outq := (outq s)(fd := outq s fd @ out)\<rparr>))"

text \<open>\<open>raise(SIGINT)\<close>: the handler \<open>clear_conn_active\<close> of the server leaves when no connection is
  active.\<close>

definition clear_conn_active :: "bool \<Rightarrow> 'd chat \<Rightarrow> stop + 'd chat" where
  "clear_conn_active server s =
     (if server \<and> \<not> conn_active s then Inl (Exit 0) else Inr (s\<lparr>conn_active := False\<rparr>))"

section \<open>Encryption\<close>

definition chat_op :: "layout \<Rightarrow> u16 \<Rightarrow> 'd chat \<Rightarrow> crypt_op" where
  "chat_op L code s = \<lparr>op_ses = ses (sess s), op_code = code, op_flags = 0, op_len = of_nat DATA_SIZE,
     op_src = at_buf L, op_dst = at_data L, op_mac = 0, op_iv = at_invect L\<rparr>"

definition encrypt :: "layout \<Rightarrow> 'd crypto_dev \<Rightarrow> 'd chat \<Rightarrow> stop + (int \<times> 'd chat)" where
  "encrypt L C s =
     (case d_crypt C (chat_op L COP_ENCRYPT s) (buf s) (take BLOCK_SIZE invect) (dev s) of
        None \<Rightarrow> Inl Blocked
      | Some (r, encrypted, d) \<Rightarrow>
          let s = s\<lparr>dev := d\<rparr> in
          if r \<noteq> 0 then Inr (1, s)
          else Inr (0, s\<lparr>buf := fold (\<lambda>i b. b[i := encrypted ! i]) [0..<DATA_SIZE] (buf s)\<rparr>))"

text \<open>The copying loop of \<open>decrypt\<close>, which stops at the first NUL: nothing else stops it at the end
  of the arrays.\<close>

function decrypt_loop :: "u8 list \<Rightarrow> nat \<Rightarrow> u8 list \<Rightarrow> (u8 list \<times> nat) option" where
  "decrypt_loop decrypted i b =
     (if length decrypted \<le> i then None
      else if decrypted ! i = 0 then Some (b, i)
      else if length b \<le> i then None
      else decrypt_loop decrypted (i + 1) (b[i := decrypted ! i]))"
  by pat_completeness auto
termination by (relation "measure (\<lambda>(decrypted, i, b). length decrypted - i)") auto

declare decrypt_loop.simps [simp del]

definition decrypt :: "layout \<Rightarrow> 'd crypto_dev \<Rightarrow> 'd chat \<Rightarrow> stop + (int \<times> 'd chat)" where
  "decrypt L C s =
     (case d_crypt C (chat_op L COP_DECRYPT s) (buf s) (take BLOCK_SIZE invect) (dev s) of
        None \<Rightarrow> Inl Blocked
      | Some (r, decrypted, d) \<Rightarrow>
          let s = s\<lparr>dev := d\<rparr> in
          if r \<noteq> 0 then Inr (1, s)
          else case decrypt_loop decrypted 0 (replicate 512 13) of
            None \<Rightarrow> Inl Undefined
          | Some (b, i) \<Rightarrow>
              if length b \<le> i then Inl Undefined
              else Inr (0, s\<lparr>buf := b[i := 13], dec_buf_len := i\<rparr>))"

section \<open>The two loops\<close>

text \<open>The bodies of \<open>read_decrypt_write\<close> and \<open>read_encrypt_write\<close>; the flag is False at a break.\<close>

definition decrypt_body ::
  "bool \<Rightarrow> layout \<Rightarrow> 'd crypto_dev \<Rightarrow> fd \<Rightarrow> fd \<Rightarrow> 'd chat \<Rightarrow> stop + (bool \<times> 'd chat)"
where
  "decrypt_body server L C rfd wfd s =
     ok_then (sys_read rfd s) (\<lambda>s.
     ok_then (decrypt L C s) (\<lambda>(r, s).
     if r \<noteq> 0 then Inl (Exit 1)
     else ok_then (insist_write wfd (buf s) s) (\<lambda>(w, s).
     if w \<noteq> int DATA_SIZE then Inl (Exit 1)
     else if rn s = 0 then ok_then (clear_conn_active server s) (\<lambda>s. Inr (False, s))
     else Inr (\<not> buf s ! dec_buf_len s = 13, s))))"

definition buf_at :: "layout \<Rightarrow> 'd chat \<Rightarrow> int \<Rightarrow> u8" where
  "buf_at L s i = (if 0 \<le> i \<and> i < int (length (buf s)) then buf s ! nat i else below L i)"

definition encrypt_body ::
  "bool \<Rightarrow> layout \<Rightarrow> 'd crypto_dev \<Rightarrow> fd \<Rightarrow> fd \<Rightarrow> 'd chat \<Rightarrow> stop + (bool \<times> 'd chat)"
where
  "encrypt_body server L C rfd wfd s =
     ok_then (sys_read rfd s) (\<lambda>s.
     let flag = (buf_at L s (rn s - 1) = 10) in
     ok_then (encrypt L C s) (\<lambda>(r, s).
     if r \<noteq> 0 then Inl (Exit 1)
     else ok_then (insist_write wfd (buf s) s) (\<lambda>(w, s).
     if w \<noteq> int DATA_SIZE then Inl (Exit 1)
     else if rn s = 0 then ok_then (clear_conn_active server s) (\<lambda>s. Inr (False, s))
     else Inr (\<not> flag, s))))"

text \<open>
  \<open>while(1)\<close> with as many rounds as there are reads left and one more: the next round waits. Every
  round takes a byte or an answer off the script, so that more rounds would change nothing.
\<close>

fun rounds :: "nat \<Rightarrow> ('s \<Rightarrow> stop + (bool \<times> 's)) \<Rightarrow> 's \<Rightarrow> stop + 's" where
  "rounds 0 f s = Inl Blocked"
| "rounds (Suc k) f s = ok_then (f s) (\<lambda>(again, s'). if again then rounds k f s' else Inr s')"

definition pending :: "fd \<Rightarrow> 'd chat \<Rightarrow> nat" where
  "pending fd s = sum_list (map (\<lambda>r. case r of None \<Rightarrow> 1 | Some bs \<Rightarrow> Suc (length bs)) (inq s fd))"

definition read_decrypt_write ::
  "bool \<Rightarrow> layout \<Rightarrow> 'd crypto_dev \<Rightarrow> fd \<Rightarrow> fd \<Rightarrow> 'd chat \<Rightarrow> stop + 'd chat"
where
  "read_decrypt_write server L C rfd wfd s = rounds (Suc (pending rfd s)) (decrypt_body server L C rfd wfd) s"

definition read_encrypt_write ::
  "bool \<Rightarrow> layout \<Rightarrow> 'd crypto_dev \<Rightarrow> fd \<Rightarrow> fd \<Rightarrow> 'd chat \<Rightarrow> stop + 'd chat"
where
  "read_encrypt_write server L C rfd wfd s = rounds (Suc (pending rfd s)) (encrypt_body server L C rfd wfd) s"

section \<open>A connection\<close>

datatype select_result = Ready bool bool | Interrupted | Failed

definition peer_prefix :: "bool \<Rightarrow> u8 list" where
  "peer_prefix server = (if server then map of_char ''client: '' else map of_char ''server: '')"

text \<open>One pass of the loop after \<open>select\<close> has returned: first the socket, then the terminal. The
  results of the writes of the prefix and of \<open>"Sent."\<close> (to descriptor 0) are not looked at.\<close>

definition chat_round ::
  "bool \<Rightarrow> layout \<Rightarrow> 'd crypto_dev \<Rightarrow> bool \<Rightarrow> bool \<Rightarrow> 'd chat \<Rightarrow> stop + 'd chat"
where
  "chat_round server L C sock stdin s =
     ok_then
       (if sock then
          ok_then (insist_write Stdout (peer_prefix server) s) (\<lambda>(_, s).
            read_decrypt_write server L C Sock Stdout s)
        else Inr s) (\<lambda>s.
     if stdin then
       ok_then (read_encrypt_write server L C Stdin Sock (s\<lparr>buf := replicate 512 0\<rparr>)) (\<lambda>s.
       ok_then (insist_write Stdin VERIF s) (\<lambda>(_, s). Inr s))
     else Inr s)"

fun chat_loop ::
  "bool \<Rightarrow> layout \<Rightarrow> 'd crypto_dev \<Rightarrow> select_result list \<Rightarrow> 'd chat \<Rightarrow> stop + 'd chat"
where
  "chat_loop server L C [] s = (if conn_active s then Inl Blocked else Inr s)"
| "chat_loop server L C (e # es) s =
     (if \<not> conn_active s then Inr s
      else case e of
        Interrupted \<Rightarrow> Inr s
      | Failed \<Rightarrow> Inl (Exit 1)
      | Ready sock stdin \<Rightarrow> ok_then (chat_round server L C sock stdin s) (chat_loop server L C es))"

text \<open>The session both programs ask for: AES in CBC mode with a key of 16 bytes.\<close>

definition chat_session :: "layout \<Rightarrow> session_op" where
  "chat_session L = \<lparr>cipher = CRYPTO_AES_CBC, mac = 0, keylen = KEY_SIZE, key = at_key L, mackeylen = 0, mackey = 0, ses = 0\<rparr>"

text \<open>
  From the opened \<open>/dev/crypto\<close> to the end of the session; \<open>closed\<close> is the result of
  \<open>close(cfd)\<close>.
\<close>

definition run_session ::
  "bool \<Rightarrow> layout \<Rightarrow> 'd crypto_dev \<Rightarrow> int \<Rightarrow> select_result list \<Rightarrow> 'd chat \<Rightarrow> stop + 'd chat"
where
  "run_session server L C closed es s =
     (case d_gsession C (chat_session L) (take (unat KEY_SIZE) peer_key) (dev s) of
        None \<Rightarrow> Inl Blocked
      | Some (r, sess', d) \<Rightarrow>
        if r \<noteq> 0 then Inl (Exit 1)
        else ok_then (chat_loop server L C es (s\<lparr>sess := sess', dev := d, conn_active := True\<rparr>)) (\<lambda>s.
          case d_fsession C (ses (sess s)) (dev s) of
            None \<Rightarrow> Inl Blocked
          | Some (r, d) \<Rightarrow>
            if r \<noteq> 0 then Inl (Exit 1)
            else if closed < 0 then Inl (Exit 1)
            else Inr (s\<lparr>dev := d\<rparr>)))"

section \<open>The two programs\<close>

text \<open>The answers of the system calls around the session in \<open>client.c\<close>.\<close>

record client_env =
  c_argc :: nat
  c_socket :: int
  c_host_found :: bool
  c_connect :: int
  c_open :: int
  c_close :: int
  c_shutdown :: int

definition client_main ::
  "client_env \<Rightarrow> layout \<Rightarrow> 'd crypto_dev \<Rightarrow> select_result list \<Rightarrow> 'd chat \<Rightarrow> stop + 'd chat"
where
  "client_main V L C es s =
     (if c_argc V < 3 then Inl (Exit 1)
      else if c_socket V < 0 then Inl (Exit 1)
      else if \<not> c_host_found V then Inl (Exit 1)
      else if c_connect V < 0 then Inl (Exit 1)
      else if c_open V < 0 then Inl (Exit 1)
      else ok_then (run_session False L C (c_close V) es s) (\<lambda>s.
        if c_shutdown V < 0 then Inl (Exit 1) else Inr s))"

text \<open>
  A connection as the server sees it: the answers of \<open>accept\<close>, \<open>inet_ntop\<close>, \<open>open\<close> and \<open>close\<close>,
  what the new socket will deliver and take, and the answers of \<open>select\<close>. The result of closing the
  socket is not looked at.
\<close>

record connection =
  n_accept :: int
  n_format :: bool
  n_open :: int
  n_close :: int
  n_in :: "u8 list option list"
  n_caps :: "int list"
  n_events :: "select_result list"

definition accepted :: "connection \<Rightarrow> 'd chat \<Rightarrow> 'd chat" where
  "accepted c s = s\<lparr>inq := (inq s)(Sock := n_in c), caps := (caps s)(Sock := n_caps c), outq := (outq s)(Sock := [])\<rparr>"

fun accept_loop ::
  "layout \<Rightarrow> 'd crypto_dev \<Rightarrow> connection list \<Rightarrow> 'd chat \<Rightarrow> stop + 'd chat"
where
  "accept_loop L C [] s = Inl Blocked"
| "accept_loop L C (c # cs) s =
     (if n_accept c < 0 then Inl (Exit 1)
      else if \<not> n_format c then Inl (Exit 1)
      else if n_open c < 0 then Inl (Exit 1)
      else ok_then (run_session True L C (n_close c) (n_events c) (accepted c s)) (accept_loop L C cs))"

definition server_main ::
  "int \<Rightarrow> int \<Rightarrow> int \<Rightarrow> layout \<Rightarrow> 'd crypto_dev \<Rightarrow> connection list \<Rightarrow> 'd chat \<Rightarrow> stop + 'd chat"
where
  "server_main sock bound listening L C cs s =
     (if sock < 0 then Inl (Exit 1)
      else if bound < 0 then Inl (Exit 1)
      else if listening < 0 then Inl (Exit 1)
      else accept_loop L C cs s)"

section \<open>The loops end\<close>

lemma sys_read_consumes: "sys_read fd s = Inr s' \<Longrightarrow> pending fd s' < pending fd s"
  by (auto simp: sys_read_def pending_def DATA_SIZE_def split: list.splits option.splits if_splits)

lemma inq_encrypt: "encrypt L C s = Inr (r, s') \<Longrightarrow> inq s' = inq s \<and> rn s' = rn s"
  by (auto simp: encrypt_def Let_def split: option.splits if_splits)

lemma inq_decrypt: "decrypt L C s = Inr (r, s') \<Longrightarrow> inq s' = inq s \<and> rn s' = rn s"
  by (auto simp: decrypt_def Let_def split: option.splits if_splits)

lemma inq_insist_write: "insist_write fd bs s = Inr (r, s') \<Longrightarrow> inq s' = inq s \<and> rn s' = rn s \<and> buf s' = buf s
    \<and> dec_buf_len s' = dec_buf_len s"
  by (auto simp: insist_write_def split: option.splits)

lemma encrypt_body_consumes:
  assumes "encrypt_body server L C rfd wfd s = Inr (again, s')" "again"
  shows "pending rfd s' < pending rfd s"
proof -
  obtain s1 where r: "sys_read rfd s = Inr s1"
    using assms(1) unfolding encrypt_body_def by (auto dest: ok_then_InrD)
  then have "inq s' = inq s1"
    using assms unfolding encrypt_body_def
    by (auto simp: Let_def dest!: ok_then_InrD split: prod.splits if_splits)
      (metis inq_encrypt inq_insist_write)
  then show ?thesis using sys_read_consumes [OF r] by (simp add: pending_def)
qed

lemma rounds_enough:
  assumes "\<And>s s'. f s = Inr (True, s') \<Longrightarrow> measure_of s' < (measure_of s :: nat)"
  shows "measure_of s < k \<Longrightarrow> rounds k f s = rounds (Suc (measure_of s)) f s"
proof (induction k arbitrary: s rule: less_induct)
  case (less k)
  then obtain j where k: "k = Suc j" by (cases k) auto
  show ?case
  proof (cases "f s")
    case (Inr x)
    obtain again s' where x: "x = (again, s')" by fastforce
    show ?thesis
    proof (cases again)
      case True
      then have lt: "measure_of s' < measure_of s" using assms Inr x by simp
      have "rounds j f s' = rounds (Suc (measure_of s')) f s'"
        using less.IH [of j s'] lt less.prems k by simp
      moreover have "rounds (measure_of s) f s' = rounds (Suc (measure_of s')) f s'"
        using less.IH [of "measure_of s" s'] lt less.prems by simp
      ultimately show ?thesis using Inr x k True by simp
    qed (use Inr x k in simp)
  qed (simp add: k)
qed

text \<open>After a successful \<open>decrypt\<close> the byte at \<open>dec_buf_len\<close> is the carriage return put there.\<close>

lemma length_decrypt_loop:
  "decrypt_loop dec i b = Some (b', j) \<Longrightarrow> length b' = length b"
proof (induction dec i b rule: decrypt_loop.induct)
  case (1 dec i b)
  show ?case
    using 1 decrypt_loop.simps [of dec i b] by (simp split: if_splits)
qed

lemma decrypt_ends_with_cr:
  "decrypt L C s = Inr (0, s') \<Longrightarrow> buf s' ! dec_buf_len s' = 13"
  by (auto simp: decrypt_def Let_def split: option.splits if_splits)

lemma decrypt_body_once:
  assumes "decrypt_body server L C rfd wfd s = Inr (again, s')"
  shows "\<not> again"
proof
  assume again
  then obtain s1 s2 s3 r w where "decrypt L C s1 = Inr (r, s2)" "r = 0" "insist_write wfd (buf s2) s2 = Inr (w, s3)"
    "buf s3 ! dec_buf_len s3 \<noteq> 13"
    using assms unfolding decrypt_body_def
    by (auto dest!: ok_then_InrD split: prod.splits if_splits)
  then show False using decrypt_ends_with_cr inq_insist_write by metis
qed

section \<open>What the functions do\<close>

text \<open>Writes that take at least one byte each, and enough of them for \<open>n\<close> bytes.\<close>

definition willing :: "nat \<Rightarrow> int list \<Rightarrow> bool" where
  "willing n cs \<longleftrightarrow> (\<forall>c \<in> set cs. 0 < c) \<and> n \<le> length cs"

lemma willing_mono: "willing n cs \<Longrightarrow> k \<le> n \<Longrightarrow> willing k cs"
  by (simp add: willing_def)

lemma insist_loop_all:
  "willing n cs \<Longrightarrow> length bs \<le> n \<Longrightarrow>
     \<exists>rest. insist_loop bs cs = Some (None, bs, rest) \<and> willing (n - length bs) rest"
proof (induction bs cs arbitrary: n rule: insist_loop.induct)
  case (3 b bs c cs)
  let ?w = "b # bs"
  have c: "0 < c" "willing (n - 1) cs" using 3(2) by (auto simp: willing_def)
  then have len: "length (drop (nat c) ?w) \<le> n - 1" using 3(3) by simp
  have "\<not> c < 0" using c(1) by simp
  from 3(1) [OF this c(2) len] obtain rest where
    rest: "insist_loop (drop (nat c) ?w) cs = Some (None, drop (nat c) ?w, rest)"
      "willing (n - 1 - length (drop (nat c) ?w)) rest" by blast
  have "n - length ?w \<le> n - 1 - length (drop (nat c) ?w)" using c(1) 3(3) by simp
  then show ?case using rest c(1) willing_mono by fastforce
qed (auto simp: willing_def)

lemma insist_write_all:
  assumes "willing n (caps s fd)" "length bs \<le> n"
  obtains rest where "willing (n - length bs) rest"
    "insist_write fd bs s = Inr (int (length bs), s\<lparr>caps := (caps s)(fd := rest), outq := (outq s)(fd := outq s fd @ bs)\<rparr>)"
  using insist_loop_all [OF assms] that by (auto simp: insist_write_def)

text \<open>The copying loop finds the part before the first NUL.\<close>

definition text_of :: "u8 list \<Rightarrow> u8 list" where
  "text_of p = takeWhile (\<lambda>x. x \<noteq> 0) p"

definition padded :: "u8 list \<Rightarrow> u8 list" where
  "padded m = m @ replicate (512 - length m) 13"

lemma decrypt_loop_spec:
  "length b = length dec \<Longrightarrow> i \<le> length dec \<Longrightarrow> decrypt_loop dec i b =
     (if 0 \<in> set (drop i dec)
      then Some (take i b @ text_of (drop i dec) @ drop (i + length (text_of (drop i dec))) b, i + length (text_of (drop i dec)))
      else None)"
proof (induction dec i b rule: decrypt_loop.induct)
  case (1 dec i b)
  show ?case
  proof (cases "i < length dec")
    case True
    then have d: "drop i dec = dec ! i # drop (Suc i) dec" by (simp add: Cons_nth_drop_Suc)
    show ?thesis
    proof (cases "dec ! i = 0")
      case True
      then show ?thesis using \<open>i < length dec\<close> d by (subst decrypt_loop.simps) (simp add: text_of_def)
    next
      case False
      have t: "take (Suc i) (b[i := dec ! i]) = take i b @ [dec ! i]"
        using True 1(2) by (simp add: take_Suc_conv_app_nth)
      have u: "drop (Suc (i + k)) (b[i := dec ! i]) = drop (Suc (i + k)) b" for k by simp
      show ?thesis
        using 1(1) True False 1(2) d t u
        by (subst decrypt_loop.simps) (simp add: text_of_def)
    qed
  next
    case False
    then show ?thesis using 1(3) by (subst decrypt_loop.simps) simp
  qed
qed

lemma length_text_of: "0 \<in> set p \<Longrightarrow> length (text_of p) < length p"
  by (induction p) (auto simp: text_of_def)

lemma decrypt_loop_512:
  assumes "length dec = 512"
  shows "decrypt_loop dec 0 (replicate 512 13) =
    (if 0 \<in> set dec then Some (padded (text_of dec), length (text_of dec)) else None)"
  using decrypt_loop_spec [of "replicate 512 13" dec 0] assms by (simp add: padded_def)

lemma padded_cr: "length m < 512 \<Longrightarrow> (padded m)[length m := 13] = padded m"
proof -
  assume "length m < 512"
  then obtain k where "512 - length m = Suc k" by (metis Suc_diff_Suc)
  then show ?thesis by (simp add: padded_def list_update_append)
qed

lemma length_padded [simp]: "length m \<le> 512 \<Longrightarrow> length (padded m) = 512"
  by (simp add: padded_def)

text \<open>The copying loop of \<open>encrypt\<close>.\<close>

lemma fold_copy:
  "length b = length e \<Longrightarrow> k \<le> length e \<Longrightarrow> fold (\<lambda>i b. b[i := e ! i]) [0..<k] b = take k e @ drop k b"
proof (induction k)
  case (Suc k)
  then have "drop k b = b ! k # drop (Suc k) b" by (simp add: Cons_nth_drop_Suc)
  then show ?case using Suc by (simp add: list_update_append take_Suc_conv_app_nth)
qed simp

section \<open>The contract of the device\<close>

text \<open>
  What the chat needs of a crypto device: it stays good, an operation on a good device comes back
  with the encrypted or decrypted block, and decryption undoes encryption. \<open>placed\<close> says that the
  three arrays of the operation are where the device can reach them.
\<close>

locale cipher_device =
  fixes C :: "'d crypto_dev"
    and good :: "'d \<Rightarrow> bool"
    and placed :: "crypt_op \<Rightarrow> bool"
    and E D :: "u8 list \<Rightarrow> u8 list \<Rightarrow> u8 list"
  assumes crypts: "good d \<Longrightarrow> placed c \<Longrightarrow> length b = 512 \<Longrightarrow> length iv = 16 \<Longrightarrow>
      \<exists>d'. d_crypt C c b iv d = Some (0, if op_code c = COP_ENCRYPT then E iv b else D iv b, d') \<and> good d'"
    and lengths: "good d \<Longrightarrow> length b = 512 \<Longrightarrow> length (E iv b) = 512 \<and> length (D iv b) = 512"
    and inverse: "good d \<Longrightarrow> length b = 512 \<Longrightarrow> D iv (E iv b) = b"
begin

lemma encrypt_eq:
  assumes "good (dev s)" "placed (chat_op L COP_ENCRYPT s)" "length (buf s) = 512"
  obtains d' where "good d'" "encrypt L C s = Inr (0, s\<lparr>dev := d', buf := E (take BLOCK_SIZE invect) (buf s)\<rparr>)"
proof -
  have iv: "length (take BLOCK_SIZE invect) = 16" by (simp add: BLOCK_SIZE_def invect_def)
  obtain d' where d': "d_crypt C (chat_op L COP_ENCRYPT s) (buf s) (take BLOCK_SIZE invect) (dev s) =
      Some (0, E (take BLOCK_SIZE invect) (buf s), d')" "good d'"
    using crypts [OF assms iv] by (auto simp: chat_op_def)
  have "length (E (take BLOCK_SIZE invect) (buf s)) = 512" using lengths assms by blast
  then show thesis
    using that d' assms(3) by (simp add: encrypt_def Let_def DATA_SIZE_def fold_copy)
qed

lemma decrypt_eq:
  assumes "good (dev s)" "placed (chat_op L COP_DECRYPT s)" "length (buf s) = 512"
    and p: "p = D (take BLOCK_SIZE invect) (buf s)"
  shows "\<exists>d'. good d' \<and> decrypt L C s =
    (if 0 \<in> set p then Inr (0, s\<lparr>dev := d', buf := padded (text_of p), dec_buf_len := length (text_of p)\<rparr>) else Inl Undefined)"
proof -
  have iv: "length (take BLOCK_SIZE invect) = 16" by (simp add: BLOCK_SIZE_def invect_def)
  have "COP_DECRYPT \<noteq> COP_ENCRYPT" by (simp add: COP_DECRYPT_def COP_ENCRYPT_def)
  then obtain d' where d': "d_crypt C (chat_op L COP_DECRYPT s) (buf s) (take BLOCK_SIZE invect) (dev s) = Some (0, p, d')" "good d'"
    using crypts [OF assms(1-3) iv] p by (auto simp: chat_op_def)
  have len: "length p = 512" using lengths assms by blast
  have "decrypt L C s = (if 0 \<in> set p then Inr (0, s\<lparr>dev := d', buf := padded (text_of p), dec_buf_len := length (text_of p)\<rparr>) else Inl Undefined)"
  proof (cases "0 \<in> set p")
    case True
    then have "length (text_of p) < 512" using length_text_of len by fastforce
    then show ?thesis using True d'(1) len by (simp add: decrypt_def Let_def decrypt_loop_512 padded_cr)
  qed (use d'(1) len in \<open>simp add: decrypt_def Let_def decrypt_loop_512\<close>)
  then show ?thesis using d'(2) by blast
qed

lemma rounds_once: "f s = Inr (False, s') \<Longrightarrow> rounds (Suc k) f s = Inr s'"
  by simp

lemma send_message:
  assumes good: "good (dev s)" "placed (chat_op L COP_ENCRYPT s)" and "length (buf s) = 512"
    and will: "willing 512 (caps s wfd)" and inq: "inq s rfd = Some m # rs"
    and m: "length m \<le> 512" "m = [] \<or> last m = 10"
  obtains s' where "read_encrypt_write server L C rfd wfd s = (if m = [] then clear_conn_active server s' else Inr s')"
    "outq s' = (outq s)(wfd := outq s wfd @ E (take BLOCK_SIZE invect) (m @ drop (length m) (buf s)))"
    "good (dev s')" "inq s' = (inq s)(rfd := rs)" "sess s' = sess s" "conn_active s' = conn_active s"
    "\<forall>f. f \<noteq> wfd \<longrightarrow> caps s' f = caps s f" "length (buf s') = 512"
proof -
  define s1 where "s1 = s\<lparr>rn := int (length m), buf := m @ drop (length m) (buf s), inq := (inq s)(rfd := rs)\<rparr>"
  have read: "sys_read rfd s = Inr s1"
    using inq m(1) by (simp add: sys_read_def s1_def DATA_SIZE_def)
  have "length (buf s1) = 512" "good (dev s1)" "placed (chat_op L COP_ENCRYPT s1)"
    using assms by (simp_all add: s1_def chat_op_def)
  then obtain d' where d': "good d'" "encrypt L C s1 = Inr (0, s1\<lparr>dev := d', buf := E (take BLOCK_SIZE invect) (buf s1)\<rparr>)"
    by (metis encrypt_eq)
  define s2 where "s2 = s1\<lparr>dev := d', buf := E (take BLOCK_SIZE invect) (buf s1)\<rparr>"
  have len: "length (buf s2) = 512"
    using lengths [OF \<open>good (dev s1)\<close> \<open>length (buf s1) = 512\<close>] by (simp add: s2_def)
  have "willing 512 (caps s2 wfd)" using will by (simp add: s2_def s1_def)
  then obtain rest where rest: "insist_write wfd (buf s2) s2 =
      Inr (512, s2\<lparr>caps := (caps s2)(wfd := rest), outq := (outq s2)(wfd := outq s2 wfd @ buf s2)\<rparr>)"
    using insist_write_all [of 512 s2 wfd "buf s2"] len by auto
  define s3 where "s3 = s2\<lparr>caps := (caps s2)(wfd := rest), outq := (outq s2)(wfd := outq s2 wfd @ buf s2)\<rparr>"
  have rn: "rn s3 = int (length m)" by (simp add: s3_def s2_def s1_def)
  have flag: "buf_at L s1 (rn s1 - 1) = 10" if "m \<noteq> []"
  proof -
    have "last m = m ! (length m - 1)" using that by (simp add: last_conv_nth)
    moreover have "nat (rn s1 - 1) = length m - 1" "0 \<le> rn s1 - 1" "rn s1 - 1 < int (length (buf s1))"
      using that m(1) \<open>length (buf s1) = 512\<close> by (simp_all add: s1_def nat_diff_distrib Suc_leI)
    moreover have "length m - 1 < length m" using that by simp
    ultimately show ?thesis using that m(2) by (simp add: buf_at_def s1_def nth_append)
  qed
  have "encrypt_body server L C rfd wfd s =
      (if m = [] then ok_then (clear_conn_active server s3) (\<lambda>s. Inr (False, s)) else Inr (False, s3))"
    using read d'(2) rest flag rn unfolding encrypt_body_def
    by (simp add: Let_def DATA_SIZE_def flip: s2_def s3_def)
  then have "read_encrypt_write server L C rfd wfd s = (if m = [] then clear_conn_active server s3 else Inr s3)"
    unfolding read_encrypt_write_def by (simp add: clear_conn_active_def)
  moreover have "length (buf s3) = 512" using len by (simp add: s3_def)
  ultimately show thesis
    by (intro that [of s3]) (simp_all add: s3_def s2_def s1_def d'(1))
qed

lemma receive_message:
  assumes good: "good (dev s)" "placed (chat_op L COP_DECRYPT s)" and "length (buf s) = 512"
    and will: "willing n (caps s wfd)" "512 \<le> n" and inq: "inq s rfd = Some c # rs"
    and c: "length c \<le> 512"
    and p: "p = D (take BLOCK_SIZE invect) (c @ drop (length c) (buf s))"
  obtains s' where "read_decrypt_write server L C rfd wfd s =
      (if 0 \<in> set p then (if c = [] then clear_conn_active server s' else Inr s') else Inl Undefined)"
    "outq s' = (outq s)(wfd := outq s wfd @ padded (text_of p))" "buf s' = padded (text_of p)"
    "good (dev s')" "inq s' = (inq s)(rfd := rs)" "sess s' = sess s" "conn_active s' = conn_active s"
    "willing (n - 512) (caps s' wfd)"
proof -
  define s1 where "s1 = s\<lparr>rn := int (length c), buf := c @ drop (length c) (buf s), inq := (inq s)(rfd := rs)\<rparr>"
  have read: "sys_read rfd s = Inr s1"
    using inq c by (simp add: sys_read_def s1_def DATA_SIZE_def)
  have s1: "length (buf s1) = 512" "good (dev s1)" "placed (chat_op L COP_DECRYPT s1)"
    using assms by (simp_all add: s1_def chat_op_def)
  have "p = D (take BLOCK_SIZE invect) (buf s1)" by (simp add: p s1_def)
  from decrypt_eq [OF s1(2,3,1) this] obtain d' where d': "good d'" "decrypt L C s1 =
      (if 0 \<in> set p then Inr (0, s1\<lparr>dev := d', buf := padded (text_of p), dec_buf_len := length (text_of p)\<rparr>) else Inl Undefined)"
    by blast
  define s2 where "s2 = s1\<lparr>dev := d', buf := padded (text_of p), dec_buf_len := length (text_of p)\<rparr>"
  have "length p = 512" using lengths [OF s1(2,1)] \<open>p = D _ (buf s1)\<close> by simp
  then have len: "length (buf s2) = 512"
    using length_takeWhile_le [of "\<lambda>x. x \<noteq> 0" p] by (simp add: s2_def text_of_def)
  have "willing n (caps s2 wfd)" "length (buf s2) \<le> n" using will len by (simp_all add: s2_def s1_def)
  then obtain rest where "willing (n - length (buf s2)) rest" and rest: "insist_write wfd (buf s2) s2 =
      Inr (int (length (buf s2)), s2\<lparr>caps := (caps s2)(wfd := rest), outq := (outq s2)(wfd := outq s2 wfd @ buf s2)\<rparr>)"
    by (rule insist_write_all)
  then have left: "willing (n - 512) rest" using len by simp
  define s3 where "s3 = s2\<lparr>caps := (caps s2)(wfd := rest), outq := (outq s2)(wfd := outq s2 wfd @ buf s2)\<rparr>"
  have rn: "rn s3 = 0 \<longleftrightarrow> c = []" by (simp add: s3_def s2_def s1_def)
  have cr: "buf s3 ! dec_buf_len s3 = 13" if "0 \<in> set p"
  proof -
    have "length (text_of p) < 512" using length_text_of [OF that] \<open>length p = 512\<close> by simp
    then show ?thesis by (simp add: s3_def s2_def padded_def nth_append)
  qed
  have "decrypt_body server L C rfd wfd s = (if 0 \<in> set p then
      (if c = [] then ok_then (clear_conn_active server s3) (\<lambda>s. Inr (False, s)) else Inr (False, s3)) else Inl Undefined)"
    using read d'(2) rest cr rn len unfolding decrypt_body_def
    by (simp add: DATA_SIZE_def flip: s2_def s3_def)
  then have "read_decrypt_write server L C rfd wfd s =
      (if 0 \<in> set p then (if c = [] then clear_conn_active server s3 else Inr s3) else Inl Undefined)"
    unfolding read_decrypt_write_def by (simp add: clear_conn_active_def)
  then show thesis
    by (rule that) (use left in \<open>simp_all add: s3_def s2_def s1_def d'(1)\<close>)
qed

end

end
