(* ===== verification/ChatGuest.thy ===== *)
theory ChatGuest
  imports Chat
begin

text \<open>
  The chat in a virtual machine: its \<open>/dev/crypto\<close> is the guest driver. A process's ioctl is the
  driver's, on the memory of the process; the driver is a cipher device as the chat needs it when
  the host's cryptodev is one.
\<close>

section \<open>The guest driver as the chat's device\<close>

text \<open>Bytes of the process's arrays, at their addresses.\<close>

definition place_bytes :: "addr \<Rightarrow> u8 list \<Rightarrow> user_mem \<Rightarrow> user_mem" where
  "place_bytes p bs u =
     u\<lparr>um_bytes := fold (\<lambda>i m. m(p + of_nat i \<mapsto> bs ! i)) [0..<length bs] (um_bytes u)\<rparr>"

text \<open>The memory of the process when it calls CIOCCRYPT: the arrays, and the structure at \<open>arg\<close>.\<close>

definition crypt_memory :: "addr \<Rightarrow> crypt_op \<Rightarrow> u8 list \<Rightarrow> u8 list \<Rightarrow> user_mem \<Rightarrow> user_mem" where
  "crypt_memory arg c b iv u =
     (let u = place_bytes (op_iv c) iv (place_bytes (op_src c) b (place_bytes (op_dst c) (replicate DATA_SIZE 0) u))
      in u\<lparr>um_crypt := (um_crypt u)(arg \<mapsto> c)\<rparr>)"

definition guest_crypt ::
  "'h platform \<Rightarrow> crypto_open_file \<Rightarrow> addr \<Rightarrow> crypt_op \<Rightarrow> u8 list \<Rightarrow> u8 list \<Rightarrow> 'h guest
     \<Rightarrow> (int \<times> u8 list \<times> 'h guest) option"
where
  "guest_crypt K crof arg c b iv g = do {
     (r, g) \<leftarrow> crypto_chrdev_ioctl K (Some crof) CIOCCRYPT arg (g\<lparr>um := crypt_memory arg c b iv (um g)\<rparr>);
     out \<leftarrow> user_read (um g) (op_dst c) DATA_SIZE;
     Some (r, out, g)
   }"

definition guest_gsession ::
  "'h platform \<Rightarrow> crypto_open_file \<Rightarrow> addr \<Rightarrow> session_op \<Rightarrow> u8 list \<Rightarrow> 'h guest \<Rightarrow> (int \<times> session_op \<times> 'h guest) option"
where
  "guest_gsession K crof arg x k g = do {
     let u = place_bytes (key x) k (um g);
     (r, g) \<leftarrow> crypto_chrdev_ioctl K (Some crof) CIOCGSESSION arg (g\<lparr>um := u\<lparr>um_session := (um_session u)(arg \<mapsto> x)\<rparr>\<rparr>);
     x \<leftarrow> um_session (um g) arg;
     Some (r, x, g)
   }"

definition guest_fsession ::
  "'h platform \<Rightarrow> crypto_open_file \<Rightarrow> addr \<Rightarrow> u32 \<Rightarrow> 'h guest \<Rightarrow> (int \<times> 'h guest) option"
where
  "guest_fsession K crof arg i g =
     crypto_chrdev_ioctl K (Some crof) CIOCFSESSION arg (g\<lparr>um := (um g)\<lparr>um_u32 := (um_u32 (um g))(arg \<mapsto> i)\<rparr>\<rparr>)"

definition guest_dev :: "'h platform \<Rightarrow> crypto_open_file \<Rightarrow> addr \<Rightarrow> 'h guest crypto_dev" where
  "guest_dev K crof arg = \<lparr>d_gsession = guest_gsession K crof arg, d_crypt = guest_crypt K crof arg,
     d_fsession = guest_fsession K crof arg\<rparr>"

section \<open>It is a cipher device\<close>

text \<open>
  The host's cryptodev: every CIOCCRYPT of session \<open>sid\<close> on descriptor \<open>fd\<close> with 512 bytes
  succeeds with the cipher \<open>E\<close> or its inverse \<open>D\<close>, and leaves the host in a good state.
\<close>

definition cipher_host ::
  "'h host_os \<Rightarrow> u32 \<Rightarrow> u32 \<Rightarrow> ('h \<Rightarrow> bool) \<Rightarrow> (u8 list \<Rightarrow> u8 list \<Rightarrow> u8 list) \<Rightarrow> (u8 list \<Rightarrow> u8 list \<Rightarrow> u8 list) \<Rightarrow> bool"
where
  "cipher_host H fd sid hgood E D \<longleftrightarrow>
     (\<forall>h c src iv dst. hgood h \<longrightarrow> op_ses c = sid \<longrightarrow> op_len c = 512 \<longrightarrow> length src = 512 \<longrightarrow> length iv = 16 \<longrightarrow>
        (\<exists>h'. os_crypt H fd c src iv dst h = (0, if op_code c = COP_ENCRYPT then E iv src else D iv src, h') \<and> hgood h'))
     \<and> (\<forall>iv b. length b = 512 \<longrightarrow> length (E iv b) = 512 \<and> length (D iv b) = 512 \<and> D iv (E iv b) = b)"

definition guest_good ::
  "'h platform \<Rightarrow> u32 \<Rightarrow> u32 \<Rightarrow> ('h \<Rightarrow> bool) \<Rightarrow> (u8 list \<Rightarrow> u8 list \<Rightarrow> u8 list) \<Rightarrow> (u8 list \<Rightarrow> u8 list \<Rightarrow> u8 list)
     \<Rightarrow> 'h guest \<Rightarrow> bool"
where
  "guest_good K fd sid hgood E D g \<longleftrightarrow> ample K \<and> hgood (host g) \<and> cipher_host (hos K) fd sid hgood E D"

text \<open>The source and the iv do not overlap.\<close>

definition guest_placed :: "u32 \<Rightarrow> crypt_op \<Rightarrow> bool" where
  "guest_placed sid c \<longleftrightarrow> op_ses c = sid \<and> op_len c = 512
     \<and> (\<forall>i < 512. \<forall>j < 16. op_src c + of_nat i \<noteq> op_iv c + of_nat j)"

lemma those_map_Some: "those (map Some bs) = Some bs"
  by (induction bs) simp_all

lemma offset_inj:
  assumes "i < 2 ^ 64" "j < 2 ^ 64" "p + of_nat i = (p + of_nat j :: addr)"
  shows "i = j"
proof -
  have "unat (of_nat i :: addr) = unat (of_nat j :: addr)" using assms(3) by simp
  then show ?thesis using assms(1,2) by (simp add: unat_of_nat)
qed

lemma place_bytes_at:
  assumes "i < length bs" "length bs < 2 ^ 64"
  shows "um_bytes (place_bytes p bs u) (p + of_nat i) = Some (bs ! i)"
proof -
  have "[0..<length bs] = [0..<i] @ i # [Suc i..<length bs]"
    using assms(1) by (metis le_add_diff_inverse less_imp_le upt_add_eq_append upt_conv_Cons zero_le)
  then have split: "um_bytes (place_bytes p bs u) = fold (\<lambda>i m. m(p + of_nat i \<mapsto> bs ! i)) [Suc i..<length bs]
      ((fold (\<lambda>i m. m(p + of_nat i \<mapsto> bs ! i)) [0..<i] (um_bytes u))(p + of_nat i \<mapsto> bs ! i))"
    by (simp add: place_bytes_def)
  have "p + of_nat j \<noteq> p + of_nat i" if "j \<in> set [Suc i..<length bs]" for j
  proof
    assume "p + of_nat j = p + of_nat i"
    then have "j = i" using assms that by (intro offset_inj) auto
    then show False using that by simp
  qed
  then show ?thesis unfolding split by (subst fold_upd_other) simp_all
qed

lemma place_bytes_other:
  "(\<And>i. i < length bs \<Longrightarrow> p + of_nat i \<noteq> a) \<Longrightarrow> um_bytes (place_bytes p bs u) a = um_bytes u a"
  unfolding place_bytes_def by (simp, subst fold_upd_other) auto

lemma place_bytes_mapped: "um_bytes u a \<noteq> None \<Longrightarrow> um_bytes (place_bytes p bs u) a \<noteq> None"
proof -
  have "m a \<noteq> None \<Longrightarrow> fold (\<lambda>i m. m(p + of_nat i \<mapsto> bs ! i)) is m a \<noteq> None" for "is" m
    by (induction "is" arbitrary: m) auto
  then show "um_bytes u a \<noteq> None \<Longrightarrow> ?thesis" by (simp add: place_bytes_def)
qed

lemma user_read_bytes:
  assumes "\<And>i. i < length bs \<Longrightarrow> um_bytes u (p + of_nat i) = Some (bs ! i)"
  shows "user_read u p (length bs) = Some bs"
proof -
  have "map (\<lambda>i. um_bytes u (p + of_nat i)) [0..<length bs] = map Some bs"
    by (rule nth_equalityI) (simp_all add: assms)
  then show ?thesis by (simp add: user_read_def those_map_Some)
qed

text \<open>What the driver finds in the memory of the process.\<close>

lemma crypt_memory_reads:
  assumes "guest_placed sid c" "length b = 512" "length iv = 16"
  shows "um_crypt (crypt_memory arg c b iv u) arg = Some c"
    "user_read (crypt_memory arg c b iv u) (op_src c) 512 = Some b"
    "user_read (crypt_memory arg c b iv u) (op_iv c) 16 = Some iv"
    "length out = 512 \<Longrightarrow> \<exists>u'. user_write (crypt_memory arg c b iv u) (op_dst c) out = Some u'"
proof -
  show "um_crypt (crypt_memory arg c b iv u) arg = Some c" by (simp add: crypt_memory_def Let_def)
  have bytes: "um_bytes (crypt_memory arg c b iv u) =
      um_bytes (place_bytes (op_iv c) iv (place_bytes (op_src c) b (place_bytes (op_dst c) (replicate DATA_SIZE 0) u)))"
    by (simp add: crypt_memory_def Let_def)
  have "um_bytes (crypt_memory arg c b iv u) (op_src c + of_nat i) = Some (b ! i)" if "i < length b" for i
  proof -
    have "op_iv c + of_nat j \<noteq> op_src c + of_nat i" if "j < length iv" for j
      using assms that \<open>i < length b\<close> unfolding guest_placed_def by metis
    then show ?thesis using that assms(2) by (simp add: bytes place_bytes_other place_bytes_at)
  qed
  then show "user_read (crypt_memory arg c b iv u) (op_src c) 512 = Some b"
    using user_read_bytes [of b] assms(2) by metis
  have "um_bytes (crypt_memory arg c b iv u) (op_iv c + of_nat i) = Some (iv ! i)" if "i < length iv" for i
    using that assms(3) by (simp add: bytes place_bytes_at)
  then show "user_read (crypt_memory arg c b iv u) (op_iv c) 16 = Some iv"
    using user_read_bytes [of iv] assms(3) by metis
  have "um_bytes (crypt_memory arg c b iv u) (op_dst c + of_nat i) \<noteq> None" if "i < 512" for i
  proof -
    have "um_bytes (place_bytes (op_dst c) (replicate DATA_SIZE 0) u) (op_dst c + of_nat i) \<noteq> None"
      using place_bytes_at [of i "replicate DATA_SIZE 0" "op_dst c" u] that by (simp add: DATA_SIZE_def)
    then show ?thesis unfolding bytes by (rule place_bytes_mapped [OF place_bytes_mapped])
  qed
  then show "\<exists>u'. user_write (crypt_memory arg c b iv u) (op_dst c) out = Some u'" if "length out = 512"
    using that by (simp add: user_write_def list_all_iff)
qed

lemma guest_crypt_ok:
  assumes "guest_good K (crof_fd crof) sid hgood E D g" "guest_placed sid c" "length b = 512" "length iv = 16"
  shows "\<exists>g'. guest_crypt K crof arg c b iv g = Some (0, if op_code c = COP_ENCRYPT then E iv b else D iv b, g')
    \<and> guest_good K (crof_fd crof) sid hgood E D g'"
proof -
  let ?u = "crypt_memory arg c b iv (um g)"
  let ?g = "g\<lparr>um := ?u\<rparr>"
  let ?out = "if op_code c = COP_ENCRYPT then E iv b else D iv b"
  have ample: "ample K" and h: "hgood (host g)" and ch: "cipher_host (hos K) (crof_fd crof) sid hgood E D"
    using assms(1) by (simp_all add: guest_good_def)
  have c: "op_ses c = sid" "op_len c = 512" using assms(2) by (simp_all add: guest_placed_def)
  have len: "unat (op_len c) = 512" "0 < sint (op_len c)" by (simp_all add: c)
  have view: "op_ses (host_view K c) = sid" "op_len (host_view K c) = 512" "op_code (host_view K c) = op_code c"
    using c by (simp_all add: host_view_def)
  obtain h' where h': "os_crypt (hos K) (crof_fd crof) (host_view K c) b iv (replicate (unat (op_len c)) 0) (host ?g) =
      (0, ?out, h')" "hgood h'"
    using ch [unfolded cipher_host_def, THEN conjunct1, rule_format, of "host g" "host_view K c" b iv] h view assms(3,4)
    by fastforce
  have out: "length ?out = 512" using ch assms(3) by (simp add: cipher_host_def)
  note reads = crypt_memory_reads [OF assms(2-4), where arg = arg and u = "um g"]
  obtain u' where u': "user_write ?u (op_dst c) ?out = Some u'" using reads(4) out by blast
  have "\<exists>g'. crypto_chrdev_ioctl K (Some crof) CIOCCRYPT arg ?g = Some (0, g') \<and> host g' = h' \<and> um g' = u'
      \<and> user_read (um g') (op_dst c) (unat (op_len c)) = Some ?out \<and> live g' = {#K_sess, K_crypt#} + live ?g"
    using ample reads len out u' by (intro crypt_call [OF _ _ _ _ _ h'(1)]) simp_all
  then show ?thesis
    using h'(2) ample ch len by (auto simp: guest_crypt_def guest_good_def DATA_SIZE_def)
qed

interpretation guest_cipher: cipher_device "guest_dev K crof arg" "guest_good K (crof_fd crof) sid hgood E D"
  "guest_placed sid" E D for K crof arg sid hgood E D
proof
  fix g c and b iv :: "u8 list"
  assume "guest_good K (crof_fd crof) sid hgood E D g" "guest_placed sid c" "length b = 512" "length iv = 16"
  then show "\<exists>g'. d_crypt (guest_dev K crof arg) c b iv g = Some (0, if op_code c = COP_ENCRYPT then E iv b else D iv b, g')
      \<and> guest_good K (crof_fd crof) sid hgood E D g'"
    unfolding guest_dev_def crypto_dev.simps by (rule guest_crypt_ok)
qed (simp_all add: guest_good_def cipher_host_def)

section \<open>An end of the chat\<close>

text \<open>An end whose session \<open>sid\<close> is open on a good device.\<close>

definition online ::
  "'h platform \<Rightarrow> crypto_open_file \<Rightarrow> u32 \<Rightarrow> ('h \<Rightarrow> bool) \<Rightarrow> (u8 list \<Rightarrow> u8 list \<Rightarrow> u8 list) \<Rightarrow> (u8 list \<Rightarrow> u8 list \<Rightarrow> u8 list)
     \<Rightarrow> layout \<Rightarrow> 'h guest chat \<Rightarrow> bool"
where
  "online K crof sid hgood E D L s \<longleftrightarrow>
     guest_good K (crof_fd crof) sid hgood E D (dev s) \<and> guest_placed sid (chat_op L COP_ENCRYPT s) \<and> length (buf s) = 512"

abbreviation iv0 :: "u8 list" where
  "iv0 \<equiv> take BLOCK_SIZE invect"

lemma placed_code: "guest_placed sid (chat_op L code s) = guest_placed sid (chat_op L COP_ENCRYPT s)"
  by (simp add: guest_placed_def chat_op_def)

lemma placed_same_session: "sess s' = sess s \<Longrightarrow> chat_op L code s' = chat_op L code s"
  by (simp add: chat_op_def)

text \<open>A line, or the end of input, typed at one end: what goes to the socket.\<close>

lemma send_line:
  assumes on: "online K crof sid hgood E D L s"
    and caps: "willing 512 (caps s Sock)" "willing (length VERIF) (caps s Stdin)"
    and line: "inq s Stdin = Some m # rs" "length m \<le> 512" "m = [] \<or> last m = 10" and active: "conn_active s"
  obtains s' where "chat_round server L (guest_dev K crof arg) False True s = Inr s'"
    "outq s' Sock = outq s Sock @ E iv0 (m @ replicate (512 - length m) 0)" "conn_active s' = (m \<noteq> [])"
    "guest_good K (crof_fd crof) sid hgood E D (dev s')" "sess s' = sess s"
    "online K crof sid hgood E D L s'" "outq s' Stdout = outq s Stdout"
proof -
  let ?C = "guest_dev K crof arg"
  define s0 where "s0 = s\<lparr>buf := replicate 512 0\<rparr>"
  have pre: "guest_good K (crof_fd crof) sid hgood E D (dev s0)" "guest_placed sid (chat_op L COP_ENCRYPT s0)"
    "length (buf s0) = 512" "willing 512 (caps s0 Sock)" "inq s0 Stdin = Some m # rs"
    using assms by (simp_all add: online_def s0_def chat_op_def)
  obtain s1 where s1: "read_encrypt_write server L ?C Stdin Sock s0 = (if m = [] then clear_conn_active server s1 else Inr s1)"
    "outq s1 = (outq s0)(Sock := outq s0 Sock @ E iv0 (m @ drop (length m) (buf s0)))"
    "guest_good K (crof_fd crof) sid hgood E D (dev s1)" "inq s1 = (inq s0)(Stdin := rs)" "sess s1 = sess s0"
    "conn_active s1 = conn_active s0" "\<forall>f. f \<noteq> Sock \<longrightarrow> caps s1 f = caps s0 f" "length (buf s1) = 512"
    by (rule guest_cipher.send_message [OF pre line(2,3), where server = server and arg = arg])
  define s2 where "s2 = (if m = [] then s1\<lparr>conn_active := False\<rparr> else s1)"
  have s2: "read_encrypt_write server L ?C Stdin Sock s0 = Inr s2" "conn_active s2 = (m \<noteq> [])"
    "outq s2 = outq s1" "caps s2 = caps s1" "dev s2 = dev s1" "sess s2 = sess s1" "buf s2 = buf s1"
    using s1(1,6) active by (simp_all add: s2_def clear_conn_active_def s0_def)
  have "willing (length VERIF) (caps s2 Stdin)" using caps(2) s1(7) s2(4) by (simp add: s0_def)
  then obtain rest where rest: "insist_write Stdin VERIF s2 = Inr (int (length VERIF),
      s2\<lparr>caps := (caps s2)(Stdin := rest), outq := (outq s2)(Stdin := outq s2 Stdin @ VERIF)\<rparr>)"
    by (rule insist_write_all [where bs = VERIF]) simp
  let ?s = "s2\<lparr>caps := (caps s2)(Stdin := rest), outq := (outq s2)(Stdin := outq s2 Stdin @ VERIF)\<rparr>"
  show thesis
  proof (rule that)
    show "chat_round server L ?C False True s = Inr ?s"
      using s2(1) rest by (simp add: chat_round_def s0_def [symmetric])
    show "outq ?s Sock = outq s Sock @ E iv0 (m @ replicate (512 - length m) 0)"
      using s1(2) s2(3) by (simp add: s0_def)
    show "online K crof sid hgood E D L ?s"
      using s1(3,5,8) s2(5,6,7) on placed_same_session [of ?s s L COP_ENCRYPT] by (simp add: online_def s0_def)
  qed (use s1 s2 in \<open>simp_all add: s0_def\<close>)
qed

text \<open>A message arriving at the other end: what goes to the terminal.\<close>

lemma show_message_or_end:
  assumes on: "online K crof sid hgood E D L t"
    and caps: "willing n (caps t Stdout)" "length (peer_prefix server) + 512 \<le> n"
    and msg: "inq t Sock = Some c # rs" "length c \<le> 512" "c = [] \<Longrightarrow> conn_active t"
    and p: "p = D iv0 (c @ drop (length c) (buf t))"
  obtains t' where "chat_round server L (guest_dev K crof arg) True False t = (if 0 \<in> set p then Inr t' else Inl Undefined)"
    "outq t' Stdout = outq t Stdout @ peer_prefix server @ padded (text_of p)" "inq t' = (inq t)(Sock := rs)"
    "online K crof sid hgood E D L t' \<or> 0 \<notin> set p"
    "conn_active t' = (conn_active t \<and> c \<noteq> [])" "outq t' Sock = outq t Sock" "buf t' = padded (text_of p)"
    "willing (n - (length (peer_prefix server) + 512)) (caps t' Stdout)" "sess t' = sess t"
proof -
  let ?C = "guest_dev K crof arg" and ?n = "n - length (peer_prefix server)"
  obtain rest where rest: "willing ?n rest"
    "insist_write Stdout (peer_prefix server) t = Inr (int (length (peer_prefix server)),
      t\<lparr>caps := (caps t)(Stdout := rest), outq := (outq t)(Stdout := outq t Stdout @ peer_prefix server)\<rparr>)"
    by (rule insist_write_all [OF caps(1), where bs = "peer_prefix server"]) (use caps(2) in simp)
  define t0 where "t0 = t\<lparr>caps := (caps t)(Stdout := rest), outq := (outq t)(Stdout := outq t Stdout @ peer_prefix server)\<rparr>"
  have op: "chat_op L COP_DECRYPT t0 = chat_op L COP_DECRYPT t" by (simp add: t0_def chat_op_def)
  have pre: "guest_good K (crof_fd crof) sid hgood E D (dev t0)" "guest_placed sid (chat_op L COP_DECRYPT t0)"
    "length (buf t0) = 512" "willing ?n (caps t0 Stdout)" "512 \<le> ?n" "inq t0 Sock = Some c # rs"
    "p = D iv0 (c @ drop (length c) (buf t0))"
    unfolding op using on msg(1) rest(1) p caps(2)
    by (simp_all add: online_def t0_def placed_code [of sid L COP_DECRYPT t])
  obtain t1 where t1: "read_decrypt_write server L ?C Sock Stdout t0 =
      (if 0 \<in> set p then (if c = [] then clear_conn_active server t1 else Inr t1) else Inl Undefined)"
    "outq t1 = (outq t0)(Stdout := outq t0 Stdout @ padded (text_of p))" "buf t1 = padded (text_of p)"
    "guest_good K (crof_fd crof) sid hgood E D (dev t1)" "inq t1 = (inq t0)(Sock := rs)" "sess t1 = sess t0"
    "conn_active t1 = conn_active t0" "willing (?n - 512) (caps t1 Stdout)"
    by (rule guest_cipher.receive_message [OF pre(1-6) msg(2) pre(7), where server = server and arg = arg])
  define t2 where "t2 = (if c = [] then t1\<lparr>conn_active := False\<rparr> else t1)"
  have t2: "read_decrypt_write server L ?C Sock Stdout t0 = (if 0 \<in> set p then Inr t2 else Inl Undefined)"
    "outq t2 = outq t1" "buf t2 = buf t1" "dev t2 = dev t1" "inq t2 = inq t1" "sess t2 = sess t1" "caps t2 = caps t1"
    "conn_active t2 = (conn_active t \<and> c \<noteq> [])"
    using t1(1,7) msg(3) by (simp_all add: t2_def clear_conn_active_def t0_def)
  have len: "length p = 512"
    using on p msg(2) by (simp add: online_def guest_good_def cipher_host_def)
  show thesis
  proof (rule that)
    show "chat_round server L ?C True False t = (if 0 \<in> set p then Inr t2 else Inl Undefined)"
      using t2(1) rest(2) by (simp add: chat_round_def t0_def [symmetric])
    show "outq t2 Stdout = outq t Stdout @ peer_prefix server @ padded (text_of p)"
      using t1(2) t2(2) by (simp add: t0_def)
    have "length (text_of p) \<le> 512"
      using len length_takeWhile_le [of "\<lambda>x. x \<noteq> 0" p] by (simp add: text_of_def)
    then show "online K crof sid hgood E D L t2 \<or> 0 \<notin> set p"
      using t1(3,4,6) t2 on placed_same_session [of t2 t L COP_ENCRYPT] by (simp add: online_def t0_def)
  qed (use t1(2,3,5,6,8) t2 in \<open>simp_all add: t0_def\<close>)
qed

lemma show_message:
  assumes on: "online K crof sid hgood E D L t"
    and caps: "willing (length (peer_prefix server) + 512) (caps t Stdout)"
    and msg: "inq t Sock = Some c # rs" "length c \<le> 512" "c \<noteq> []"
    and p: "p = D iv0 (c @ drop (length c) (buf t))"
  obtains t' where "chat_round server L (guest_dev K crof arg) True False t = (if 0 \<in> set p then Inr t' else Inl Undefined)"
    "outq t' Stdout = outq t Stdout @ peer_prefix server @ padded (text_of p)" "inq t' Sock = rs"
    "online K crof sid hgood E D L t' \<or> 0 \<notin> set p" "conn_active t' = conn_active t" "outq t' Sock = outq t Sock"
  by (rule show_message_or_end [OF on caps order_refl msg(1,2) _ p, where arg = arg]) (use msg(3) that in simp_all)

lemma text_of_line:
  assumes "0 \<notin> set m" "length m < 512"
  shows "text_of (m @ replicate (512 - length m) 0) = m" "0 \<in> set (m @ replicate (512 - length m) (0 :: u8))"
proof -
  obtain k where k: "512 - length m = Suc k" using assms(2) by (metis Suc_diff_Suc)
  have "\<forall>x \<in> set m. x \<noteq> 0" using assms(1) by blast
  then have "takeWhile (\<lambda>x. x \<noteq> 0) (m @ 0 # replicate k 0) = m" by simp
  then show "text_of (m @ replicate (512 - length m) 0) = m" by (simp add: text_of_def k)
  show "0 \<in> set (m @ replicate (512 - length m) (0 :: u8))" using k by simp
qed

text \<open>Opening and closing the session through the driver.\<close>

lemma guest_gsession_ok:
  assumes "ample K"
    and "os_gsession (hos K) (crof_fd crof) (x\<lparr>key := out_base (hmap K) 3\<rparr>) k (host g) = (r, x', h')"
    and "x' = x\<lparr>key := out_base (hmap K) 3, ses := ses x'\<rparr>" "keylen x = 16" "length k = 16"
  shows "\<exists>g'. guest_gsession K crof arg x k g = Some (0, x', g') \<and> host g' = h'"
proof -
  let ?u = "place_bytes (key x) k (um g)"
  let ?g = "g\<lparr>um := ?u\<lparr>um_session := (um_session ?u)(arg \<mapsto> x)\<rparr>\<rparr>"
  have "user_read (um ?g) (key x) (length k) = Some k"
    by (rule user_read_bytes) (use assms(5) in \<open>simp add: place_bytes_at\<close>)
  then have "user_read (um ?g) (key x) (unat (keylen x)) = Some k"
    using assms(4,5) by simp
  moreover have "um_session (um ?g) arg = Some x" by simp
  moreover have "keylen x \<noteq> 0" using assms(4) by simp
  moreover have "os_gsession (hos K) (crof_fd crof) (x\<lparr>key := out_base (hmap K) 3\<rparr>) k (host ?g) = (r, x', h')"
    using assms(2) by simp
  ultimately have "\<exists>g'. crypto_chrdev_ioctl K (Some crof) CIOCGSESSION arg ?g = Some (0, g') \<and> host g' = h'
      \<and> um g' = (um ?g)\<lparr>um_session := (um_session (um ?g))(arg \<mapsto> x\<lparr>key := out_base (hmap K) 3, ses := ses x'\<rparr>)\<rparr>
      \<and> live g' = {#K_sess, K_crypt, K_sess_key#} + live ?g"
    using assms(1,3) by (intro gsession_call)
  then show ?thesis
    using assms(3) by (auto simp: guest_gsession_def Let_def)
qed

lemma guest_fsession_ok:
  assumes "ample K" "os_fsession (hos K) (crof_fd crof) i (host g) = (r, h')"
  shows "\<exists>g'. guest_fsession K crof arg i g = Some (0, g') \<and> host g' = h'"
proof -
  let ?g = "g\<lparr>um := (um g)\<lparr>um_u32 := (um_u32 (um g))(arg \<mapsto> i)\<rparr>\<rparr>"
  have "um_u32 (um ?g) arg = Some i" "os_fsession (hos K) (crof_fd crof) i (host ?g) = (r, h')"
    using assms(2) by simp_all
  from fsession_call [OF assms(1) this] show ?thesis by (auto simp: guest_fsession_def)
qed

section \<open>Properties\<close>

text \<open>A line typed at one end of the chat is shown at the other. Both ends may run in virtual
  machines, on guest drivers over hosts with the same cipher; the sender's and the receiver's writes
  may be taken in any pieces. The line, up to its newline, goes through the socket as one encrypted
  block of 512 bytes, and the peer's terminal gets exactly the line, after the prefix and followed by
  carriage returns.\<close>

theorem chat_over_virtio:
  assumes "online K1 f1 sid1 hg1 E D L1 s" "online K2 f2 sid2 hg2 E D L2 t" "conn_active s"
    and "willing 512 (caps s Sock)" "willing (length VERIF) (caps s Stdin)"
    and "willing (length (peer_prefix b) + 512) (caps t Stdout)"
    and "inq s Stdin = Some m # rs" "m \<noteq> []" "last m = 10" "0 \<notin> set m" "length m < 512"
  shows "\<exists>c s' t'. chat_round a L1 (guest_dev K1 f1 arg1) False True s = Inr s'
    \<and> outq s' Sock = outq s Sock @ c \<and> length c = 512
    \<and> chat_round b L2 (guest_dev K2 f2 arg2) True False (t\<lparr>inq := (inq t)(Sock := Some c # qs)\<rparr>) = Inr t'
    \<and> outq t' Stdout = outq t Stdout @ peer_prefix b @ m @ replicate (512 - length m) 13"
proof -
  let ?p = "m @ replicate (512 - length m) 0" and ?c = "E iv0 (m @ replicate (512 - length m) 0)"
  let ?t = "t\<lparr>inq := (inq t)(Sock := Some ?c # qs)\<rparr>"
  have line: "length m \<le> 512" "m = [] \<or> last m = 10" using assms(9,11) by simp_all
  obtain s' where s': "chat_round a L1 (guest_dev K1 f1 arg1) False True s = Inr s'"
    "outq s' Sock = outq s Sock @ ?c"
    by (rule send_line [OF assms(1,4,5,7) line assms(3), where server = a and arg = arg1])
  have cipher: "length ?c = 512" "D iv0 ?c = ?p"
    using assms(1,11) by (simp_all add: online_def guest_good_def cipher_host_def)
  have on: "online K2 f2 sid2 hg2 E D L2 ?t" using assms(2) by (simp add: online_def chat_op_def)
  have c: "willing (length (peer_prefix b) + 512) (caps ?t Stdout)" "inq ?t Sock = Some ?c # qs"
    "length ?c \<le> 512" "?c \<noteq> []" "?p = D iv0 (?c @ drop (length ?c) (buf ?t))"
    using assms(2,6) cipher by (auto simp: online_def)
  obtain t' where t': "chat_round b L2 (guest_dev K2 f2 arg2) True False ?t = (if 0 \<in> set ?p then Inr t' else Inl Undefined)"
    "outq t' Stdout = outq ?t Stdout @ peer_prefix b @ padded (text_of ?p)"
    by (rule show_message [OF on c, where arg = arg2])
  show ?thesis
    using s' t' cipher(1) text_of_line [OF assms(10,11)] by (auto simp: padded_def)
qed

text \<open>A pair of ends on the sample platform, whose host's cipher flips every byte.\<close>

definition flip :: "u8 list \<Rightarrow> u8 list \<Rightarrow> u8 list" where
  "flip iv b = map (\<lambda>x. x XOR 0xFF) b"

lemma flip_host: "cipher_host flip_os fd sid (\<lambda>_. True) flip flip"
proof -
  have "map ((\<lambda>x. x XOR 0xFF) \<circ> (\<lambda>x. x XOR 0xFF)) b = b" for b :: "u8 list"
    by (intro map_idI) (simp add: xor.assoc)
  then show ?thesis by (simp add: cipher_host_def flip_os_def flip_def)
qed

definition sample_layout :: layout where
  "sample_layout = \<lparr>at_buf = 0x1000, at_data = 0x2000, at_invect = 0x3000, at_key = 0x4000, below = (\<lambda>_. 0)\<rparr>"

lemma sample_apart: "\<forall>i < 512. \<forall>j < 16. at_buf sample_layout + of_nat i \<noteq> at_invect sample_layout + of_nat j"
proof (intro allI impI notI)
  fix i j :: nat
  assume ij: "i < 512" "j < 16" and eq: "at_buf sample_layout + of_nat i = at_invect sample_layout + of_nat j"
  have "unat (0x1000 + of_nat i :: addr) = 0x1000 + i" "unat (0x3000 + of_nat j :: addr) = 0x3000 + j"
    using ij by (simp_all add: unat_word_ariths unat_of_nat)
  then show False using eq ij by (simp add: sample_layout_def)
qed

definition sample_end :: "(fd \<Rightarrow> u8 list option list) \<Rightarrow> nat guest chat" where
  "sample_end ins = \<lparr>buf = replicate 512 0, rn = 0, dec_buf_len = 1, sess = sample_session\<lparr>ses := 1\<rparr>, conn_active = True,
     dev = sample_guest, inq = ins, caps = (\<lambda>_. replicate 600 7), outq = (\<lambda>_. [])\<rparr>"

lemma sample_end_online: "online sample_platform sample_crof 1 (\<lambda>_. True) flip flip sample_layout (sample_end ins)"
  using sample_apart flip_host sample_platform_ample
  by (simp add: online_def guest_good_def guest_placed_def chat_op_def sample_end_def DATA_SIZE_def
      sample_platform_def [THEN arg_cong [where f = hos]])

lemma sample_willing: "n \<le> 600 \<Longrightarrow> willing n (caps (sample_end ins) f)"
  by (simp add: willing_def sample_end_def)

text \<open>One end types \<open>"hi"\<close>.\<close>

lemma chat_over_virtio_witness:
  "\<exists>c s' t'. chat_round True sample_layout (guest_dev sample_platform sample_crof 0x70) False True
      (sample_end ((\<lambda>_. [])(Stdin := [Some [104, 105, 10]]))) = Inr s' \<and> outq s' Sock = c
    \<and> chat_round False sample_layout (guest_dev sample_platform sample_crof 0x80) True False
      ((sample_end (\<lambda>_. []))\<lparr>inq := (\<lambda>_. [])(Sock := [Some c])\<rparr>) = Inr t'
    \<and> outq t' Stdout = peer_prefix False @ [104, 105, 10] @ replicate 509 13"
proof -
  let ?s = "sample_end ((\<lambda>_. [])(Stdin := [Some [104, 105, 10]]))" and ?t = "sample_end (\<lambda>_. [])"
  have f: "conn_active ?s" "inq ?s Stdin = [Some [104, 105, 10]]" "inq ?t = (\<lambda>_. [])" "outq ?s Sock = []" "outq ?t Stdout = []"
    by (simp_all add: sample_end_def)
  have l: "length VERIF \<le> 600" "length (peer_prefix False) + 512 \<le> 600"
    by (simp_all add: VERIF_def peer_prefix_def)
  show ?thesis
    using chat_over_virtio [OF sample_end_online sample_end_online [of "\<lambda>_. []"] f(1) sample_willing sample_willing sample_willing f(2),
        where b = False and a = True and qs = "[]" and ?arg1.0 = "0x70" and ?arg2.0 = "0x80"] l f
    by auto
qed

text \<open>
  A session around its loop: opened with the key, closed with CIOCFSESSION. The loop gets an end that
  is online, whatever the driver's state is, and has to leave the device good.
\<close>

lemma session_around:
  assumes "ample K" "cipher_host (hos K) (crof_fd crof) sid hgood E D"
    and "os_gsession (hos K) (crof_fd crof) ((chat_session L)\<lparr>key := out_base (hmap K) 3\<rparr>) (take 16 peer_key) (host (dev s)) =
      (r, (chat_session L)\<lparr>key := out_base (hmap K) 3, ses := sid\<rparr>, h1)" "hgood h1"
    and "\<forall>i < 512. \<forall>j < 16. at_buf L + of_nat i \<noteq> at_invect L + of_nat j" "length (buf s) = 512" "0 \<le> closed"
    and loop: "\<And>x g. online K crof sid hgood E D L (s\<lparr>sess := x, dev := g, conn_active := True\<rparr>) \<Longrightarrow>
      \<exists>s2. chat_loop server L (guest_dev K crof arg) es (s\<lparr>sess := x, dev := g, conn_active := True\<rparr>) = Inr s2
        \<and> guest_good K (crof_fd crof) sid hgood E D (dev s2) \<and> sess s2 = x \<and> P (conn_active s2) (outq s2)"
  shows "\<exists>s' h2. run_session server L (guest_dev K crof arg) closed es s = Inr s' \<and> P (conn_active s') (outq s')
    \<and> hgood h2 \<and> host (dev s') = snd (os_fsession (hos K) (crof_fd crof) sid h2)"
proof -
  let ?C = "guest_dev K crof arg" and ?x = "(chat_session L)\<lparr>key := out_base (hmap K) 3, ses := sid\<rparr>"
  have len: "length (take 16 peer_key) = 16" "keylen (chat_session L) = 16" "unat KEY_SIZE = 16"
    by (simp_all add: peer_key_def chat_session_def KEY_SIZE_def)
  obtain g1 where g1: "guest_gsession K crof arg (chat_session L) (take 16 peer_key) (dev s) = Some (0, ?x, g1)"
    "host g1 = h1"
    using guest_gsession_ok [OF assms(1,3) _ len(2,1), of arg] by auto
  let ?s1 = "s\<lparr>sess := ?x, dev := g1, conn_active := True\<rparr>"
  have "online K crof sid hgood E D L ?s1"
    using assms(1,2,4-6) g1(2)
    by (simp add: online_def guest_good_def guest_placed_def chat_op_def DATA_SIZE_def)
  from loop [OF this] obtain s2 where s2: "chat_loop server L ?C es ?s1 = Inr s2"
    "guest_good K (crof_fd crof) sid hgood E D (dev s2)" "sess s2 = ?x" "P (conn_active s2) (outq s2)" by blast
  obtain r' h3 where h3: "os_fsession (hos K) (crof_fd crof) sid (host (dev s2)) = (r', h3)" by fastforce
  obtain g3 where g3: "guest_fsession K crof arg sid (dev s2) = Some (0, g3)" "host g3 = h3"
    using guest_fsession_ok [OF assms(1) h3] by blast
  have "ses (sess s2) = sid" using s2(3) by simp
  then have "run_session server L ?C closed es s = Inr (s2\<lparr>dev := g3\<rparr>)"
    using g1(1) s2(1) g3(1) assms(7)
    by (simp add: run_session_def guest_dev_def len)
  moreover have "hgood (host (dev s2))" using s2(2) by (simp add: guest_good_def)
  ultimately show ?thesis using s2(4) g3(2) h3 by (intro exI [of _ "s2\<lparr>dev := g3\<rparr>"] exI [of _ "host (dev s2)"]) simp
qed

text \<open>A session that ends at the end of input.\<close>

lemma session_until_eof:
  assumes "ample K" "cipher_host (hos K) (crof_fd crof) sid hgood E D"
    and "os_gsession (hos K) (crof_fd crof) ((chat_session L)\<lparr>key := out_base (hmap K) 3\<rparr>) (take 16 peer_key) (host (dev s)) =
      (r, (chat_session L)\<lparr>key := out_base (hmap K) 3, ses := sid\<rparr>, h1)" "hgood h1"
    and "\<forall>i < 512. \<forall>j < 16. at_buf L + of_nat i \<noteq> at_invect L + of_nat j"
    and "length (buf s) = 512" "willing 512 (caps s Sock)" "willing (length VERIF) (caps s Stdin)"
    and "inq s Stdin = Some [] # rs" "0 \<le> closed"
  shows "\<exists>s' h2. run_session server L (guest_dev K crof arg) closed [Ready False True] s = Inr s'
    \<and> (\<not> conn_active s' \<and> outq s' Sock = outq s Sock @ E iv0 (replicate 512 0))
    \<and> hgood h2 \<and> host (dev s') = snd (os_fsession (hos K) (crof_fd crof) sid h2)"
proof (rule session_around [OF assms(1-6,10), where P = "\<lambda>a out. \<not> a \<and> out Sock = outq s Sock @ E iv0 (replicate 512 0)"])
  fix x g
  let ?s1 = "s\<lparr>sess := x, dev := g, conn_active := True\<rparr>"
  assume on: "online K crof sid hgood E D L ?s1"
  have pre: "willing 512 (caps ?s1 Sock)" "willing (length VERIF) (caps ?s1 Stdin)" "inq ?s1 Stdin = Some [] # rs"
    "length ([] :: u8 list) \<le> 512" "[] = [] \<or> last ([] :: u8 list) = 10" "conn_active ?s1"
    using assms(7-9) by simp_all
  obtain s2 where s2: "chat_round server L (guest_dev K crof arg) False True ?s1 = Inr s2"
    "outq s2 Sock = outq ?s1 Sock @ E iv0 ([] @ replicate (512 - length ([] :: u8 list)) 0)" "conn_active s2 = ([] \<noteq> ([] :: u8 list))"
    "guest_good K (crof_fd crof) sid hgood E D (dev s2)" "sess s2 = sess ?s1"
    by (rule send_line [OF on pre, where server = server and arg = arg])
  then show "\<exists>s2. chat_loop server L (guest_dev K crof arg) [Ready False True] ?s1 = Inr s2
      \<and> guest_good K (crof_fd crof) sid hgood E D (dev s2) \<and> sess s2 = x
      \<and> \<not> conn_active s2 \<and> outq s2 Sock = outq s Sock @ E iv0 (replicate 512 0)"
    by simp
qed

text \<open>The end of input ends the session of the client. With a peer that answers, the program opens
  the session with its 16-byte key; when its terminal is closed it still sends one encrypted block of
  zeros, leaves its loop, closes the crypto session with CIOCFSESSION and returns.\<close>

theorem eof_ends_session:
  assumes "ample K" "cipher_host (hos K) (crof_fd crof) sid hgood E D"
    and "os_gsession (hos K) (crof_fd crof) ((chat_session L)\<lparr>key := out_base (hmap K) 3\<rparr>) (take 16 peer_key) (host (dev s)) =
      (r, (chat_session L)\<lparr>key := out_base (hmap K) 3, ses := sid\<rparr>, h1)" "hgood h1"
    and "\<forall>i < 512. \<forall>j < 16. at_buf L + of_nat i \<noteq> at_invect L + of_nat j"
    and "length (buf s) = 512" "willing 512 (caps s Sock)" "willing (length VERIF) (caps s Stdin)"
    and "inq s Stdin = Some [] # rs" "0 \<le> c_close V"
    and "3 \<le> c_argc V" "0 \<le> c_socket V" "c_host_found V" "0 \<le> c_connect V" "0 \<le> c_open V" "0 \<le> c_shutdown V"
  shows "\<exists>s' h2. client_main V L (guest_dev K crof arg) [Ready False True] s = Inr s'
    \<and> \<not> conn_active s' \<and> outq s' Sock = outq s Sock @ E iv0 (replicate 512 0)
    \<and> hgood h2 \<and> host (dev s') = snd (os_fsession (hos K) (crof_fd crof) sid h2)"
  using session_until_eof [OF assms(1-10), of False arg] assms(11-16) by (auto simp: client_main_def)

definition sample_client :: client_env where
  "sample_client = \<lparr>c_argc = 3, c_socket = 3, c_host_found = True, c_connect = 0, c_open = 4, c_close = 0, c_shutdown = 0\<rparr>"

lemma eof_ends_session_witness:
  "\<exists>s'. client_main sample_client sample_layout (guest_dev sample_platform sample_crof 0x70) [Ready False True]
      (sample_end ((\<lambda>_. [])(Stdin := [Some []]))) = Inr s' \<and> \<not> conn_active s' \<and> outq s' Sock = replicate 512 0xFF"
proof -
  let ?s = "sample_end ((\<lambda>_. [])(Stdin := [Some []]))"
  have open_session: "os_gsession (hos sample_platform) (crof_fd sample_crof)
      ((chat_session sample_layout)\<lparr>key := out_base (hmap sample_platform) 3\<rparr>) (take 16 peer_key) (host (dev ?s)) =
      (0, (chat_session sample_layout)\<lparr>key := out_base (hmap sample_platform) 3, ses := 8\<rparr>, 9)"
    by (simp add: sample_platform_def flip_os_def sample_end_def sample_guest_def)
  have host: "cipher_host (hos sample_platform) (crof_fd sample_crof) 8 (\<lambda>_. True) flip flip"
    using flip_host by (simp add: sample_platform_def)
  have f: "length (buf ?s) = 512" "inq ?s Stdin = [Some []]" "outq ?s Sock = []"
    by (simp_all add: sample_end_def)
  have l: "length VERIF \<le> 600" "flip iv0 (replicate 512 0) = replicate 512 0xFF"
    by (simp_all add: VERIF_def flip_def)
  have v: "0 \<le> c_close sample_client" "3 \<le> c_argc sample_client" "0 \<le> c_socket sample_client" "c_host_found sample_client"
    "0 \<le> c_connect sample_client" "0 \<le> c_open sample_client" "0 \<le> c_shutdown sample_client"
    by (simp_all add: sample_client_def)
  show ?thesis
    using eof_ends_session [OF sample_platform_ample host open_session TrueI sample_apart f(1) sample_willing sample_willing f(2) v, of "0x70"] l f(3) by auto
qed

text \<open>C37: a line of 512 characters, newline included, is sent without a NUL, and the end that receives
  it overruns its arrays: the copying loop of \<open>decrypt\<close> finds no NUL in the 512 decrypted bytes.\<close>

theorem long_line_overruns:
  assumes "online K1 f1 sid1 hg1 E D L1 s" "online K2 f2 sid2 hg2 E D L2 t" "conn_active s"
    and "willing 512 (caps s Sock)" "willing (length VERIF) (caps s Stdin)"
    and "willing (length (peer_prefix b) + 512) (caps t Stdout)"
    and "inq s Stdin = Some m # rs" "last m = 10" "0 \<notin> set m" "length m = 512"
  shows "\<exists>c s'. chat_round a L1 (guest_dev K1 f1 arg1) False True s = Inr s'
    \<and> outq s' Sock = outq s Sock @ c \<and> length c = 512
    \<and> chat_round b L2 (guest_dev K2 f2 arg2) True False (t\<lparr>inq := (inq t)(Sock := Some c # qs)\<rparr>) = Inl Undefined"
proof -
  let ?c = "E iv0 m"
  let ?t = "t\<lparr>inq := (inq t)(Sock := Some ?c # qs)\<rparr>"
  have line: "length m \<le> 512" "m = [] \<or> last m = 10" using assms(8,10) by simp_all
  obtain s' where s': "chat_round a L1 (guest_dev K1 f1 arg1) False True s = Inr s'"
    "outq s' Sock = outq s Sock @ E iv0 (m @ replicate (512 - length m) 0)"
    by (rule send_line [OF assms(1,4,5,7) line assms(3), where server = a and arg = arg1])
  have cipher: "length ?c = 512" "D iv0 ?c = m"
    using assms(1,10) by (simp_all add: online_def guest_good_def cipher_host_def)
  have on: "online K2 f2 sid2 hg2 E D L2 ?t" using assms(2) by (simp add: online_def chat_op_def)
  have c: "willing (length (peer_prefix b) + 512) (caps ?t Stdout)" "inq ?t Sock = Some ?c # qs"
    "length ?c \<le> 512" "?c \<noteq> []" "m = D iv0 (?c @ drop (length ?c) (buf ?t))"
    using assms(2,6) cipher by (auto simp: online_def)
  obtain t' where t': "chat_round b L2 (guest_dev K2 f2 arg2) True False ?t = (if 0 \<in> set m then Inr t' else Inl Undefined)"
    by (rule show_message [OF on c, where arg = arg2])
  show ?thesis
    using s' t' cipher(1) assms(9,10) by auto
qed

lemma long_line_overruns_witness:
  "\<exists>c s'. chat_round True sample_layout (guest_dev sample_platform sample_crof 0x70) False True
      (sample_end ((\<lambda>_. [])(Stdin := [Some (replicate 511 97 @ [10])]))) = Inr s'
    \<and> chat_round False sample_layout (guest_dev sample_platform sample_crof 0x80) True False
      ((sample_end (\<lambda>_. []))\<lparr>inq := (\<lambda>_. [])(Sock := [Some c])\<rparr>) = Inl Undefined"
proof -
  let ?m = "replicate 511 97 @ [10] :: u8 list"
  let ?s = "sample_end ((\<lambda>_. [])(Stdin := [Some ?m]))" and ?t = "sample_end (\<lambda>_. [])"
  have f: "conn_active ?s" "inq ?s Stdin = [Some ?m]" "inq ?t = (\<lambda>_. [])"
    by (simp_all add: sample_end_def)
  have l: "length VERIF \<le> 600" "length (peer_prefix False) + 512 \<le> 600"
    by (simp_all add: VERIF_def peer_prefix_def)
  show ?thesis
    using long_line_overruns [OF sample_end_online sample_end_online [of "\<lambda>_. []"] f(1) sample_willing sample_willing sample_willing f(2),
        where b = False and a = True and qs = "[]" and ?arg1.0 = "0x70" and ?arg2.0 = "0x80"] l f
    by auto
qed

text \<open>A block that TCP delivers in pieces is taken for several messages. A read of fewer than 512
  bytes decrypts what has come together with the rest of the previous message, shows that, and leaves
  the remaining bytes of the block as the start of the next one.\<close>

theorem short_read_decrypts_stale:
  assumes "online K crof sid hgood E D L t" "willing (length (peer_prefix b) + 512) (caps t Stdout)"
    and "inq t Sock = Some c # qs" "length c < 512" "c \<noteq> []" "p = D iv0 (c @ drop (length c) (buf t))"
  shows "\<exists>t'. chat_round b L (guest_dev K crof arg) True False t = (if 0 \<in> set p then Inr t' else Inl Undefined)
    \<and> outq t' Stdout = outq t Stdout @ peer_prefix b @ padded (text_of p) \<and> inq t' Sock = qs"
proof -
  obtain t' where "chat_round b L (guest_dev K crof arg) True False t = (if 0 \<in> set p then Inr t' else Inl Undefined)"
    "outq t' Stdout = outq t Stdout @ peer_prefix b @ padded (text_of p)" "inq t' Sock = qs"
    by (rule show_message [OF assms(1-3) less_imp_le [OF assms(4)] assms(5,6), where arg = arg])
  then show ?thesis by blast
qed

text \<open>The sample end holds zeros, which decrypt to no NUL: one byte of a block overruns the arrays.\<close>

lemma short_read_decrypts_stale_witness:
  "chat_round False sample_layout (guest_dev sample_platform sample_crof 0x80) True False
      (sample_end ((\<lambda>_. [])(Sock := [Some [151], Some [150]]))) = Inl Undefined"
proof -
  let ?t = "sample_end ((\<lambda>_. [])(Sock := [Some [151], Some [150]]))"
  have f: "inq ?t Sock = [Some [151], Some [150]]" "buf ?t = replicate 512 0"
    by (simp_all add: sample_end_def)
  have l: "length (peer_prefix False) + 512 \<le> 600" by (simp add: peer_prefix_def)
  have p: "0 \<notin> set (flip iv0 ([151] @ drop (length [151 :: u8]) (buf ?t)))"
    by (simp add: flip_def f(2))
  show ?thesis
    using short_read_decrypts_stale [OF sample_end_online sample_willing [OF l] f(1) _ _ refl, of "0x80"] p by auto
qed



end
