(* ===== verification/ChatTalk.thy ===== *)
theory ChatTalk
  imports ChatGuest
begin

text \<open>
  Whole conversations: the two programs of the chat joined by a socket, lines typed at either end in
  any order, each end in a virtual machine of its own; and the server between its clients.
\<close>

section \<open>Turns\<close>






text \<open>What a terminal shows of a line, and of the other end's lines.\<close>

definition shown :: "bool \<Rightarrow> u8 list \<Rightarrow> u8 list" where
  "shown server m = peer_prefix server @ m @ replicate (512 - length m) 13"




section \<open>A client that leaves\<close>

text \<open>The block a line travels in, and the stream of a client that sends some lines and closes.\<close>

definition block_of :: "u8 list \<Rightarrow> u8 list" where
  "block_of m = m @ replicate (512 - length m) 0"

definition sendable :: "u8 list \<Rightarrow> bool" where
  "sendable m \<longleftrightarrow> m \<noteq> [] \<and> 0 \<notin> set m \<and> length m < 512"

definition client_stream :: "(u8 list \<Rightarrow> u8 list) \<Rightarrow> u8 list list \<Rightarrow> u8 list option list" where
  "client_stream enc ms = map (\<lambda>m. Some (enc (block_of m))) ms @ [Some []]"

text \<open>What the global array holds when the stream ends.\<close>

definition leftover :: "u8 list \<Rightarrow> u8 list list \<Rightarrow> u8 list" where
  "leftover b ms = (if ms = [] then b else padded (last ms))"

lemma loop_until_disconnect:
  assumes "online K crof sid hgood E D L t" "conn_active t"
    and "willing n (caps t Stdout)" "Suc (length ms) * 520 \<le> n"
    and "inq t Sock = client_stream (E iv0) ms" "\<forall>m \<in> set ms. sendable m"
    and "0 \<in> set (D iv0 (leftover (buf t) ms))"
  shows "\<exists>t'. chat_loop server L (guest_dev K crof arg) (replicate (Suc (length ms)) (Ready True False)) t = Inr t'
    \<and> guest_good K (crof_fd crof) sid hgood E D (dev t') \<and> sess t' = sess t \<and> \<not> conn_active t'
    \<and> outq t' Stdout = outq t Stdout @ concat (map (shown server) ms)
         @ peer_prefix server @ padded (text_of (D iv0 (leftover (buf t) ms)))"
  using assms
proof (induction ms arbitrary: t n)
  case Nil
  have len: "length (peer_prefix server) + 512 \<le> n" using Nil.prems(4) by (simp add: peer_prefix_def)
  have msg: "inq t Sock = Some [] # []" "length ([] :: u8 list) \<le> 512" "[] = [] \<Longrightarrow> conn_active t"
    "D iv0 (leftover (buf t) []) = D iv0 ([] @ drop (length ([] :: u8 list)) (buf t))"
    using Nil.prems(2,5) by (simp_all add: client_stream_def leftover_def)
  obtain t' where "chat_round server L (guest_dev K crof arg) True False t =
      (if 0 \<in> set (D iv0 (leftover (buf t) [])) then Inr t' else Inl Undefined)"
    "outq t' Stdout = outq t Stdout @ peer_prefix server @ padded (text_of (D iv0 (leftover (buf t) [])))"
    "inq t' = (inq t)(Sock := [])" "online K crof sid hgood E D L t' \<or> 0 \<notin> set (D iv0 (leftover (buf t) []))"
    "conn_active t' = (conn_active t \<and> [] \<noteq> ([] :: u8 list))" "outq t' Sock = outq t Sock"
    "buf t' = padded (text_of (D iv0 (leftover (buf t) [])))"
    "willing (n - (length (peer_prefix server) + 512)) (caps t' Stdout)" "sess t' = sess t"
    by (rule show_message_or_end [OF Nil.prems(1,3) len msg, where arg = arg])
  then show ?case using Nil.prems(2,7) by (simp add: online_def)
next
  case (Cons m ms)
  have m: "m \<noteq> []" "0 \<notin> set m" "length m < 512" using Cons.prems(6) by (simp_all add: sendable_def)
  let ?c = "E iv0 (block_of m)"
  have cipher: "length ?c = 512" "D iv0 ?c = block_of m"
    using Cons.prems(1) m(3) by (simp_all add: online_def guest_good_def cipher_host_def block_of_def)
  have len: "length (peer_prefix server) + 512 \<le> n" "length (peer_prefix server) = 8"
    using Cons.prems(4) by (simp_all add: peer_prefix_def)
  have msg: "inq t Sock = Some ?c # client_stream (E iv0) ms" "length ?c \<le> 512" "?c = [] \<Longrightarrow> conn_active t"
    "block_of m = D iv0 (?c @ drop (length ?c) (buf t))"
    using Cons.prems(1,2,5) cipher by (simp_all add: client_stream_def online_def)
  note plain = text_of_line [OF m(2,3), folded block_of_def]
  obtain t1 where t1: "chat_round server L (guest_dev K crof arg) True False t = (if 0 \<in> set (block_of m) then Inr t1 else Inl Undefined)"
    "outq t1 Stdout = outq t Stdout @ peer_prefix server @ padded (text_of (block_of m))"
    "inq t1 = (inq t)(Sock := client_stream (E iv0) ms)" "online K crof sid hgood E D L t1 \<or> 0 \<notin> set (block_of m)"
    "conn_active t1 = (conn_active t \<and> ?c \<noteq> [])" "outq t1 Sock = outq t Sock" "buf t1 = padded (text_of (block_of m))"
    "willing (n - (length (peer_prefix server) + 512)) (caps t1 Stdout)" "sess t1 = sess t"
    by (rule show_message_or_end [OF Cons.prems(1,3) len(1) msg, where arg = arg])
  have left: "leftover (buf t1) ms = leftover (buf t) (m # ms)"
    using t1(7) plain by (simp add: leftover_def)
  have pre: "online K crof sid hgood E D L t1" "conn_active t1" "willing (n - 520) (caps t1 Stdout)"
    "Suc (length ms) * 520 \<le> n - 520" "inq t1 Sock = client_stream (E iv0) ms" "\<forall>m \<in> set ms. sendable m"
    "0 \<in> set (D iv0 (leftover (buf t1) ms))"
    using t1 plain Cons.prems(2,4,6,7) len(2) cipher(1) unfolding left by auto
  obtain t' where "chat_loop server L (guest_dev K crof arg) (replicate (Suc (length ms)) (Ready True False)) t1 = Inr t'"
    "guest_good K (crof_fd crof) sid hgood E D (dev t')" "sess t' = sess t1" "\<not> conn_active t'"
    "outq t' Stdout = outq t1 Stdout @ concat (map (shown server) ms) @ peer_prefix server
       @ padded (text_of (D iv0 (leftover (buf t1) ms)))"
    using Cons.IH [OF pre] by blast
  moreover have "outq t1 Stdout = outq t Stdout @ shown server m" using t1(2) plain by (simp add: shown_def padded_def)
  ultimately show ?case
    using t1(1,9) plain Cons.prems(2) left by simp
qed

section \<open>Properties\<close>




text \<open>C33: the server outlives its clients. A client connects, sends any number of lines and closes the
  connection. The server opens a crypto session, shows the lines in order, notices the end of the
  stream, closes the session and goes on with the next connection. Before that, however, it decrypts
  what its array still holds from the last line (or from before the connection) once more and
  shows it as a message; this needs a NUL among the decrypted bytes.\<close>

theorem server_outlives_client:
  assumes "ample K" "cipher_host (hos K) (crof_fd crof) sid hgood E D"
    and "os_gsession (hos K) (crof_fd crof) ((chat_session L)\<lparr>key := out_base (hmap K) 3\<rparr>) (take 16 peer_key) (host (dev s)) =
      (r, (chat_session L)\<lparr>key := out_base (hmap K) 3, ses := sid\<rparr>, h1)" "hgood h1"
    and "\<forall>i < 512. \<forall>j < 16. at_buf L + of_nat i \<noteq> at_invect L + of_nat j" "length (buf s) = 512"
    and "willing (Suc (length ms) * 520) (caps s Stdout)"
    and "0 \<le> n_accept c" "n_format c" "0 \<le> n_open c" "0 \<le> n_close c"
    and "n_in c = client_stream (E iv0) ms" "n_events c = replicate (Suc (length ms)) (Ready True False)"
    and "\<forall>m \<in> set ms. sendable m" "0 \<in> set (D iv0 (leftover (buf s) ms))"
  shows "\<exists>s' h2. run_session True L (guest_dev K crof arg) (n_close c) (n_events c) (accepted c s) = Inr s'
    \<and> accept_loop L (guest_dev K crof arg) (c # cs) s = accept_loop L (guest_dev K crof arg) cs s'
    \<and> outq s' Stdout = outq s Stdout @ concat (map (shown True) ms)
         @ peer_prefix True @ padded (text_of (D iv0 (leftover (buf s) ms)))
    \<and> hgood h2 \<and> host (dev s') = snd (os_fsession (hos K) (crof_fd crof) sid h2)"
proof -
  let ?s = "accepted c s"
  let ?out = "outq s Stdout @ concat (map (shown True) ms) @ peer_prefix True @ padded (text_of (D iv0 (leftover (buf s) ms)))"
  have "\<exists>s' h2. run_session True L (guest_dev K crof arg) (n_close c) (n_events c) ?s = Inr s'
    \<and> (\<not> conn_active s' \<and> outq s' Stdout = ?out)
    \<and> hgood h2 \<and> host (dev s') = snd (os_fsession (hos K) (crof_fd crof) sid h2)"
  proof (rule session_around [OF assms(1,2) _ assms(4,5) _ assms(11), where P = "\<lambda>a out. \<not> a \<and> out Stdout = ?out"])
    show "os_gsession (hos K) (crof_fd crof) ((chat_session L)\<lparr>key := out_base (hmap K) 3\<rparr>) (take 16 peer_key) (host (dev ?s)) =
        (r, (chat_session L)\<lparr>key := out_base (hmap K) 3, ses := sid\<rparr>, h1)"
      using assms(3) by (simp add: accepted_def)
    show "length (buf ?s) = 512" using assms(6) by (simp add: accepted_def)
    fix x g
    let ?s1 = "?s\<lparr>sess := x, dev := g, conn_active := True\<rparr>"
    assume on: "online K crof sid hgood E D L ?s1"
    have pre: "conn_active ?s1" "willing (Suc (length ms) * 520) (caps ?s1 Stdout)" "Suc (length ms) * 520 \<le> Suc (length ms) * 520"
      "inq ?s1 Sock = client_stream (E iv0) ms" "0 \<in> set (D iv0 (leftover (buf ?s1) ms))"
      using assms(7,12,15) by (simp_all add: accepted_def)
    show "\<exists>s2. chat_loop True L (guest_dev K crof arg) (n_events c) ?s1 = Inr s2
        \<and> guest_good K (crof_fd crof) sid hgood E D (dev s2) \<and> sess s2 = x \<and> \<not> conn_active s2 \<and> outq s2 Stdout = ?out"
      using loop_until_disconnect [OF on pre(1-4) assms(14) pre(5), of True arg]
      unfolding assms(13) by (simp add: accepted_def)
  qed
  then show ?thesis using assms(8-10) by auto
qed

text \<open>A client sends one line with a byte that the sample cipher turns into a NUL, and leaves.\<close>

definition short_visit :: connection where
  "short_visit = \<lparr>n_accept = 4, n_format = True, n_open = 5, n_close = 0, n_in = client_stream (flip iv0) [[104, 255, 10]],
     n_caps = [], n_events = [Ready True False, Ready True False]\<rparr>"

lemma server_outlives_client_witness:
  "\<exists>s'. run_session True sample_layout (guest_dev sample_platform sample_crof 0x70) 0 [Ready True False, Ready True False]
      (accepted short_visit ((sample_end (\<lambda>_. []))\<lparr>caps := \<lambda>_. replicate 1100 7\<rparr>)) = Inr s'
    \<and> outq s' Stdout = shown True [104, 255, 10] @ peer_prefix True @ padded [0x97]"
proof -
  let ?s = "(sample_end (\<lambda>_. []))\<lparr>caps := \<lambda>_. replicate 1100 7\<rparr>" and ?ms = "[[104, 255, 10]] :: u8 list list"
  have open_session: "os_gsession (hos sample_platform) (crof_fd sample_crof)
      ((chat_session sample_layout)\<lparr>key := out_base (hmap sample_platform) 3\<rparr>) (take 16 peer_key) (host (dev ?s)) =
      (0, (chat_session sample_layout)\<lparr>key := out_base (hmap sample_platform) 3, ses := 8\<rparr>, 9)"
    by (simp add: sample_platform_def flip_os_def sample_end_def sample_guest_def)
  have host: "cipher_host (hos sample_platform) (crof_fd sample_crof) 8 (\<lambda>_. True) flip flip"
    using flip_host by (simp add: sample_platform_def)
  have left: "flip iv0 (leftover (buf ?s) ?ms) = 0x97 # 0 # flip iv0 (10 # replicate 509 13)"
    by (simp add: leftover_def padded_def flip_def)
  have f: "length (buf ?s) = 512" "willing (Suc (length ?ms) * 520) (caps ?s Stdout)" "0 \<le> n_accept short_visit"
    "n_format short_visit" "0 \<le> n_open short_visit" "0 \<le> n_close short_visit"
    "n_in short_visit = client_stream (flip iv0) ?ms" "n_events short_visit = replicate (Suc (length ?ms)) (Ready True False)"
    "\<forall>m \<in> set ?ms. sendable m" "0 \<in> set (flip iv0 (leftover (buf ?s) ?ms))"
    using left by (simp_all add: sample_end_def willing_def short_visit_def sendable_def)
  obtain s' where "run_session True sample_layout (guest_dev sample_platform sample_crof 0x70) (n_close short_visit)
      (n_events short_visit) (accepted short_visit ?s) = Inr s'"
    "outq s' Stdout = outq ?s Stdout @ concat (map (shown True) ?ms) @ peer_prefix True @ padded (text_of (flip iv0 (leftover (buf ?s) ?ms)))"
    using server_outlives_client [OF sample_platform_ample host open_session TrueI sample_apart f, of "0x70" "[]"] by blast
  moreover have "text_of (flip iv0 (leftover (buf ?s) ?ms)) = [0x97]" unfolding left by (simp add: text_of_def)
  moreover have "n_close short_visit = 0" "n_events short_visit = [Ready True False, Ready True False]"
    "outq ?s Stdout = []" "concat (map (shown True) ?ms) = shown True [104, 255, 10]"
    by (simp_all add: short_visit_def sample_end_def)
  ultimately show ?thesis by (intro exI [of _ s']) (simp only: append_Nil)
qed

end
