(* ===== verification/CryptoSystem.thy ===== *)
theory CryptoSystem
  imports CryptoGuest
begin

text \<open>
  The guest's crypto driver as a whole: loading and unloading, virtio devices that come and go, any
  number of open files, and their ioctls from any process memory, interleaved in any order over one
  host. The steps are the driver's own operations.
\<close>

section \<open>State and steps\<close>

record 'h crypto_system =
  chrdevs :: chrdev_registry
  drvdata :: crypto_driver_data
  virtio_on :: bool
  bound :: "nat list"
  kernel :: "'h guest"
  handles :: "nat \<rightharpoonup> crypto_open_file"

text \<open>
  Every call on an open file reads the virtqueue from the file's device structure; when that is not
  in memory any more, the call is an Oops.
\<close>

definition file_ioctl ::
  "'h platform \<Rightarrow> crypto_driver_data \<Rightarrow> crypto_open_file \<Rightarrow> u32 \<Rightarrow> addr \<Rightarrow> 'h guest \<Rightarrow> (int \<times> 'h guest) option"
where
  "file_ioctl K D crof cmd arg g = do {
     crdev \<leftarrow> cheap D (crof_dev crof);
     crypto_chrdev_ioctl K (Some crof) cmd arg g
   }"

definition file_release ::
  "'h platform \<Rightarrow> crypto_driver_data \<Rightarrow> crypto_open_file \<Rightarrow> 'h guest \<Rightarrow> (int \<times> 'h guest) option"
where
  "file_release K D crof g = do {
     crdev \<leftarrow> cheap D (crof_dev crof);
     crypto_chrdev_release K (Some crof) g
   }"

text \<open>
  The events. The module goes only when no file is open (\<open>THIS_MODULE\<close> owns the file operations), an
  open reaches the driver only for registered minors, and a file whose open has failed is not open.
  A new module image starts with minor number 0; \<open>kzalloc\<close> gives memory that is not in use. With
  \<open>careful\<close> no device is unplugged while one of its files is open.
\<close>

datatype crypto_event =
    Load int
  | Unload
  | Plug nat int
  | Unplug nat
  | Opens nat u32 int
  | Ioctl nat u32 int
  | Closes nat int

inductive crypto_step ::
  "'h platform \<Rightarrow> bool \<Rightarrow> 'h crypto_system \<Rightarrow> crypto_event \<Rightarrow> 'h crypto_system \<Rightarrow> bool"
  for K careful
where
  loads: "\<not> virtio_on s \<Longrightarrow> reg \<le> 0 \<Longrightarrow> add \<le> 0 \<Longrightarrow> virtio \<le> 0 \<Longrightarrow>
    init_module reg add virtio (chrdevs s, (drvdata s)\<lparr>next_minor := 0\<rparr>, False) = (r, c, D, b) \<Longrightarrow>
    crypto_step K careful s (Load r) (s\<lparr>chrdevs := c, drvdata := D, virtio_on := b\<rparr>)"
| unloads: "virtio_on s \<Longrightarrow> handles s = Map.empty \<Longrightarrow>
    fini_module (bound s) (chrdevs s, drvdata s, True) = Some (c, D, b) \<Longrightarrow>
    crypto_step K careful s Unload (s\<lparr>chrdevs := c, drvdata := D, virtio_on := b, bound := []\<rparr>)"
| plugs: "virtio_on s \<Longrightarrow> v \<notin> set (bound s) \<Longrightarrow> p = 0 \<or> cheap (drvdata s) p = None \<Longrightarrow>
    virtcons_probe p q v (drvdata s) = (r, D) \<Longrightarrow>
    crypto_step K careful s (Plug v r) (s\<lparr>drvdata := D, bound := if r = 0 then bound s @ [v] else bound s\<rparr>)"
| unplugs: "virtio_on s \<Longrightarrow> v \<in> set (bound s) \<Longrightarrow>
    (careful \<Longrightarrow> \<forall>f crof. handles s f = Some crof \<longrightarrow> priv (drvdata s) v \<noteq> Some (crof_dev crof)) \<Longrightarrow>
    virtcons_remove v (drvdata s) = Some D \<Longrightarrow>
    crypto_step K careful s (Unplug v) (s\<lparr>drvdata := D, bound := remove1 v (bound s)\<rparr>)"
| opens: "cdev_live (chrdevs s) \<Longrightarrow> region (chrdevs s) = Some n \<Longrightarrow> k < n \<Longrightarrow> handles s f = None \<Longrightarrow>
    nonseekable \<le> 0 \<Longrightarrow> crypto_chrdev_open K nonseekable (drvdata s) k (kernel s) = Some (r, pd, g) \<Longrightarrow>
    crypto_step K careful s (Opens f k r)
      (s\<lparr>kernel := g, handles := if r = 0 then (handles s)(f := pd) else handles s\<rparr>)"
| ioctls: "handles s f = Some crof \<Longrightarrow>
    file_ioctl K (drvdata s) crof cmd arg ((kernel s)\<lparr>um := u\<rparr>) = Some (r, g) \<Longrightarrow>
    crypto_step K careful s (Ioctl f cmd r) (s\<lparr>kernel := g\<rparr>)"
| closes: "handles s f = Some crof \<Longrightarrow> file_release K (drvdata s) crof (kernel s) = Some (r, g) \<Longrightarrow>
    crypto_step K careful s (Closes f r) (s\<lparr>kernel := g, handles := (handles s)(f := None)\<rparr>)"

inductive crypto_run ::
  "'h platform \<Rightarrow> bool \<Rightarrow> 'h crypto_system \<Rightarrow> crypto_event list \<Rightarrow> 'h crypto_system \<Rightarrow> bool"
  for K careful
where
  stop: "crypto_run K careful s [] s"
| step: "crypto_run K careful s es s1 \<Longrightarrow> crypto_step K careful s1 e s2 \<Longrightarrow>
    crypto_run K careful s (es @ [e]) s2"

text \<open>The machine before the driver is loaded.\<close>

definition fresh_system :: "'h crypto_system \<Rightarrow> bool" where
  "fresh_system s \<longleftrightarrow> chrdevs s = \<lparr>region = None, cdev_live = False\<rparr> \<and> \<not> virtio_on s \<and> bound s = []
     \<and> handles s = Map.empty"

text \<open>\<open>kzalloc\<close> aligns to 8 bytes.\<close>

definition aligned :: "'h platform \<Rightarrow> bool" where
  "aligned K \<longleftrightarrow> (\<forall>n. unat (kaddr K n) mod 8 = 0)"

section \<open>Invariant\<close>

text \<open>
  The devices bound to the driver are the listed ones, in the same order, and in memory; nothing is
  registered, bound or open without the driver; and the files refer to listed devices.
\<close>

definition system_linked :: "'h crypto_system \<Rightarrow> bool" where
  "system_linked s \<longleftrightarrow> (if virtio_on s
     then linked (bound s) (drvdata s) \<and> (\<forall>p \<in> set (devs (drvdata s)). cheap (drvdata s) p \<noteq> None)
     else chrdevs s = \<lparr>region = None, cdev_live = False\<rparr> \<and> bound s = [] \<and> handles s = Map.empty)"

definition files_linked :: "'h crypto_system \<Rightarrow> bool" where
  "files_linked s \<longleftrightarrow> (\<forall>f crof. handles s f = Some crof \<longrightarrow> crof_dev crof \<in> set (devs (drvdata s)))"

lemma linked_probe:
  assumes "linked bs D" "p = 0 \<or> p \<notin> set (devs D)" "v \<notin> set bs" "virtcons_probe p q v D = (r, D')"
  shows "linked (if r = 0 then bs @ [v] else bs) D'" "set (devs D) \<subseteq> set (devs D')"
    "\<forall>x. cheap D x \<noteq> None \<longrightarrow> cheap D' x \<noteq> None" "\<forall>x \<in> set (devs D'). x \<in> set (devs D) \<or> cheap D' x \<noteq> None"
proof -
  have same: "map ((priv D)(v \<mapsto> p)) bs = map (priv D) bs" using assms(3) by auto
  show "linked (if r = 0 then bs @ [v] else bs) D'" "set (devs D) \<subseteq> set (devs D')"
    "\<forall>x. cheap D x \<noteq> None \<longrightarrow> cheap D' x \<noteq> None" "\<forall>x \<in> set (devs D'). x \<in> set (devs D) \<or> cheap D' x \<noteq> None"
    using assms same by (auto simp: virtcons_probe_def linked_def Let_def split: if_splits)
qed

lemma linked_remove:
  assumes "linked bs D" "v \<in> set bs"
  obtains p where "priv D v = Some p" "p \<in> set (devs D)" "virtcons_remove v D = Some (unlink_device p D)"
    "linked (remove1 v bs) (unlink_device p D)"
proof -
  have m: "map (priv D) bs = map Some (devs D)" and dist: "distinct (devs D)" using assms(1) by (simp_all add: linked_def)
  have "priv D v \<in> set (map Some (devs D))" using assms(2) m [symmetric] by auto
  then obtain p where p: "priv D v = Some p" "p \<in> set (devs D)" by auto
  have "map (priv D) (remove1 v xs) = map Some (remove1 p ys)"
    if "map (priv D) xs = map Some ys" "distinct ys" "v \<in> set xs" for xs ys
    using that
  proof (induction xs arbitrary: ys)
    case (Cons x xs)
    then obtain y ys' where ys: "ys = y # ys'" "priv D x = Some y" "map (priv D) xs = map Some ys'" by (cases ys) auto
    show ?case
    proof (cases "x = v")
      case True
      then show ?thesis using ys p(1) by simp
    next
      case False
      then have v: "v \<in> set xs" using Cons.prems(3) by simp
      then have "priv D v \<in> set (map Some ys')" using ys(3) [symmetric] by auto
      then have "y \<noteq> p" using p(1) Cons.prems(2) ys(1) by auto
      then show ?thesis using Cons.IH [OF ys(3) _ v] False ys Cons.prems(2) by simp
    qed
  qed simp
  from this [OF m dist assms(2)] show thesis
    using p dist by (intro that [of p]) (auto simp: virtcons_remove_def linked_def unlink_device_def)
qed

lemma crypto_step_linked:
  assumes "crypto_step K careful s e s'" "system_linked s"
  shows "system_linked s'"
  using assms(1)
proof cases
  case (loads reg add virtio r c D b)
  then show ?thesis
    using assms(2) by (auto simp: system_linked_def init_module_def crypto_chrdev_init_def crypto_chrdev_destroy_def
        linked_def Let_def split: if_splits)
next
  case (unloads c D b)
  then show ?thesis
    by (auto simp: system_linked_def fini_module_def crypto_chrdev_destroy_def Let_def bind_Some_iff)
next
  case (plugs v p q r D)
  have "linked (bound s) (drvdata s)" "\<forall>x \<in> set (devs (drvdata s)). cheap (drvdata s) x \<noteq> None"
    using assms(2) plugs(3) by (simp_all add: system_linked_def)
  moreover from this have "p = 0 \<or> p \<notin> set (devs (drvdata s))" using plugs(5) by auto
  ultimately show ?thesis
    using linked_probe [of "bound s" "drvdata s" p v q r D] plugs by (auto simp: system_linked_def)
next
  case (unplugs v D)
  have "linked (bound s) (drvdata s)" "\<forall>x \<in> set (devs (drvdata s)). cheap (drvdata s) x \<noteq> None"
    using assms(2) unplugs(3) by (simp_all add: system_linked_def)
  note mem = this
  obtain p where "virtcons_remove v (drvdata s) = Some (unlink_device p (drvdata s))"
    "linked (remove1 v (bound s)) (unlink_device p (drvdata s))"
    using linked_remove [OF mem(1) unplugs(4)] by blast
  then have D: "D = unlink_device p (drvdata s)" "linked (remove1 v (bound s)) D" using unplugs(6) by simp_all
  moreover have "\<forall>x \<in> set (devs D). cheap D x \<noteq> None"
    using mem unfolding D(1) by (auto simp: unlink_device_def linked_def)
  ultimately show ?thesis using unplugs(2,3) by (simp add: system_linked_def)
next
  case (opens n k f ns r pd g)
  then show ?thesis using assms(2) by (auto simp: system_linked_def split: if_splits)
next
  case (ioctls f crof cmd arg u r g)
  then show ?thesis using assms(2) by (auto simp: system_linked_def)
next
  case (closes f crof r g)
  then show ?thesis using assms(2) by (auto simp: system_linked_def)
qed

text \<open>What \<open>open\<close> does: refused, or a file with a device that is listed and a descriptor of the host.\<close>

lemma low_word: "unat (ucast (p :: addr) :: u32) = unat p mod 2 ^ 32"
  by (simp add: unsigned_ucast_eq take_bit_eq_mod)

lemma aligned_not_call:
  assumes "aligned K"
  shows "(ucast (kaddr K n) :: u32) \<noteq> 1 \<and> (ucast (kaddr K n) :: u32) \<noteq> 2"
proof -
  have "unat (kaddr K n) mod 2 ^ 32 mod 8 = unat (kaddr K n) mod 8" by (rule mod_mod_cancel) simp
  then have "unat (ucast (kaddr K n) :: u32) mod 8 = 0"
    using assms by (simp only: low_word aligned_def)
  moreover have "unat (1 :: u32) mod 8 \<noteq> 0" "unat (2 :: u32) mod 8 \<noteq> 0" by simp_all
  ultimately show ?thesis by metis
qed

lemma open_outcome:
  assumes "ample K" "aligned K" "nonseekable \<le> 0" "\<forall>p \<in> set (devs D). cheap D p \<noteq> None"
  obtains (opened) d fd g' where "crypto_chrdev_open K nonseekable D k g =
      Some (0, Some \<lparr>crof_dev = d, crof_fd = word_of_int fd\<rparr>, g')" "d \<in> set (devs D)"
    "os_open (hos K) (host g) = (fd, host g')" "0 \<le> sint (word_of_int fd :: u32)"
  | (refused) r pd g' where "crypto_chrdev_open K nonseekable D k g = Some (r, pd, g')" "r \<noteq> 0" "host g' = host g"
  | (host_refused) fd pd g' where "crypto_chrdev_open K nonseekable D k g = Some (- ENODEV, pd, g')"
    "os_open (hos K) (host g) = (fd, host g')" "sint (word_of_int fd :: u32) < 0"
proof -
  have find: "get_crypto_dev_by_minor k D = Some (find (\<lambda>p. minor (the (cheap D p)) = k) (devs D))"
    using assms(4) by (simp add: get_crypto_dev_by_minor_def find_minor_Some)
  let ?p = "kaddr K (kcalls g)"
  show thesis
  proof (cases "nonseekable = 0 \<and> find (\<lambda>p. minor (the (cheap D p)) = k) (devs D) \<noteq> None")
    case False
    then show thesis
      using assms(1,3) find refused
      by (cases "nonseekable = 0") (auto simp: crypto_chrdev_open_def Let_def kzalloc_ample [OF assms(1)])
  next
    case True
    then obtain d where d: "find (\<lambda>p. minor (the (cheap D p)) = k) (devs D) = Some d" by blast
    then have dev: "get_crypto_dev_by_minor k D = Some (Some d)" "d \<in> set (devs D)"
      using find by (auto simp: find_Some_iff)
    have ns: "0 \<le> nonseekable" using True by simp
    note call = open_call [OF assms(1) ns refl dev(1), of g]
    show thesis
    proof (cases "(ucast ?p :: u32) = 0")
      case zero: True
      obtain fd h' where fd: "os_open (hos K) (host g) = (fd, h')" by fastforce
      let ?g = "g\<lparr>live := {#K_crof, K_syscall_type#} + live g, kcalls := kcalls g + 2, host := h'\<rparr>"
      have "crypto_chrdev_open K nonseekable D k g = Some (if sint (word_of_int fd :: u32) < 0 then - ENODEV else 0,
          Some \<lparr>crof_dev = d, crof_fd = word_of_int fd\<rparr>, ?g)"
        using call zero fd True by simp
      then show thesis
        using opened [of d fd ?g] host_refused [of _ ?g fd] dev(2) fd
        by (cases "sint (word_of_int fd :: u32) < 0") simp_all
    next
      case False
      then have "(ucast ?p :: u32) \<notin> {0, 1, 2}" using aligned_not_call [OF assms(2)] by blast
      then show thesis using call refused by auto
    qed
  qed
qed

text \<open>An ioctl changes the host only through its calls.\<close>

definition host_keeps :: "'h host_os \<Rightarrow> ('h \<Rightarrow> 'h \<Rightarrow> bool) \<Rightarrow> bool" where
  "host_keeps H R \<longleftrightarrow> (\<forall>h. R h h) \<and> (\<forall>fd s k h. R h (snd (snd (os_gsession H fd s k h))))
     \<and> (\<forall>fd i h. R h (snd (os_fsession H fd i h))) \<and> (\<forall>fd c src iv dst h. R h (snd (snd (os_crypt H fd c src iv dst h))))"

lemma host_ioctl_keeps:
  assumes "host_keeps H R" "host_ioctl H B rq h = Some (rq', h')"
  shows "R h h'"
proof -
  have R: "\<And>h. R h h" "\<And>fd s k r s' h'. os_gsession H fd s k h = (r, s', h') \<Longrightarrow> R h h'"
    "\<And>fd i r h'. os_fsession H fd i h = (r, h') \<Longrightarrow> R h h'"
    "\<And>fd c src iv dst r d h'. os_crypt H fd c src iv dst h = (r, d, h') \<Longrightarrow> R h h'"
    using assms(1) unfolding host_keeps_def by (metis snd_conv)+
  show ?thesis
    using assms(2)
    by (auto simp: host_ioctl_def bind_Some_iff Let_def split: prod.splits if_splits option.splits seg.splits intro: R)
qed

lemma exchange_ioctl_keeps:
  assumes "host_keeps (hos K) R" "exchange K (ioctl_request fd cmd outs ins) g = Some (rq', g')"
  shows "R (host g) (host g')"
  using assms
  by (auto simp: exchange_def vq_handle_output_def ioctl_request_def SYSCALL_IOCTL_def SYSCALL_OPEN_def SYSCALL_CLOSE_def
      bind_Some_iff split: if_splits prod.splits dest: host_ioctl_keeps)

lemma kzalloc_host: "host (snd (kzalloc_ptr K x g)) = host g" "host (snd (kzalloc_sized K x n g)) = host g"
  "kzalloc K x g = Some g' \<Longrightarrow> host g' = host g" "host (kzalloc_refused g) = host g"
  by (auto simp: kzalloc_ptr_def kzalloc_sized_def kzalloc_def kzalloc_refused_def split: if_splits prod.splits)

lemma kzalloc_hostD:
  "kzalloc_ptr K x g = (p, g') \<Longrightarrow> host g' = host g" "kzalloc_sized K x n g = (p, g') \<Longrightarrow> host g' = host g"
  using kzalloc_host(1) [of K x g] kzalloc_host(2) [of K x n g] by simp_all

lemma crypt_prepare_host: "crypt_prepare K a b arg g = Some (prep, g') \<Longrightarrow> host g' = host g"
  by (auto simp: crypt_prepare_def Let_def kzalloc_host dest!: kzalloc_hostD split: if_splits option.splits prod.splits)

lemma ioctl_prepare_host: "ioctl_prepare K a b c cmd arg g = Some (prep, g') \<Longrightarrow> host g' = host g"
  by (auto simp: ioctl_prepare_def gsession_prepare_def fsession_prepare_def bind_Some_iff
      dest!: kzalloc_hostD kzalloc_host(3) crypt_prepare_host split: if_splits option.splits prod.splits)

lemma ioctl_finish_host: "ioctl_finish cmd arg n ins g = Some (early, g') \<Longrightarrow> host g' = host g"
  by (auto simp: ioctl_finish_def Let_def split: if_splits option.splits seg.splits)

lemma ioctl_keeps:
  assumes "ample K" "host_keeps (hos K) R" "crypto_chrdev_ioctl K (Some crof) cmd arg g = Some (r, g')"
  shows "R (host g) (host g')"
proof -
  obtain prep g1 where prep: "ioctl_prepare K 1 1 1 cmd arg (with_objects g) = Some (prep, g1)"
    using assms(3) by (auto simp: ioctl_unfold [OF assms(1)] bind_Some_iff)
  have same: "host g1 = host g" using ioctl_prepare_host [OF prep] by simp
  show ?thesis
  proof (cases prep)
    case (Early x)
    then show ?thesis
      using assms(2,3) prep same by (simp add: ioctl_unfold [OF assms(1)] host_keeps_def)
  next
    case (Go n outs ins)
    then obtain rq g2 early g3 where ex: "exchange K (ioctl_request (crof_fd crof) cmd outs ins) g1 = Some (rq, g2)"
      and fin: "ioctl_finish cmd arg n (snd rq) g2 = Some (early, g3)" and g': "host g' = host g3"
      using assms(3) prep by (auto simp: ioctl_unfold [OF assms(1)] bind_Some_iff split: if_splits)
    have "R (host g1) (host g2)" by (rule exchange_ioctl_keeps [OF assms(2) ex])
    then show ?thesis using ioctl_finish_host [OF fin] g' same by simp
  qed
qed

section \<open>Descriptors\<close>

text \<open>
  The host's descriptors: \<open>open\<close> gives one that is not in use, \<open>close\<close> gives it back, and the ioctls
  of cryptodev touch none.
\<close>

definition fd_host :: "'h host_os \<Rightarrow> ('h \<Rightarrow> u32 set) \<Rightarrow> bool" where
  "fd_host H fds \<longleftrightarrow>
     (\<forall>h fd h'. os_open H h = (fd, h') \<longrightarrow>
        (if sint (word_of_int fd :: u32) < 0 then fds h' = fds h
         else word_of_int fd \<notin> fds h \<and> fds h' = insert (word_of_int fd) (fds h)))
     \<and> (\<forall>fd h. fds (os_close H fd h) = fds h - {fd})
     \<and> host_keeps H (\<lambda>h h'. fds h' = fds h)"

text \<open>Every open file has a descriptor of its own, and the host has no others but those it had before.\<close>

definition own_fds :: "('h \<Rightarrow> u32 set) \<Rightarrow> u32 set \<Rightarrow> 'h crypto_system \<Rightarrow> bool" where
  "own_fds fds F s \<longleftrightarrow>
     (\<forall>f x. handles s f = Some x \<longrightarrow> crof_fd x \<notin> F \<and> (\<forall>g y. handles s g = Some y \<longrightarrow> g \<noteq> f \<longrightarrow> crof_fd y \<noteq> crof_fd x))
     \<and> (\<forall>d. d \<in> fds (host (kernel s)) \<longleftrightarrow> d \<in> F \<or> (\<exists>f x. handles s f = Some x \<and> crof_fd x = d))"

lemma own_fdsD:
  assumes "own_fds fds F s" "handles s f = Some x"
  shows "crof_fd x \<notin> F" "handles s g = Some y \<Longrightarrow> g \<noteq> f \<Longrightarrow> crof_fd y \<noteq> crof_fd x"
    "crof_fd x \<in> fds (host (kernel s))"
  using assms unfolding own_fds_def by blast+

lemma own_fds_open:
  assumes "own_fds fds F s" "handles s f = None" "crof_fd x \<notin> fds (host (kernel s))"
    and "fds (host g) = insert (crof_fd x) (fds (host (kernel s)))"
  shows "own_fds fds F (s\<lparr>kernel := g, handles := (handles s)(f \<mapsto> x)\<rparr>)"
proof -
  have new: "crof_fd x \<notin> F" "\<And>h y. handles s h = Some y \<Longrightarrow> crof_fd y \<noteq> crof_fd x"
    using assms(1,3) own_fdsD(3) [OF assms(1)] by (auto simp: own_fds_def)
  show ?thesis
    unfolding own_fds_def
  proof (intro conjI allI impI)
    fix h y
    assume y: "handles (s\<lparr>kernel := g, handles := (handles s)(f \<mapsto> x)\<rparr>) h = Some y"
    then show "crof_fd y \<notin> F" using new(1) own_fdsD(1) [OF assms(1)] by (auto split: if_splits)
    fix h' z
    assume "handles (s\<lparr>kernel := g, handles := (handles s)(f \<mapsto> x)\<rparr>) h' = Some z" "h' \<noteq> h"
    then show "crof_fd z \<noteq> crof_fd y" using y new(2) own_fdsD(2) [OF assms(1)] by (fastforce split: if_splits)
  next
    fix d
    have "(\<exists>h y. ((handles s)(f \<mapsto> x)) h = Some y \<and> crof_fd y = d) \<longleftrightarrow>
        d = crof_fd x \<or> (\<exists>h y. handles s h = Some y \<and> crof_fd y = d)"
      using assms(2) by (metis fun_upd_apply option.distinct(1) option.inject)
    moreover have "d \<in> fds (host (kernel s)) \<longleftrightarrow> d \<in> F \<or> (\<exists>h y. handles s h = Some y \<and> crof_fd y = d)"
      using assms(1) by (simp add: own_fds_def)
    ultimately show "d \<in> fds (host (kernel (s\<lparr>kernel := g, handles := (handles s)(f \<mapsto> x)\<rparr>))) \<longleftrightarrow>
        d \<in> F \<or> (\<exists>h y. handles (s\<lparr>kernel := g, handles := (handles s)(f \<mapsto> x)\<rparr>) h = Some y \<and> crof_fd y = d)"
      using assms(4) by simp blast
  qed
qed

lemma own_fds_close:
  assumes "own_fds fds F s" "handles s f = Some x" "fds (host g) = fds (host (kernel s)) - {crof_fd x}"
  shows "own_fds fds F (s\<lparr>kernel := g, handles := (handles s)(f := None)\<rparr>)"
  unfolding own_fds_def
proof (intro conjI allI impI)
  fix h y
  assume y: "handles (s\<lparr>kernel := g, handles := (handles s)(f := None)\<rparr>) h = Some y"
  then show "crof_fd y \<notin> F" using own_fdsD(1) [OF assms(1)] by (auto split: if_splits)
  fix h' z
  assume "handles (s\<lparr>kernel := g, handles := (handles s)(f := None)\<rparr>) h' = Some z" "h' \<noteq> h"
  then show "crof_fd z \<noteq> crof_fd y" using y own_fdsD(2) [OF assms(1)] by (auto split: if_splits)
next
  fix d
  have "d \<in> fds (host g) \<longleftrightarrow> d \<noteq> crof_fd x \<and> (d \<in> F \<or> (\<exists>h y. handles s h = Some y \<and> crof_fd y = d))"
    using assms(1,3) by (auto simp: own_fds_def)
  also have "\<dots> \<longleftrightarrow> d \<in> F \<or> (\<exists>h y. h \<noteq> f \<and> handles s h = Some y \<and> crof_fd y = d)"
    using own_fdsD(1,2) [OF assms(1,2)] assms(2) by (metis option.inject)
  finally show "d \<in> fds (host (kernel (s\<lparr>kernel := g, handles := (handles s)(f := None)\<rparr>))) \<longleftrightarrow>
      d \<in> F \<or> (\<exists>h y. handles (s\<lparr>kernel := g, handles := (handles s)(f := None)\<rparr>) h = Some y \<and> crof_fd y = d)"
    by (auto split: if_splits)
qed

lemma own_fds_kernel:
  "own_fds fds F s \<Longrightarrow> fds (host (kernel s')) = fds (host (kernel s)) \<Longrightarrow> handles s' = handles s \<Longrightarrow> own_fds fds F s'"
  by (simp add: own_fds_def)

lemma crypto_step_fds:
  assumes "crypto_step K careful s e s'" "ample K" "aligned K" "fd_host (hos K) fds" "system_linked s" "own_fds fds F s"
  shows "own_fds fds F s'"
  using assms(1)
proof cases
  case (opens n k f ns r pd g)
  have "virtio_on s" using assms(5) opens(3) by (auto simp: system_linked_def split: if_splits)
  then have mem: "\<forall>p \<in> set (devs (drvdata s)). cheap (drvdata s) p \<noteq> None"
    using assms(5) by (simp add: system_linked_def)
  show ?thesis
  proof (rule open_outcome [OF assms(2,3) opens(7) mem, of k "kernel s"])
    fix d fd g'
    assume o: "crypto_chrdev_open K ns (drvdata s) k (kernel s) = Some (0, Some \<lparr>crof_dev = d, crof_fd = word_of_int fd\<rparr>, g')"
      "os_open (hos K) (host (kernel s)) = (fd, host g')" "0 \<le> sint (word_of_int fd :: u32)"
    have "(word_of_int fd :: u32) \<notin> fds (host (kernel s))" "fds (host g') = insert (word_of_int fd) (fds (host (kernel s)))"
      using assms(4) [unfolded fd_host_def, THEN conjunct1, rule_format, OF o(2)] o(3) by simp_all
    then show ?thesis
      using own_fds_open [OF assms(6) opens(6), of "\<lparr>crof_dev = d, crof_fd = word_of_int fd\<rparr>" g'] o(1) opens by simp
  next
    fix r' pd' g'
    assume "crypto_chrdev_open K ns (drvdata s) k (kernel s) = Some (r', pd', g')" "r' \<noteq> 0" "host g' = host (kernel s)"
    then show ?thesis using opens own_fds_kernel [OF assms(6), of s'] by simp
  next
    fix fd pd' g'
    assume o: "crypto_chrdev_open K ns (drvdata s) k (kernel s) = Some (- ENODEV, pd', g')"
      "os_open (hos K) (host (kernel s)) = (fd, host g')" "sint (word_of_int fd :: u32) < 0"
    have "fds (host g') = fds (host (kernel s))"
      using assms(4) [unfolded fd_host_def, THEN conjunct1, rule_format, OF o(2)] o(3) by simp
    then show ?thesis using o opens own_fds_kernel [OF assms(6), of s'] by simp
  qed
next
  case (ioctls f crof cmd arg u r g)
  have keeps: "host_keeps (hos K) (\<lambda>h h'. fds h' = fds h)" using assms(4) by (simp add: fd_host_def)
  have "crypto_chrdev_ioctl K (Some crof) cmd arg ((kernel s)\<lparr>um := u\<rparr>) = Some (r, g)"
    using ioctls(4) by (auto simp: file_ioctl_def bind_Some_iff)
  then have "fds (host g) = fds (host (kernel s))" using ioctl_keeps [OF assms(2) keeps] by fastforce
  then show ?thesis using ioctls(2) own_fds_kernel [OF assms(6), of s'] by simp
next
  case (closes f crof r g)
  have "crypto_chrdev_release K (Some crof) (kernel s) = Some (r, g)"
    using closes(4) by (auto simp: file_release_def bind_Some_iff)
  then have "host g = os_close (hos K) (crof_fd crof) (host (kernel s))" by (auto simp: release_eq [OF assms(2)])
  then have "fds (host g) = fds (host (kernel s)) - {crof_fd crof}" using assms(4) by (simp add: fd_host_def)
  then show ?thesis unfolding closes(2) by (rule own_fds_close [OF assms(6) closes(3)])
qed (use own_fds_kernel [OF assms(6)] in simp_all)

section \<open>Devices in use\<close>

text \<open>When devices are unplugged with care, the device of every open file stays listed.\<close>

lemma crypto_step_files:
  assumes "crypto_step K True s e s'" "ample K" "aligned K" "system_linked s" "files_linked s"
  shows "files_linked s'"
  using assms(1)
proof cases
  case (loads reg add virtio r c D b)
  then show ?thesis using assms(4) by (simp add: system_linked_def files_linked_def)
next
  case (plugs v p q r D)
  then have "linked (bound s) (drvdata s)" "p = 0 \<or> p \<notin> set (devs (drvdata s))"
    using assms(4) by (auto simp: system_linked_def)
  from linked_probe(2) [OF this plugs(4,6)] show ?thesis
    using assms(5) plugs(2) by (auto simp: files_linked_def)
next
  case (unplugs v D)
  have "linked (bound s) (drvdata s)" using assms(4) unplugs(3) by (simp add: system_linked_def)
  then obtain p where p: "priv (drvdata s) v = Some p" "virtcons_remove v (drvdata s) = Some (unlink_device p (drvdata s))"
    using linked_remove [OF _ unplugs(4)] by blast
  then have "devs D = remove1 p (devs (drvdata s))" using unplugs(6) by (auto simp: unlink_device_def)
  moreover have "crof_dev crof \<noteq> p" if "handles s f = Some crof" for f crof using unplugs(5) that p(1) by auto
  ultimately show ?thesis
    using assms(5) unplugs(2) by (fastforce simp: files_linked_def)
next
  case (opens n k f ns r pd g)
  have "virtio_on s" using assms(4) opens(3) by (auto simp: system_linked_def split: if_splits)
  then have mem: "\<forall>p \<in> set (devs (drvdata s)). cheap (drvdata s) p \<noteq> None"
    using assms(4) by (simp add: system_linked_def)
  show ?thesis
    by (rule open_outcome [OF assms(2,3) opens(7) mem, of k "kernel s"])
      (use opens assms(5) in \<open>auto simp: files_linked_def\<close>)
qed (use assms(5) in \<open>auto simp: files_linked_def split: if_splits\<close>)

lemma crypto_run_inv:
  assumes "crypto_run K careful s0 es s" "ample K" "aligned K" "fresh_system s0"
  shows "system_linked s" "careful \<Longrightarrow> files_linked s"
proof -
  have "system_linked s \<and> (careful \<longrightarrow> files_linked s)"
    using assms
  proof (induction rule: crypto_run.induct)
    case (stop s)
    then show ?case by (simp add: fresh_system_def system_linked_def files_linked_def)
  next
    case (step s es s1 e s2)
    then show ?case using crypto_step_linked [OF step.hyps(2)] crypto_step_files [of K s1 e s2] by auto
  qed
  then show "system_linked s" "careful \<Longrightarrow> files_linked s" by simp_all
qed

lemma crypto_run_fds:
  assumes "crypto_run K careful s0 es s" "ample K" "aligned K" "fd_host (hos K) fds" "fresh_system s0"
  shows "own_fds fds (fds (host (kernel s0))) s"
  using assms
proof (induction rule: crypto_run.induct)
  case (stop s)
  then show ?case by (simp add: fresh_system_def own_fds_def)
next
  case (step s es s1 e s2)
  then show ?case using crypto_step_fds [OF step.hyps(2)] crypto_run_inv(1) [OF step.hyps(1)] by blast
qed

section \<open>A run\<close>

text \<open>A host that has room for two descriptors, 3 and 4 (then -EMFILE); and guest memory whose addresses have a lower half
  of 0, so that \<open>open\<close> sends what it means to.\<close>

definition two_fds :: "u32 set host_os" where
  "two_fds = \<lparr>os_open = (\<lambda>h. if 3 \<notin> h then (3, insert 3 h) else if 4 \<notin> h then (4, insert 4 h) else (- 24, h)),
     os_close = (\<lambda>fd h. h - {fd}), os_gsession = (\<lambda>fd s k h. (0, s, h)), os_fsession = (\<lambda>fd i h. (0, h)),
     os_crypt = (\<lambda>fd c src iv dst h. (0, src, h))\<rparr>"

definition lucky_platform :: "u32 set platform" where
  "lucky_platform = \<lparr>kz = (\<lambda>_. True), kaddr = (\<lambda>n. of_nat (2 ^ 32 * Suc (n mod 1000))), build_debug = True,
     vq_pop = (\<lambda>rq. list_all (\<lambda>s. 0 < seg_size s) (fst rq @ snd rq)), hos = two_fds,
     hmap = \<lparr>out_base = (\<lambda>i. 0x7F0000000000 + of_nat i), in_base = (\<lambda>i. 0x7F0000001000 + of_nat i)\<rparr>\<rparr>"

lemma lucky_address: "unat (kaddr lucky_platform n) = 2 ^ 32 * Suc (n mod 1000)"
proof -
  have small: "unat (of_nat m :: addr) = m" if "m < 2 ^ 64" for m using that by (simp add: unat_of_nat)
  have "n mod 1000 < 1000" by simp
  then have "2 ^ 32 * Suc (n mod 1000) < (2 :: nat) ^ 64" by simp
  from small [OF this] show ?thesis unfolding lucky_platform_def platform.simps .
qed

lemma lucky_platform_ok: "ample lucky_platform" "aligned lucky_platform" "(ucast (kaddr lucky_platform n) :: u32) = 0"
proof -
  have "kaddr lucky_platform n \<noteq> 0" for n using lucky_address [of n] by (metis mult_eq_0_iff nat.distinct(1) power_not_zero unsigned_0 zero_neq_numeral)
  then show "ample lucky_platform"
    by (auto simp: ample_def list_all_iff) (simp_all add: lucky_platform_def list_all_iff)
  show "aligned lucky_platform" by (simp add: aligned_def lucky_address)
  have "unat (ucast (kaddr lucky_platform n) :: u32) = 0" unfolding low_word lucky_address by simp
  then show "(ucast (kaddr lucky_platform n) :: u32) = 0" by (rule unat_eq_zero [THEN iffD1])
qed

lemma two_fds_host: "fd_host (hos lucky_platform) (\<lambda>h. h)"
  by (auto simp: fd_host_def host_keeps_def lucky_platform_def two_fds_def)

definition no_guest :: "u32 set guest" where
  "no_guest = \<lparr>live = {#}, kcalls = 0, um = \<lparr>um_bytes = Map.empty, um_session = Map.empty, um_u32 = Map.empty,
     um_crypt = Map.empty\<rparr>, host = {}\<rparr>"

definition blank_system :: "u32 set crypto_system" where
  "blank_system = \<lparr>chrdevs = \<lparr>region = None, cdev_live = False\<rparr>, drvdata = no_devices, virtio_on = False, bound = [],
     kernel = no_guest, handles = Map.empty\<rparr>"

lemma lucky_open:
  assumes "get_crypto_dev_by_minor k D = Some (Some d)" "os_open two_fds (host g) = (fd, h')" "0 \<le> sint (word_of_int fd :: u32)"
  shows "\<exists>g'. crypto_chrdev_open lucky_platform 0 D k g = Some (0, Some \<lparr>crof_dev = d, crof_fd = word_of_int fd\<rparr>, g') \<and> host g' = h'"
proof -
  have "os_open (hos lucky_platform) (host g) = (fd, h')" using assms(2) by (simp add: lucky_platform_def)
  then show ?thesis
    using open_call [OF lucky_platform_ok(1) _ refl assms(1), of 0 g] lucky_platform_ok(3) assms(3) by auto
qed

text \<open>Load, a device, and two files on it.\<close>

lemma two_files_run:
  "\<exists>s. crypto_run lucky_platform True blank_system [Load 0, Plug 7 0, Opens 1 0 0, Opens 2 0 0] s
    \<and> handles s = [1 \<mapsto> \<lparr>crof_dev = 0x1000, crof_fd = 3\<rparr>, 2 \<mapsto> \<lparr>crof_dev = 0x1000, crof_fd = 4\<rparr>]
    \<and> bound s = [7] \<and> priv (drvdata s) 7 = Some 0x1000 \<and> virtio_on s"
proof -
  let ?K = "lucky_platform" and ?D = "probed (7, 0x2000) 0x1000 no_devices"
  let ?R = "\<lparr>region = Some CRYPTO_NR_DEVICES, cdev_live = True\<rparr>"
  let ?s1 = "blank_system\<lparr>chrdevs := ?R, drvdata := no_devices, virtio_on := True\<rparr>"
  let ?s2 = "?s1\<lparr>drvdata := ?D, bound := [7]\<rparr>"
  have "init_module 0 0 0 (chrdevs blank_system, (drvdata blank_system)\<lparr>next_minor := 0\<rparr>, False) = (0, ?R, no_devices, True)"
    by (simp add: init_module_def crypto_chrdev_init_def blank_system_def no_devices_def Let_def)
  then have s1: "crypto_step ?K True blank_system (Load 0) ?s1"
    by (intro loads [where reg = 0 and add = 0 and virtio = 0]) (simp_all add: blank_system_def)
  have room: "probe_room no_devices (7, 0x2000) 0x1000"
    using good_vq by (simp add: probe_room_def no_devices_def)
  have s2: "crypto_step ?K True ?s1 (Plug 7 0) ?s2"
    using plugs [of ?s1 7 "0x1000" "0x2000" 0 ?D ?K True] probe_ok [OF room]
    by (simp add: blank_system_def no_devices_def)
  have look: "get_crypto_dev_by_minor 0 ?D = Some (Some 0x1000)"
    unfolding probed_eq [OF room] by (simp add: get_crypto_dev_by_minor_def no_devices_def)
  have h: "os_open two_fds (host no_guest) = (3, {3})" by (simp add: two_fds_def no_guest_def)
  obtain g1 where g1: "crypto_chrdev_open ?K 0 ?D 0 no_guest = Some (0, Some \<lparr>crof_dev = 0x1000, crof_fd = 3\<rparr>, g1)" "host g1 = {3}"
    using lucky_open [OF look h] by auto
  have h: "os_open two_fds (host g1) = (4, {4, 3})" using g1(2) by (simp add: two_fds_def)
  obtain g2 where g2: "crypto_chrdev_open ?K 0 ?D 0 g1 = Some (0, Some \<lparr>crof_dev = 0x1000, crof_fd = 4\<rparr>, g2)"
    using lucky_open [OF look h] by auto
  let ?s3 = "?s2\<lparr>kernel := g1, handles := [1 \<mapsto> \<lparr>crof_dev = 0x1000, crof_fd = 3\<rparr>]\<rparr>"
  let ?s4 = "?s3\<lparr>kernel := g2, handles := [1 \<mapsto> \<lparr>crof_dev = 0x1000, crof_fd = 3\<rparr>, 2 \<mapsto> \<lparr>crof_dev = 0x1000, crof_fd = 4\<rparr>]\<rparr>"
  have s3: "crypto_step ?K True ?s2 (Opens 1 0 0) ?s3"
    using opens [of ?s2 32 0 1 0 ?K 0 "Some \<lparr>crof_dev = 0x1000, crof_fd = 3\<rparr>" g1 True] g1(1)
    by (simp add: blank_system_def CRYPTO_NR_DEVICES_def)
  have s4: "crypto_step ?K True ?s3 (Opens 2 0 0) ?s4"
    using opens [of ?s3 32 0 2 0 ?K 0 "Some \<lparr>crof_dev = 0x1000, crof_fd = 4\<rparr>" g2 True] g2
    by (simp add: blank_system_def CRYPTO_NR_DEVICES_def)
  have "crypto_run ?K True blank_system (((([] @ [Load 0]) @ [Plug 7 0]) @ [Opens 1 0 0]) @ [Opens 2 0 0]) ?s4"
    by (rule crypto_run.step [OF crypto_run.step [OF crypto_run.step [OF crypto_run.step [OF crypto_run.stop s1] s2] s3] s4])
  moreover have "priv (drvdata ?s4) 7 = Some 0x1000" by (simp add: probed_eq [OF room])
  ultimately show ?thesis by (intro exI [of _ ?s4]) (simp add: blank_system_def)
qed

lemma blank_system_fresh: "fresh_system blank_system"
  by (simp add: fresh_system_def blank_system_def)

section \<open>Properties\<close>



text \<open>C13: every open file of the guest has a descriptor of the host to itself. After any history, with or
  without care, the host's descriptors are those it had before the driver was loaded and one for
  each open file, all different; so once no file is open, the host has lost none.\<close>

theorem files_own_descriptors:
  assumes "ample K" "aligned K" "fd_host (hos K) fds" "fresh_system s0" "crypto_run K careful s0 es s"
  shows "fds (host (kernel s)) = fds (host (kernel s0)) \<union> crof_fd ` ran (handles s)
    \<and> (\<forall>f x g y. handles s f = Some x \<longrightarrow> handles s g = Some y \<longrightarrow> f \<noteq> g \<longrightarrow> crof_fd x \<noteq> crof_fd y)
    \<and> (\<forall>x \<in> ran (handles s). crof_fd x \<notin> fds (host (kernel s0)))"
proof -
  have own: "own_fds fds (fds (host (kernel s0))) s" by (rule crypto_run_fds [OF assms(5,1-4)])
  have "d \<in> fds (host (kernel s)) \<longleftrightarrow> d \<in> fds (host (kernel s0)) \<or> (\<exists>f x. handles s f = Some x \<and> crof_fd x = d)" for d
    using own by (simp add: own_fds_def)
  then have "fds (host (kernel s)) = fds (host (kernel s0)) \<union> crof_fd ` ran (handles s)"
    by (intro set_eqI) (auto simp: ran_def)
  then show ?thesis using own_fdsD(1,2) [OF own] by (auto simp: ran_def)
qed

lemma files_own_descriptors_witness:
  "\<exists>s. crypto_run lucky_platform True blank_system [Load 0, Plug 7 0, Opens 1 0 0, Opens 2 0 0] s \<and> host (kernel s) = {3, 4}"
proof -
  obtain s where s: "crypto_run lucky_platform True blank_system [Load 0, Plug 7 0, Opens 1 0 0, Opens 2 0 0] s"
    "handles s = [1 \<mapsto> \<lparr>crof_dev = 0x1000, crof_fd = 3\<rparr>, 2 \<mapsto> \<lparr>crof_dev = 0x1000, crof_fd = 4\<rparr>]"
    using two_files_run by blast
  have "host (kernel blank_system) = {}" by (simp add: blank_system_def no_guest_def)
  then show ?thesis
    using files_own_descriptors [OF lucky_platform_ok(1,2) two_fds_host blank_system_fresh s(1)] s by auto
qed

text \<open>C34: unplugging a device that is in use is a use after free. Nothing in the driver stops the removal of a
  device with an open file: in every reachable state of it the removal succeeds, the file stays open,
  and its structure points to freed memory, so that neither an ioctl nor the release of the file can be
  carried out.\<close>

theorem unplugged_device_is_used:
  assumes "ample K" "aligned K" "fresh_system s0" "crypto_run K careful s0 es s"
    and "handles s f = Some crof" "v \<in> set (bound s)" "priv (drvdata s) v = Some (crof_dev crof)"
  shows "\<exists>s'. crypto_step K False s (Unplug v) s' \<and> handles s' f = Some crof
    \<and> (\<forall>cmd arg g. file_ioctl K (drvdata s') crof cmd arg g = None) \<and> (\<forall>g. file_release K (drvdata s') crof g = None)"
proof -
  have inv: "system_linked s" using crypto_run_inv(1) [OF assms(4,1-3)] .
  then have on: "virtio_on s" using assms(5) by (auto simp: system_linked_def split: if_splits)
  then have "linked (bound s) (drvdata s)" using inv by (simp add: system_linked_def)
  then have rm: "virtcons_remove v (drvdata s) = Some (unlink_device (crof_dev crof) (drvdata s))"
    using linked_remove [OF _ assms(6)] assms(7) by (metis option.inject)
  have "crypto_step K False s (Unplug v)
      (s\<lparr>drvdata := unlink_device (crof_dev crof) (drvdata s), bound := remove1 v (bound s)\<rparr>)"
    using on assms(6) rm by (intro unplugs) simp_all
  moreover have "cheap (unlink_device (crof_dev crof) (drvdata s)) (crof_dev crof) = None"
    by (simp add: unlink_device_def)
  ultimately show ?thesis
    using assms(5) by (intro exI [of _ "s\<lparr>drvdata := unlink_device (crof_dev crof) (drvdata s), bound := remove1 v (bound s)\<rparr>"])
      (simp add: file_ioctl_def file_release_def)
qed

lemma unplugged_device_is_used_witness:
  "\<exists>s s'. crypto_run lucky_platform True blank_system [Load 0, Plug 7 0, Opens 1 0 0, Opens 2 0 0] s
    \<and> crypto_step lucky_platform False s (Unplug 7) s' \<and> handles s' 1 = Some \<lparr>crof_dev = 0x1000, crof_fd = 3\<rparr>
    \<and> (\<forall>g. file_release lucky_platform (drvdata s') \<lparr>crof_dev = 0x1000, crof_fd = 3\<rparr> g = None)"
proof -
  obtain s where s: "crypto_run lucky_platform True blank_system [Load 0, Plug 7 0, Opens 1 0 0, Opens 2 0 0] s"
    "handles s = [1 \<mapsto> \<lparr>crof_dev = 0x1000, crof_fd = 3\<rparr>, 2 \<mapsto> \<lparr>crof_dev = 0x1000, crof_fd = 4\<rparr>]" "bound s = [7]"
    "priv (drvdata s) 7 = Some 0x1000"
    using two_files_run by blast
  have "handles s 1 = Some \<lparr>crof_dev = 0x1000, crof_fd = 3\<rparr>" "7 \<in> set (bound s)"
    "priv (drvdata s) 7 = Some (crof_dev \<lparr>crof_dev = 0x1000, crof_fd = 3\<rparr>)"
    using s by simp_all
  from unplugged_device_is_used [OF lucky_platform_ok(1,2) blank_system_fresh s(1) this] show ?thesis using s(1) by blast
qed

end
