(* ===== verification/CryptoTest.thy ===== *)
theory CryptoTest
  imports ChatGuest
begin

text \<open>
  The test programs of the guest driver, \<open>guest/test_crypto.c\<close> and \<open>guest/test_fork_crypto.c\<close>:
  random data is encrypted and decrypted through an open \<open>/dev/crypto\<close> and compared. A process has
  its own memory; the device and what is behind it is shared. The device is a parameter, the ioctl
  with the caller's memory, of which only the contract \<open>session_device\<close> is used.
\<close>

section \<open>State\<close>

definition TEST_DATA_SIZE :: nat where "TEST_DATA_SIZE = 16384"
definition TEST_BLOCK_SIZE :: nat where "TEST_BLOCK_SIZE = 16"
definition TEST_KEY_SIZE :: nat where "TEST_KEY_SIZE = 24"

text \<open>
  Where the locals of \<open>test_crypto\<close> are on the stack: the structure \<open>data\<close> with its five arrays one
  after the other, and the two arguments of the ioctls.
\<close>

record test_layout =
  at_struct :: addr
  at_sess :: addr
  at_cryp :: addr
  at_ses :: addr

definition array_at :: "test_layout \<Rightarrow> nat \<Rightarrow> addr" where
  "array_at L off = at_struct L + of_nat off"

definition off_in :: nat where "off_in = 0"
definition off_encrypted :: nat where "off_encrypted = TEST_DATA_SIZE"
definition off_decrypted :: nat where "off_decrypted = 2 * TEST_DATA_SIZE"
definition off_iv :: nat where "off_iv = 3 * TEST_DATA_SIZE"
definition off_key :: nat where "off_key = 3 * TEST_DATA_SIZE + TEST_BLOCK_SIZE"
definition struct_size :: nat where "struct_size = 3 * TEST_DATA_SIZE + TEST_BLOCK_SIZE + TEST_KEY_SIZE"

text \<open>A process: its memory and the two structures.\<close>

record process =
  p_mem :: user_mem
  p_sess :: session_op
  p_cryp :: crypt_op

text \<open>An open device: the ioctl gets the command, the argument and the memory of the caller. A call
  that never returns is \<open>None\<close>.\<close>

type_synonym 'd ioctl_fun = "u32 \<Rightarrow> addr \<Rightarrow> user_mem \<Rightarrow> 'd \<Rightarrow> (int \<times> user_mem \<times> 'd) option"

text \<open>\<open>/dev/urandom\<close>: the results of \<open>open\<close> and of \<open>read\<close>, where \<open>None\<close> is an error.\<close>

record urandom =
  ur_open :: int
  ur_read :: "u8 list option"

section \<open>The parts of test_crypto\<close>

definition zero_sess :: session_op where
  "zero_sess = \<lparr>cipher = 0, mac = 0, keylen = 0, key = 0, mackeylen = 0, mackey = 0, ses = 0\<rparr>"

definition zero_cryp :: crypt_op where
  "zero_cryp = \<lparr>op_ses = 0, op_code = 0, op_flags = 0, op_len = 0, op_src = 0, op_dst = 0, op_mac = 0, op_iv = 0\<rparr>"

definition fill_urandom_buff :: "urandom \<Rightarrow> addr \<Rightarrow> user_mem \<Rightarrow> int \<times> user_mem" where
  "fill_urandom_buff R p u =
     (if ur_open R < 0 then (ur_open R, u)
      else case ur_read R of
        None \<Rightarrow> (-1, u)
      | Some bs \<Rightarrow> (int (length (take TEST_DATA_SIZE bs)), place_bytes p (take TEST_DATA_SIZE bs) u))"

definition test_start :: "test_layout \<Rightarrow> urandom \<Rightarrow> process \<Rightarrow> int \<times> process" where
  "test_start L R p =
     (let p = p\<lparr>p_sess := zero_sess, p_cryp := zero_cryp\<rparr> in
      case fill_urandom_buff R (array_at L off_in) (p_mem p) of (r, u) \<Rightarrow> (r, p\<lparr>p_mem := u\<rparr>))"

text \<open>An ioctl on one of the two structures: it is in memory at the argument, and the structure is what
  the memory has there afterwards.\<close>

definition sess_ioctl :: "'d ioctl_fun \<Rightarrow> addr \<Rightarrow> process \<Rightarrow> 'd \<Rightarrow> (int \<times> process \<times> 'd) option" where
  "sess_ioctl io arg p d = do {
     (r, u, d) \<leftarrow> io CIOCGSESSION arg ((p_mem p)\<lparr>um_session := (um_session (p_mem p))(arg \<mapsto> p_sess p)\<rparr>) d;
     x \<leftarrow> um_session u arg;
     Some (r, p\<lparr>p_mem := u, p_sess := x\<rparr>, d)
   }"

definition cryp_ioctl :: "'d ioctl_fun \<Rightarrow> addr \<Rightarrow> process \<Rightarrow> 'd \<Rightarrow> (int \<times> process \<times> 'd) option" where
  "cryp_ioctl io arg p d = do {
     (r, u, d) \<leftarrow> io CIOCCRYPT arg ((p_mem p)\<lparr>um_crypt := (um_crypt (p_mem p))(arg \<mapsto> p_cryp p)\<rparr>) d;
     c \<leftarrow> um_crypt u arg;
     Some (r, p\<lparr>p_mem := u, p_cryp := c\<rparr>, d)
   }"

definition test_session :: "'d ioctl_fun \<Rightarrow> test_layout \<Rightarrow> process \<Rightarrow> 'd \<Rightarrow> (int \<times> process \<times> 'd) option" where
  "test_session io L p d =
     sess_ioctl io (at_sess L)
       (p\<lparr>p_sess := (p_sess p)\<lparr>cipher := CRYPTO_AES_CBC, keylen := of_nat TEST_KEY_SIZE, key := array_at L off_key\<rparr>\<rparr>) d"

definition test_encrypt :: "'d ioctl_fun \<Rightarrow> test_layout \<Rightarrow> process \<Rightarrow> 'd \<Rightarrow> (int \<times> process \<times> 'd) option" where
  "test_encrypt io L p d =
     cryp_ioctl io (at_cryp L)
       (p\<lparr>p_cryp := (p_cryp p)\<lparr>op_ses := ses (p_sess p), op_len := of_nat TEST_DATA_SIZE, op_src := array_at L off_in,
          op_dst := array_at L off_encrypted, op_iv := array_at L off_iv, op_code := COP_ENCRYPT\<rparr>\<rparr>) d"

definition test_decrypt :: "'d ioctl_fun \<Rightarrow> test_layout \<Rightarrow> process \<Rightarrow> 'd \<Rightarrow> (int \<times> process \<times> 'd) option" where
  "test_decrypt io L p d =
     cryp_ioctl io (at_cryp L)
       (p\<lparr>p_cryp := (p_cryp p)\<lparr>op_src := array_at L off_encrypted, op_dst := array_at L off_decrypted,
          op_code := COP_DECRYPT\<rparr>\<rparr>) d"

text \<open>\<open>memcmp\<close> of the data and the decrypted data.\<close>

definition test_verify :: "test_layout \<Rightarrow> process \<Rightarrow> bool option" where
  "test_verify L p = do {
     a \<leftarrow> user_read (p_mem p) (array_at L off_in) TEST_DATA_SIZE;
     b \<leftarrow> user_read (p_mem p) (array_at L off_decrypted) TEST_DATA_SIZE;
     Some (a = b)
   }"

definition test_finish :: "'d ioctl_fun \<Rightarrow> test_layout \<Rightarrow> process \<Rightarrow> 'd \<Rightarrow> (int \<times> process \<times> 'd) option" where
  "test_finish io L p d = do {
     (r, u, d) \<leftarrow> io CIOCFSESSION (at_ses L) ((p_mem p)\<lparr>um_u32 := (um_u32 (p_mem p))(at_ses L \<mapsto> ses (p_sess p))\<rparr>) d;
     Some (r, p\<lparr>p_mem := u\<rparr>, d)
   }"

section \<open>test_crypto.c\<close>

definition test_crypto ::
  "'d ioctl_fun \<Rightarrow> test_layout \<Rightarrow> urandom \<Rightarrow> process \<Rightarrow> 'd \<Rightarrow> (int \<times> process \<times> 'd) option"
where
  "test_crypto io L R p d =
     (case test_start L R p of (r, p) \<Rightarrow>
        if r < 0 then Some (1, p, d)
        else do {
          (r, p, d) \<leftarrow> test_session io L p d;
          if r \<noteq> 0 then Some (1, p, d)
          else do {
            (r, p, d) \<leftarrow> test_encrypt io L p d;
            if r \<noteq> 0 then Some (1, p, d)
            else do {
              (r, p, d) \<leftarrow> test_decrypt io L p d;
              if r \<noteq> 0 then Some (1, p, d)
              else do {
                same \<leftarrow> test_verify L p;
                if \<not> same then Some (1, p, d)
                else do {
                  (r, p, d) \<leftarrow> test_finish io L p d;
                  if r \<noteq> 0 then Some (1, p, d) else Some (0, p, d)
                }
              }
            }
          }
        })"

text \<open>
  \<open>main\<close>: the file is opened with \<open>opn\<close>; \<open>closed\<close> is the result of \<open>close\<close>. The kernel releases the
  file at \<open>close\<close> or, on the error path, when the process exits.
\<close>

definition test_main ::
  "('d \<Rightarrow> (int \<times> 'd) option) \<Rightarrow> 'd ioctl_fun \<Rightarrow> ('d \<Rightarrow> 'd option) \<Rightarrow> test_layout \<Rightarrow> urandom \<Rightarrow> int \<Rightarrow> process \<Rightarrow> 'd
     \<Rightarrow> (int \<times> process \<times> 'd) option"
where
  "test_main opn io release L R closed p d = do {
     (fd, d) \<leftarrow> opn d;
     if fd < 0 then Some (1, p, d)
     else do {
       (r, p, d) \<leftarrow> test_crypto io L R p d;
       d \<leftarrow> release d;
       if r \<noteq> 0 then Some (1, p, d)
       else if closed \<noteq> 0 then Some (1, p, d)
       else Some (0, p, d)
     }
   }"

section \<open>Memory\<close>

definition mapped :: "user_mem \<Rightarrow> addr \<Rightarrow> nat \<Rightarrow> bool" where
  "mapped u a n \<longleftrightarrow> (\<forall>i < n. um_bytes u (a + of_nat i) \<noteq> None)"

lemma mapped_read:
  assumes "mapped u a n"
  obtains bs where "user_read u a n = Some bs" "length bs = n"
proof -
  let ?bs = "map (\<lambda>i. the (um_bytes u (a + of_nat i))) [0..<n]"
  have "um_bytes u (a + of_nat i) = Some (?bs ! i)" if "i < length ?bs" for i
    using assms that by (auto simp: mapped_def)
  then have "user_read u a (length ?bs) = Some ?bs" by (rule user_read_bytes)
  then show thesis using that [of ?bs] by simp
qed

lemma user_write_place: "user_write u a bs = (if mapped u a (length bs) then Some (place_bytes a bs u) else None)"
  by (auto simp: user_write_def place_bytes_def mapped_def list_all_iff)

lemma user_read_place: "length bs < 2 ^ 64 \<Longrightarrow> user_read (place_bytes a bs u) a (length bs) = Some bs"
  using user_read_bytes [of bs "place_bytes a bs u" a] place_bytes_at [of _ bs a u] by blast

lemma user_read_cong:
  "(\<And>i. i < n \<Longrightarrow> um_bytes u (a + of_nat i) = um_bytes u' (a + of_nat i)) \<Longrightarrow> user_read u a n = user_read u' a n"
  unfolding user_read_def by (intro arg_cong [where f = those] map_cong) auto

lemma mapped_place: "mapped u a n \<Longrightarrow> mapped (place_bytes b bs u) a n"
  by (simp add: mapped_def place_bytes_mapped)

lemma mapped_cong: "um_bytes u' = um_bytes u \<Longrightarrow> mapped u' a n = mapped u a n"
  by (simp add: mapped_def)

text \<open>The arrays of the structure do not overlap, wherever it lies.\<close>

lemma arrays_apart:
  assumes "o1 + n \<le> o2 \<or> o2 + m \<le> o1" "o1 + n < 2 ^ 64" "o2 + m < 2 ^ 64" "i < n" "j < m"
  shows "array_at L o1 + of_nat i \<noteq> array_at L o2 + of_nat j"
proof
  assume "array_at L o1 + of_nat i = array_at L o2 + of_nat j"
  then have "at_struct L + of_nat (o1 + i) = at_struct L + of_nat (o2 + j)" by (simp add: array_at_def add.assoc)
  then have "o1 + i = o2 + j" by (rule offset_inj [rotated 2]) (use assms in simp_all)
  then show False using assms by linarith
qed

lemma user_read_apart:
  assumes "o1 + n \<le> o2 \<or> o2 + length bs \<le> o1" "o1 + n < 2 ^ 64" "o2 + length bs < 2 ^ 64"
  shows "user_read (place_bytes (array_at L o2) bs u) (array_at L o1) n = user_read u (array_at L o1) n"
  by (rule user_read_cong, rule place_bytes_other) (use arrays_apart [OF assms] in metis)

lemma mapped_array:
  assumes "mapped u (at_struct L) struct_size" "off + n \<le> struct_size"
  shows "mapped u (array_at L off) n"
  unfolding mapped_def
proof (intro allI impI)
  fix i
  assume "i < n"
  then have "off + i < struct_size" using assms(2) by simp
  then have "um_bytes u (at_struct L + of_nat (off + i)) \<noteq> None" using assms(1) unfolding mapped_def by blast
  then show "um_bytes u (array_at L off + of_nat i) \<noteq> None" by (simp add: array_at_def add.assoc)
qed

section \<open>The stages of the test\<close>

text \<open>What holds of a process with a session of key \<open>k\<close>, after the encryption and after the decryption.\<close>

definition keyed :: "test_layout \<Rightarrow> u8 list \<Rightarrow> process \<Rightarrow> bool" where
  "keyed L k p \<longleftrightarrow> mapped (p_mem p) (at_struct L) struct_size
     \<and> user_read (p_mem p) (array_at L off_key) TEST_KEY_SIZE = Some k"

definition encrypted ::
  "(u8 list \<Rightarrow> u8 list \<Rightarrow> u8 list \<Rightarrow> u8 list) \<Rightarrow> test_layout \<Rightarrow> u8 list \<Rightarrow> process \<Rightarrow> bool"
where
  "encrypted E L k p \<longleftrightarrow> keyed L k p
     \<and> (\<exists>v x. user_read (p_mem p) (array_at L off_iv) TEST_BLOCK_SIZE = Some v
          \<and> user_read (p_mem p) (array_at L off_in) TEST_DATA_SIZE = Some x
          \<and> user_read (p_mem p) (array_at L off_encrypted) TEST_DATA_SIZE = Some (E k v x))"

definition decrypted ::
  "(u8 list \<Rightarrow> u8 list \<Rightarrow> u8 list \<Rightarrow> u8 list) \<Rightarrow> test_layout \<Rightarrow> u8 list \<Rightarrow> process \<Rightarrow> bool"
where
  "decrypted E L k p \<longleftrightarrow> encrypted E L k p
     \<and> user_read (p_mem p) (array_at L off_decrypted) TEST_DATA_SIZE = user_read (p_mem p) (array_at L off_in) TEST_DATA_SIZE"

text \<open>The structure of the operation as \<open>test_encrypt\<close> leaves it.\<close>

definition op_set :: "test_layout \<Rightarrow> process \<Rightarrow> bool" where
  "op_set L p \<longleftrightarrow> op_ses (p_cryp p) = ses (p_sess p) \<and> op_len (p_cryp p) = of_nat TEST_DATA_SIZE
     \<and> op_iv (p_cryp p) = array_at L off_iv"

lemmas offsets = off_in_def off_encrypted_def off_decrypted_def off_iv_def off_key_def struct_size_def
  TEST_DATA_SIZE_def TEST_BLOCK_SIZE_def TEST_KEY_SIZE_def

text \<open>A write to the second or third array leaves the others alone.\<close>

lemma write_apart:
  assumes "length bs = TEST_DATA_SIZE" "o2 = off_encrypted \<or> o2 = off_decrypted"
  shows "user_read (place_bytes (array_at L o2) bs u) (array_at L off_key) TEST_KEY_SIZE = user_read u (array_at L off_key) TEST_KEY_SIZE"
    "user_read (place_bytes (array_at L o2) bs u) (array_at L off_iv) TEST_BLOCK_SIZE = user_read u (array_at L off_iv) TEST_BLOCK_SIZE"
    "user_read (place_bytes (array_at L o2) bs u) (array_at L off_in) TEST_DATA_SIZE = user_read u (array_at L off_in) TEST_DATA_SIZE"
    "user_read (place_bytes (array_at L o2) bs u) (array_at L o2) TEST_DATA_SIZE = Some bs"
    "o2 = off_decrypted \<Longrightarrow> user_read (place_bytes (array_at L o2) bs u) (array_at L off_encrypted) TEST_DATA_SIZE =
       user_read u (array_at L off_encrypted) TEST_DATA_SIZE"
proof -
  show "user_read (place_bytes (array_at L o2) bs u) (array_at L o2) TEST_DATA_SIZE = Some bs"
    using user_read_place [of bs "array_at L o2" u] assms(1) by (simp add: TEST_DATA_SIZE_def)
qed (rule user_read_apart; use assms in \<open>auto simp: offsets\<close>)+

lemma keyed_cong: "um_bytes (p_mem p') = um_bytes (p_mem p) \<Longrightarrow> keyed L k p' = keyed L k p"
proof -
  assume b: "um_bytes (p_mem p') = um_bytes (p_mem p)"
  then have "user_read (p_mem p') a n = user_read (p_mem p) a n" for a n by (intro user_read_cong) simp
  then show ?thesis by (simp add: keyed_def mapped_cong [OF b])
qed

section \<open>The contract of the device\<close>

text \<open>
  What the tests need of an open \<open>/dev/crypto\<close>: an AES session can be opened while there is room, and
  has an id that is not in use; operations of an open session encrypt and decrypt the caller's bytes
  in the caller's memory, and touch no session; closing removes just the session. \<open>kept\<close> is what a
  call of a command leaves allocated behind the device.
\<close>

locale session_device =
  fixes io :: "'d ioctl_fun"
    and good :: "'d \<Rightarrow> bool"
    and keys :: "'d \<Rightarrow> u32 \<rightharpoonup> u8 list"
    and room :: "'d \<Rightarrow> nat"
    and held :: "'d \<Rightarrow> 'm multiset"
    and kept :: "u32 \<Rightarrow> 'm multiset"
    and E D :: "u8 list \<Rightarrow> u8 list \<Rightarrow> u8 list \<Rightarrow> u8 list"
  assumes opens: "good d \<Longrightarrow> 0 < room d \<Longrightarrow> um_session u arg = Some x \<Longrightarrow> cipher x = CRYPTO_AES_CBC \<Longrightarrow>
      user_read u (key x) (unat (keylen x)) = Some k \<Longrightarrow> length k \<in> {16, 24, 32} \<Longrightarrow>
      \<exists>x' d'. io CIOCGSESSION arg u d = Some (0, u\<lparr>um_session := (um_session u)(arg \<mapsto> x')\<rparr>, d') \<and> good d'
        \<and> keys d (ses x') = None \<and> keys d' = (keys d)(ses x' \<mapsto> k) \<and> room d \<le> Suc (room d')
        \<and> held d' = kept CIOCGSESSION + held d"
    and crypts: "good d \<Longrightarrow> um_crypt u arg = Some c \<Longrightarrow> keys d (op_ses c) = Some k \<Longrightarrow> 0 < sint (op_len c) \<Longrightarrow>
      16 dvd unat (op_len c) \<Longrightarrow> user_read u (op_src c) (unat (op_len c)) = Some src \<Longrightarrow>
      user_read u (op_iv c) 16 = Some iv \<Longrightarrow> mapped u (op_dst c) (unat (op_len c)) \<Longrightarrow>
      op_code c = COP_ENCRYPT \<or> op_code c = COP_DECRYPT \<Longrightarrow>
      \<exists>d'. io CIOCCRYPT arg u d =
          Some (0, place_bytes (op_dst c) (if op_code c = COP_ENCRYPT then E k iv src else D k iv src) u, d') \<and> good d'
        \<and> keys d' = keys d \<and> room d \<le> room d' \<and> held d' = kept CIOCCRYPT + held d"
    and closes: "good d \<Longrightarrow> um_u32 u arg = Some i \<Longrightarrow> keys d i \<noteq> None \<Longrightarrow>
      \<exists>d'. io CIOCFSESSION arg u d = Some (0, u, d') \<and> good d' \<and> keys d' = (keys d)(i := None)
        \<and> room d \<le> room d' \<and> held d' = kept CIOCFSESSION + held d"
    and cipher: "good d \<Longrightarrow> 16 dvd length b \<Longrightarrow> length (E k iv b) = length b \<and> D k iv (E k iv b) = b"
begin

text \<open>The parts of the test, each on a process whose structure is mapped. The caller's memory changes
  only in the destination.\<close>

lemma session_part:
  assumes "good d" "0 < room d" "mapped (p_mem p) (at_struct L) struct_size"
  shows "\<exists>p' d' k. test_session io L p d = Some (0, p', d') \<and> good d'
    \<and> um_bytes (p_mem p') = um_bytes (p_mem p) \<and> p_cryp p' = p_cryp p \<and> length k = 24
    \<and> user_read (p_mem p) (array_at L off_key) 24 = Some k
    \<and> keys d (ses (p_sess p')) = None \<and> keys d' = (keys d)(ses (p_sess p') \<mapsto> k) \<and> room d \<le> Suc (room d')
    \<and> held d' = kept CIOCGSESSION + held d"
proof -
  let ?x = "(p_sess p)\<lparr>cipher := CRYPTO_AES_CBC, keylen := of_nat TEST_KEY_SIZE, key := array_at L off_key\<rparr>"
  let ?u = "(p_mem p)\<lparr>um_session := (um_session (p_mem p))(at_sess L \<mapsto> ?x)\<rparr>"
  have "mapped (p_mem p) (array_at L off_key) 24"
    using assms(3) by (rule mapped_array) (simp add: off_key_def struct_size_def TEST_KEY_SIZE_def)
  then obtain k where k: "user_read (p_mem p) (array_at L off_key) 24 = Some k" "length k = 24" by (rule mapped_read)
  have "user_read ?u (array_at L off_key) 24 = Some k"
    using k(1) user_read_cong [of 24 ?u _ "p_mem p"] by simp
  then have r: "user_read ?u (key ?x) (unat (keylen ?x)) = Some k" by (simp add: TEST_KEY_SIZE_def)
  have l: "length k \<in> {16, 24, 32}" using k(2) by simp
  have x: "um_session ?u (at_sess L) = Some ?x" "cipher ?x = CRYPTO_AES_CBC" by simp_all
  obtain x' d' where "io CIOCGSESSION (at_sess L) ?u d = Some (0, ?u\<lparr>um_session := (um_session ?u)(at_sess L \<mapsto> x')\<rparr>, d')"
    "good d'" "keys d (ses x') = None" "keys d' = (keys d)(ses x' \<mapsto> k)" "room d \<le> Suc (room d')"
    "held d' = kept CIOCGSESSION + held d"
    using opens [OF assms(1,2) x r l] by blast
  then show ?thesis using k by (simp add: test_session_def sess_ioctl_def)
qed

text \<open>An operation on two of the arrays.\<close>

lemma crypt_part:
  assumes "good d" "keys d (ses (p_sess p)) = Some k" "mapped (p_mem p) (at_struct L) struct_size"
    and c: "op_ses c = ses (p_sess p)" "op_len c = of_nat TEST_DATA_SIZE" "op_src c = array_at L o1"
      "op_dst c = array_at L o2" "op_iv c = array_at L off_iv" "op_code c = COP_ENCRYPT \<or> op_code c = COP_DECRYPT"
    and "user_read (p_mem p) (array_at L o1) TEST_DATA_SIZE = Some src"
    and "user_read (p_mem p) (array_at L off_iv) 16 = Some iv" "o2 + TEST_DATA_SIZE \<le> struct_size"
  shows "\<exists>p' d'. cryp_ioctl io arg (p\<lparr>p_cryp := c\<rparr>) d = Some (0, p', d') \<and> good d' \<and> p_sess p' = p_sess p \<and> p_cryp p' = c
    \<and> um_bytes (p_mem p') = um_bytes (place_bytes (array_at L o2) (if op_code c = COP_ENCRYPT then E k iv src else D k iv src) (p_mem p))
    \<and> keys d' = keys d \<and> room d \<le> room d' \<and> held d' = kept CIOCCRYPT + held d"
proof -
  let ?u = "(p_mem p)\<lparr>um_crypt := (um_crypt (p_mem p))(arg \<mapsto> c)\<rparr>"
  let ?out = "if op_code c = COP_ENCRYPT then E k iv src else D k iv src"
  have b: "um_bytes ?u = um_bytes (p_mem p)" by simp
  have len: "unat (op_len c) = TEST_DATA_SIZE" "0 < sint (op_len c)" "16 dvd unat (op_len c)"
    by (simp_all add: c TEST_DATA_SIZE_def)
  have rd: "user_read ?u a n = user_read (p_mem p) a n" for a n by (rule user_read_cong) simp
  have m: "mapped ?u (op_dst c) (unat (op_len c))"
    unfolding mapped_cong [OF b] c(4) len(1) using assms(3,12) by (rule mapped_array)
  have r: "um_crypt ?u arg = Some c" "keys d (op_ses c) = Some k"
    "user_read ?u (op_src c) (unat (op_len c)) = Some src" "user_read ?u (op_iv c) 16 = Some iv"
    unfolding rd len(1) c(1,3,5) by (use assms(2,10,11) in simp_all)
  obtain d' where d': "io CIOCCRYPT arg ?u d = Some (0, place_bytes (op_dst c) ?out ?u, d')" "good d'" "keys d' = keys d"
    "room d \<le> room d'" "held d' = kept CIOCCRYPT + held d"
    using crypts [OF assms(1) r(1,2) len(2,3) r(3,4) m c(6)] by blast
  have "um_crypt (place_bytes (op_dst c) ?out ?u) = um_crypt ?u" by (simp add: place_bytes_def)
  moreover have "um_bytes (place_bytes (op_dst c) ?out ?u) = um_bytes (place_bytes (array_at L o2) ?out (p_mem p))"
    by (simp add: place_bytes_def c)
  ultimately show ?thesis using d' by (simp add: cryp_ioctl_def)
qed

lemma encrypt_part:
  assumes "good d" "keys d (ses (p_sess p)) = Some k" "keyed L k p"
  shows "\<exists>p' d'. test_encrypt io L p d = Some (0, p', d') \<and> good d' \<and> p_sess p' = p_sess p \<and> op_set L p'
    \<and> encrypted E L k p' \<and> keys d' = keys d \<and> room d \<le> room d' \<and> held d' = kept CIOCCRYPT + held d"
proof -
  have m: "mapped (p_mem p) (at_struct L) struct_size" using assms(3) by (simp add: keyed_def)
  have "mapped (p_mem p) (array_at L off_in) TEST_DATA_SIZE" "mapped (p_mem p) (array_at L off_iv) TEST_BLOCK_SIZE"
    by (rule mapped_array [OF m]; simp add: offsets)+
  then obtain x v where x: "user_read (p_mem p) (array_at L off_in) TEST_DATA_SIZE = Some x" "length x = TEST_DATA_SIZE"
    and v: "user_read (p_mem p) (array_at L off_iv) TEST_BLOCK_SIZE = Some v"
    by (meson mapped_read)
  let ?c = "(p_cryp p)\<lparr>op_ses := ses (p_sess p), op_len := of_nat TEST_DATA_SIZE, op_src := array_at L off_in,
          op_dst := array_at L off_encrypted, op_iv := array_at L off_iv, op_code := COP_ENCRYPT\<rparr>"
  have "user_read (p_mem p) (array_at L off_iv) 16 = Some v" using v by (simp add: TEST_BLOCK_SIZE_def)
  then have "\<exists>p' d'. cryp_ioctl io (at_cryp L) (p\<lparr>p_cryp := ?c\<rparr>) d = Some (0, p', d') \<and> good d' \<and> p_sess p' = p_sess p
      \<and> p_cryp p' = ?c \<and> um_bytes (p_mem p') = um_bytes (place_bytes (array_at L off_encrypted)
          (if op_code ?c = COP_ENCRYPT then E k v x else D k v x) (p_mem p))
      \<and> keys d' = keys d \<and> room d \<le> room d' \<and> held d' = kept CIOCCRYPT + held d"
    using x by (intro crypt_part [OF assms(1,2) m, where ?o1.0 = off_in]) (simp_all add: offsets)
  then obtain p' d' where run: "cryp_ioctl io (at_cryp L) (p\<lparr>p_cryp := ?c\<rparr>) d = Some (0, p', d')" "good d'"
    "p_sess p' = p_sess p" "p_cryp p' = ?c"
    "um_bytes (p_mem p') = um_bytes (place_bytes (array_at L off_encrypted) (E k v x) (p_mem p))"
    "keys d' = keys d" "room d \<le> room d'" "held d' = kept CIOCCRYPT + held d"
    by auto
  let ?u = "place_bytes (array_at L off_encrypted) (E k v x) (p_mem p)"
  have len: "length (E k v x) = TEST_DATA_SIZE" using cipher [OF assms(1), of x] x(2) by (simp add: TEST_DATA_SIZE_def)
  have rd: "user_read (p_mem p') a n = user_read ?u a n" for a n by (rule user_read_cong) (simp add: run(5))
  have "encrypted E L k p'"
    using assms(3) x v mapped_cong [OF run(5)] mapped_place [OF m]
    by (simp add: encrypted_def keyed_def rd write_apart [OF len])
  then show ?thesis using run by (simp add: test_encrypt_def op_set_def)
qed

lemma decrypt_part:
  assumes "good d" "keys d (ses (p_sess p)) = Some k" "encrypted E L k p" "op_set L p"
  shows "\<exists>p' d'. test_decrypt io L p d = Some (0, p', d') \<and> good d' \<and> p_sess p' = p_sess p
    \<and> decrypted E L k p' \<and> keys d' = keys d \<and> room d \<le> room d' \<and> held d' = kept CIOCCRYPT + held d"
proof -
  have m: "mapped (p_mem p) (at_struct L) struct_size" using assms(3) by (simp add: encrypted_def keyed_def)
  obtain v x where e: "user_read (p_mem p) (array_at L off_iv) TEST_BLOCK_SIZE = Some v"
    "user_read (p_mem p) (array_at L off_in) TEST_DATA_SIZE = Some x"
    "user_read (p_mem p) (array_at L off_encrypted) TEST_DATA_SIZE = Some (E k v x)"
    using assms(3) by (auto simp: encrypted_def)
  have "length x = TEST_DATA_SIZE" using length_user_read [OF e(2)] .
  then have c: "16 dvd length x" by (simp add: TEST_DATA_SIZE_def)
  let ?c = "(p_cryp p)\<lparr>op_src := array_at L off_encrypted, op_dst := array_at L off_decrypted, op_code := COP_DECRYPT\<rparr>"
  have code: "COP_DECRYPT \<noteq> COP_ENCRYPT" by (simp add: COP_DECRYPT_def COP_ENCRYPT_def)
  have "user_read (p_mem p) (array_at L off_iv) 16 = Some v" using e(1) by (simp add: TEST_BLOCK_SIZE_def)
  then have "\<exists>p' d'. cryp_ioctl io (at_cryp L) (p\<lparr>p_cryp := ?c\<rparr>) d = Some (0, p', d') \<and> good d' \<and> p_sess p' = p_sess p
      \<and> p_cryp p' = ?c \<and> um_bytes (p_mem p') = um_bytes (place_bytes (array_at L off_decrypted)
          (if op_code ?c = COP_ENCRYPT then E k v (E k v x) else D k v (E k v x)) (p_mem p))
      \<and> keys d' = keys d \<and> room d \<le> room d' \<and> held d' = kept CIOCCRYPT + held d"
    using e(3) assms(4) by (intro crypt_part [OF assms(1,2) m, where ?o1.0 = off_encrypted]) (simp_all add: op_set_def, simp add: offsets)
  then obtain p' d' where run: "cryp_ioctl io (at_cryp L) (p\<lparr>p_cryp := ?c\<rparr>) d = Some (0, p', d')" "good d'"
    "p_sess p' = p_sess p"
    "um_bytes (p_mem p') = um_bytes (place_bytes (array_at L off_decrypted) x (p_mem p))"
    "keys d' = keys d" "room d \<le> room d'" "held d' = kept CIOCCRYPT + held d"
    using code cipher [OF assms(1) c] by auto
  let ?u = "place_bytes (array_at L off_decrypted) x (p_mem p)"
  have rd: "user_read (p_mem p') a n = user_read ?u a n" for a n by (rule user_read_cong) (simp add: run(4))
  have "decrypted E L k p'"
    using assms(3) e mapped_cong [OF run(4)] mapped_place [OF m]
    by (simp add: decrypted_def encrypted_def keyed_def rd write_apart [OF \<open>length x = TEST_DATA_SIZE\<close>])
  then show ?thesis using run by (simp add: test_decrypt_def)
qed

lemma finish_part:
  assumes "good d" "keys d (ses (p_sess p)) \<noteq> None" "decrypted E L k p"
  shows "test_verify L p = Some True"
    "\<exists>p' d'. test_finish io L p d = Some (0, p', d') \<and> good d' \<and> decrypted E L k p' \<and> p_sess p' = p_sess p
      \<and> keys d' = (keys d)(ses (p_sess p) := None) \<and> room d \<le> room d' \<and> held d' = kept CIOCFSESSION + held d"
proof -
  show "test_verify L p = Some True"
    using assms(3) by (auto simp: test_verify_def decrypted_def encrypted_def)
  let ?u = "(p_mem p)\<lparr>um_u32 := (um_u32 (p_mem p))(at_ses L \<mapsto> ses (p_sess p))\<rparr>"
  have "um_u32 ?u (at_ses L) = Some (ses (p_sess p))" by simp
  then obtain d' where d': "io CIOCFSESSION (at_ses L) ?u d = Some (0, ?u, d')" "good d'"
    "keys d' = (keys d)(ses (p_sess p) := None)" "room d \<le> room d'" "held d' = kept CIOCFSESSION + held d"
    using closes [OF assms(1) _ assms(2)] by blast
  have rd: "user_read ?u a n = user_read (p_mem p) a n" for a n by (rule user_read_cong) simp
  have "decrypted E L k (p\<lparr>p_mem := ?u\<rparr>)"
    using assms(3) by (simp add: decrypted_def encrypted_def keyed_def rd mapped_def)
  then show "\<exists>p' d'. test_finish io L p d = Some (0, p', d') \<and> good d' \<and> decrypted E L k p' \<and> p_sess p' = p_sess p
      \<and> keys d' = (keys d)(ses (p_sess p) := None) \<and> room d \<le> room d' \<and> held d' = kept CIOCFSESSION + held d"
    using d' by (simp add: test_finish_def)
qed

lemma session_keyed:
  assumes "good d" "0 < room d" "mapped (p_mem p) (at_struct L) struct_size"
  shows "\<exists>p' d' k. test_session io L p d = Some (0, p', d') \<and> good d' \<and> keyed L k p' \<and> length k = 24
    \<and> um_bytes (p_mem p') = um_bytes (p_mem p)
    \<and> keys d (ses (p_sess p')) = None \<and> keys d' = (keys d)(ses (p_sess p') \<mapsto> k) \<and> room d \<le> Suc (room d')
    \<and> held d' = kept CIOCGSESSION + held d"
proof -
  obtain p' d' k where r: "test_session io L p d = Some (0, p', d')" "good d'" "length k = 24"
    "um_bytes (p_mem p') = um_bytes (p_mem p)" "user_read (p_mem p) (array_at L off_key) 24 = Some k"
    "keys d (ses (p_sess p')) = None" "keys d' = (keys d)(ses (p_sess p') \<mapsto> k)" "room d \<le> Suc (room d')"
    "held d' = kept CIOCGSESSION + held d"
    using session_part [OF assms] by blast
  have "keyed L k p" using assms(3) r(5) by (simp add: keyed_def TEST_KEY_SIZE_def)
  then have "keyed L k p'" by (simp only: keyed_cong [OF r(4)])
  then show ?thesis using r by blast
qed

text \<open>A read of \<open>/dev/urandom\<close> keeps the structure mapped.\<close>

lemma start_part:
  assumes "0 \<le> ur_open R" "ur_read R = Some bs" "mapped (p_mem p) (at_struct L) struct_size"
  shows "\<exists>p'. test_start L R p = (int (length (take TEST_DATA_SIZE bs)), p')
    \<and> p_mem p' = place_bytes (array_at L off_in) (take TEST_DATA_SIZE bs) (p_mem p)
    \<and> mapped (p_mem p') (at_struct L) struct_size"
  using assms mapped_place [OF assms(3)] by (simp add: test_start_def fill_urandom_buff_def)

text \<open>The whole test, without interference.\<close>

lemma test_passes:
  assumes "good d" "0 < room d" "mapped (p_mem p) (at_struct L) struct_size" "0 \<le> ur_open R" "ur_read R = Some bs"
  shows "\<exists>p' d' k. test_crypto io L R p d = Some (0, p', d') \<and> good d' \<and> decrypted E L k p' \<and> length k = 24
    \<and> keys d' = keys d
    \<and> held d' = kept CIOCFSESSION + kept CIOCCRYPT + kept CIOCCRYPT + kept CIOCGSESSION + held d"
proof -
  obtain p0 where start: "test_start L R p = (int (length (take TEST_DATA_SIZE bs)), p0)"
    "mapped (p_mem p0) (at_struct L) struct_size"
    using start_part [OF assms(4,5,3)] by blast
  obtain p1 d1 k where s: "test_session io L p0 d = Some (0, p1, d1)" "good d1" "keyed L k p1" "length k = 24"
    "keys d (ses (p_sess p1)) = None" "keys d1 = (keys d)(ses (p_sess p1) \<mapsto> k)"
    "held d1 = kept CIOCGSESSION + held d"
    using session_keyed [OF assms(1,2) start(2)] by blast
  have k1: "keys d1 (ses (p_sess p1)) = Some k" by (simp add: s(6))
  obtain p2 d2 where e: "test_encrypt io L p1 d1 = Some (0, p2, d2)" "good d2" "p_sess p2 = p_sess p1" "op_set L p2"
    "encrypted E L k p2" "keys d2 = keys d1" "held d2 = kept CIOCCRYPT + held d1"
    using encrypt_part [OF s(2) k1 s(3)] by blast
  have k2: "keys d2 (ses (p_sess p2)) = Some k" by (simp add: e(3,6) k1)
  obtain p3 d3 where c: "test_decrypt io L p2 d2 = Some (0, p3, d3)" "good d3" "p_sess p3 = p_sess p2"
    "decrypted E L k p3" "keys d3 = keys d2" "held d3 = kept CIOCCRYPT + held d2"
    using decrypt_part [OF e(2) k2 e(5,4)] by blast
  have k3: "keys d3 (ses (p_sess p3)) \<noteq> None" by (simp add: c(3,5) k2)
  obtain p4 d4 where f: "test_finish io L p3 d3 = Some (0, p4, d4)" "good d4" "decrypted E L k p4"
    "keys d4 = (keys d3)(ses (p_sess p3) := None)" "held d4 = kept CIOCFSESSION + held d3"
    using finish_part(2) [OF c(2) k3 c(4)] by blast
  have "keys d4 = keys d" using s(5,6) by (simp add: f(4) c(3,5) e(3,6) fun_upd_idem)
  moreover have "test_crypto io L R p d = Some (0, p4, d4)"
    unfolding test_crypto_def using start(1) s(1) e(1) c(1) f(1) finish_part(1) [OF c(2) k3 c(4)] by simp
  ultimately show ?thesis using f(2,3) s(4) by (auto simp: f(5) c(6) e(7) s(7) add.assoc)
qed

end

end
