(* ===== verification/CryptoFork.thy ===== *)
theory CryptoFork
  imports CryptoTest
begin

text \<open>
  \<open>guest/test_fork_crypto.c\<close>: after \<open>fork\<close> two processes run the test at the same time on one open
  file. A step is a system call of one of them; the steps of both interleave in any order. What the
  reasoning needs is, for every place in the program, an assertion on the process that a step of the
  other process does not disturb.
\<close>

section \<open>State and steps\<close>

datatype who = Parent | Child

fun other :: "who \<Rightarrow> who" where
  "other Parent = Child"
| "other Child = Parent"

datatype test_pc =
    T_start
  | T_session
  | T_encrypt
  | T_decrypt
  | T_finish
  | T_close
  | T_wait
  | T_done int

text \<open>One process; \<open>closed\<close> is the result of its \<open>close\<close>. Waiting and having exited are no steps of
  its own.\<close>

fun proc_step ::
  "'d ioctl_fun \<Rightarrow> test_layout \<Rightarrow> urandom \<Rightarrow> int \<Rightarrow> bool \<Rightarrow> test_pc \<Rightarrow> process \<Rightarrow> 'd \<Rightarrow> (test_pc \<times> process \<times> 'd) option"
where
  "proc_step io L R closed parent T_start p d =
     (case test_start L R p of (r, p) \<Rightarrow> Some (if r < 0 then T_done 1 else T_session, p, d))"
| "proc_step io L R closed parent T_session p d = do {
     (r, p, d) \<leftarrow> test_session io L p d;
     Some (if r \<noteq> 0 then T_done 1 else T_encrypt, p, d)
   }"
| "proc_step io L R closed parent T_encrypt p d = do {
     (r, p, d) \<leftarrow> test_encrypt io L p d;
     Some (if r \<noteq> 0 then T_done 1 else T_decrypt, p, d)
   }"
| "proc_step io L R closed parent T_decrypt p d = do {
     (r, p, d) \<leftarrow> test_decrypt io L p d;
     if r \<noteq> 0 then Some (T_done 1, p, d)
     else do {
       same \<leftarrow> test_verify L p;
       Some (if \<not> same then T_done 1 else T_finish, p, d)
     }
   }"
| "proc_step io L R closed parent T_finish p d = do {
     (r, p, d) \<leftarrow> test_finish io L p d;
     Some (if r \<noteq> 0 then T_done 1 else T_close, p, d)
   }"
| "proc_step io L R closed parent T_close p d =
     Some (if closed \<noteq> 0 then T_done 1 else if parent then T_wait else T_done 0, p, d)"
| "proc_step io L R closed parent T_wait p d = None"
| "proc_step io L R closed parent (T_done r) p d = None"

record 'd forked =
  pcs :: "who \<Rightarrow> test_pc"
  procs :: "who \<Rightarrow> process"
  shared :: 'd

text \<open>A process holds the open file until it closes it or exits; the kernel releases the file with
  the last holder.\<close>

definition holds :: "test_pc \<Rightarrow> bool" where
  "holds pc \<longleftrightarrow> (case pc of T_wait \<Rightarrow> False | T_done _ \<Rightarrow> False | _ \<Rightarrow> True)"

definition put_file :: "('d \<Rightarrow> 'd option) \<Rightarrow> 'd forked \<Rightarrow> who \<Rightarrow> test_pc \<Rightarrow> 'd \<Rightarrow> 'd option" where
  "put_file release s w pc' d = (if \<not> holds pc' \<and> \<not> holds (pcs s (other w)) then release d else Some d)"

inductive fork_step ::
  "'d ioctl_fun \<Rightarrow> ('d \<Rightarrow> 'd option) \<Rightarrow> test_layout \<Rightarrow> (who \<Rightarrow> urandom) \<Rightarrow> int \<Rightarrow> 'd forked \<Rightarrow> 'd forked \<Rightarrow> bool"
  for io release L R closed
where
  run: "proc_step io L (R w) closed (w = Parent) (pcs s w) (procs s w) (shared s) = Some (pc', p', d1) \<Longrightarrow>
      put_file release s w pc' d1 = Some d2 \<Longrightarrow>
      fork_step io release L R closed s
        (s\<lparr>pcs := (pcs s)(w := pc'), procs := (procs s)(w := p'), shared := d2\<rparr>)"
| wait: "pcs s Parent = T_wait \<Longrightarrow> pcs s Child = T_done r \<Longrightarrow>
      fork_step io release L R closed s (s\<lparr>pcs := (pcs s)(Parent := T_done 0)\<rparr>)"

text \<open>
  \<open>main\<close> up to the fork, with the result of \<open>fork\<close>: the exit status, or the two processes, which have
  the same memory.
\<close>

definition forked_state :: "process \<Rightarrow> 'd \<Rightarrow> 'd forked" where
  "forked_state p d = \<lparr>pcs = (\<lambda>_. T_start), procs = (\<lambda>_. p), shared = d\<rparr>"

definition fork_main ::
  "('d \<Rightarrow> (int \<times> 'd) option) \<Rightarrow> ('d \<Rightarrow> 'd option) \<Rightarrow> int \<Rightarrow> process \<Rightarrow> 'd \<Rightarrow> (int + 'd forked) option"
where
  "fork_main opn release pid p d = do {
     (fd, d) \<leftarrow> opn d;
     if fd < 0 then Some (Inl 1)
     else if pid < 0 then do { d \<leftarrow> release d; Some (Inl (-1)) }
     else Some (Inr (forked_state p d))
   }"

text \<open>A process that runs alone, for at most so many steps of its own.\<close>

fun run_alone ::
  "'d ioctl_fun \<Rightarrow> test_layout \<Rightarrow> urandom \<Rightarrow> int \<Rightarrow> bool \<Rightarrow> nat \<Rightarrow> test_pc \<Rightarrow> process \<Rightarrow> 'd \<Rightarrow> (test_pc \<times> process \<times> 'd) option"
where
  "run_alone io L R closed parent 0 pc p d = Some (pc, p, d)"
| "run_alone io L R closed parent (Suc n) pc p d =
     (if pc = T_wait \<or> (\<exists>r. pc = T_done r) then Some (pc, p, d)
      else do {
        (pc, p, d) \<leftarrow> proc_step io L R closed parent pc p d;
        run_alone io L R closed parent n pc p d
      })"

lemma run_alone_stays [simp]:
  "run_alone io L R closed parent n T_wait p d = Some (T_wait, p, d)"
  "run_alone io L R closed parent n (T_done r) p d = Some (T_done r, p, d)"
  by (cases n; simp)+






section \<open>Assertions\<close>

text \<open>The session a process has open, and what is true of it, with the sessions \<open>m\<close> of the device.\<close>

definition own :: "test_pc \<Rightarrow> process \<Rightarrow> u32 set" where
  "own pc p = (if pc \<in> {T_encrypt, T_decrypt, T_finish} then {ses (p_sess p)} else {})"

fun stage ::
  "(u8 list \<Rightarrow> u8 list \<Rightarrow> u8 list \<Rightarrow> u8 list) \<Rightarrow> test_layout \<Rightarrow> (u32 \<rightharpoonup> u8 list) \<Rightarrow> test_pc \<Rightarrow> process \<Rightarrow> bool"
where
  "stage E L m T_start p = mapped (p_mem p) (at_struct L) struct_size"
| "stage E L m T_session p = mapped (p_mem p) (at_struct L) struct_size"
| "stage E L m T_encrypt p = (\<exists>k. m (ses (p_sess p)) = Some k \<and> keyed L k p)"
| "stage E L m T_decrypt p = (\<exists>k. m (ses (p_sess p)) = Some k \<and> encrypted E L k p \<and> op_set L p)"
| "stage E L m T_finish p = (\<exists>k. m (ses (p_sess p)) = Some k \<and> decrypted E L k p)"
| "stage E L m T_close p = (\<exists>k. decrypted E L k p)"
| "stage E L m T_wait p = (\<exists>k. decrypted E L k p)"
| "stage E L m (T_done r) p = (r = 0 \<and> (\<exists>k. decrypted E L k p))"

text \<open>A process that still has to open its session; how far it is.\<close>

definition to_open :: "test_pc \<Rightarrow> nat" where
  "to_open pc = (if pc = T_start \<or> pc = T_session then 1 else 0)"

fun steps_left :: "test_pc \<Rightarrow> nat" where
  "steps_left T_start = 7"
| "steps_left T_session = 6"
| "steps_left T_encrypt = 5"
| "steps_left T_decrypt = 4"
| "steps_left T_finish = 3"
| "steps_left T_close = 2"
| "steps_left T_wait = 1"
| "steps_left (T_done r) = 0"

text \<open>What the calls of a process have left allocated, given what each command leaves.\<close>

fun spent :: "(u32 \<Rightarrow> 'm multiset) \<Rightarrow> test_pc \<Rightarrow> 'm multiset" where
  "spent kept T_start = {#}"
| "spent kept T_session = {#}"
| "spent kept T_encrypt = kept CIOCGSESSION"
| "spent kept T_decrypt = kept CIOCCRYPT + kept CIOCGSESSION"
| "spent kept T_finish = kept CIOCCRYPT + kept CIOCCRYPT + kept CIOCGSESSION"
| "spent kept _ = kept CIOCFSESSION + kept CIOCCRYPT + kept CIOCCRYPT + kept CIOCGSESSION"

lemma stage_cong: "(\<And>i. i \<in> own pc p \<Longrightarrow> m' i = m i) \<Longrightarrow> stage E L m' pc p = stage E L m pc p"
  by (cases pc) (simp_all add: own_def)

lemma own_dom: "stage E L m pc p \<Longrightarrow> own pc p \<subseteq> dom m"
  by (cases pc) (auto simp: own_def)

lemma other_simps [simp]: "other w \<noteq> w" "w \<noteq> other w" "other (other w) = w"
  by (cases w; simp)+

lemma who_cases: "v = w \<or> v = other w"
  by (cases v; cases w) simp_all

text \<open>
  The invariant of both processes, from the side of the one or the other: \<open>m0\<close> and \<open>h0\<close> are the
  sessions and the allocated memory at the fork. Their sessions are different, and apart from them the
  device has the old ones; once neither holds the file it has been released in that state.
\<close>

definition fork_inv ::
  "('d \<Rightarrow> bool) \<Rightarrow> ('d \<Rightarrow> u32 \<rightharpoonup> u8 list) \<Rightarrow> ('d \<Rightarrow> nat) \<Rightarrow> ('d \<Rightarrow> 'm multiset) \<Rightarrow> (u32 \<Rightarrow> 'm multiset)
     \<Rightarrow> ((u32 \<rightharpoonup> u8 list) \<Rightarrow> 'm multiset \<Rightarrow> 'd \<Rightarrow> bool) \<Rightarrow> (u8 list \<Rightarrow> u8 list \<Rightarrow> u8 list \<Rightarrow> u8 list) \<Rightarrow> test_layout
     \<Rightarrow> (u32 \<rightharpoonup> u8 list) \<Rightarrow> 'm multiset \<Rightarrow> 'd forked \<Rightarrow> who \<Rightarrow> bool"
where
  "fork_inv good keys room held kept finished E L m0 h0 s w \<longleftrightarrow>
     (let v = other w; d = shared s; a = own (pcs s w) (procs s w); b = own (pcs s v) (procs s v);
          sp = spent kept (pcs s w) + spent kept (pcs s v)
      in stage E L (keys d) (pcs s w) (procs s w) \<and> stage E L (keys d) (pcs s v) (procs s v) \<and> pcs s Child \<noteq> T_wait
       \<and> (if holds (pcs s w) \<or> holds (pcs s v)
           then good d \<and> to_open (pcs s w) + to_open (pcs s v) \<le> room d \<and> a \<inter> b = {} \<and> keys d |` (- (a \<union> b)) = m0
             \<and> held d = h0 + sp
           else finished m0 (h0 + sp) d))"

lemma fork_inv_other:
  "fork_inv good keys room held kept finished E L m0 h0 s (other w) = fork_inv good keys room held kept finished E L m0 h0 s w"
  by (auto simp: fork_inv_def Let_def ac_simps)

lemma fork_inv_any:
  "fork_inv good keys room held kept finished E L m0 h0 s w \<Longrightarrow> fork_inv good keys room held kept finished E L m0 h0 s v"
  using who_cases [of v w] fork_inv_other by metis

definition work_left :: "'d forked \<Rightarrow> nat" where
  "work_left s = steps_left (pcs s Parent) + steps_left (pcs s Child)"

section \<open>One process\<close>

text \<open>A device that can also be released.\<close>

locale released_device = session_device io good keys room held kept E D
  for io :: "'d ioctl_fun" and good keys room and held :: "'d \<Rightarrow> 'm multiset" and kept E D +
  fixes release :: "'d \<Rightarrow> 'd option"
    and finished :: "(u32 \<rightharpoonup> u8 list) \<Rightarrow> 'm multiset \<Rightarrow> 'd \<Rightarrow> bool"
  assumes releases: "good d \<Longrightarrow> \<exists>d'. release d = Some d' \<and> finished (keys d) (held d) d'"
begin

text \<open>A step of one process keeps its assertion, and touches no session but its own.\<close>

lemma proc_step_stage:
  assumes "good d" "stage E L (keys d) pc p" "holds pc" "to_open pc \<le> room d" "0 \<le> ur_open R" "ur_read R = Some bs"
  shows "\<exists>pc' p' d'. proc_step io L R 0 parent pc p d = Some (pc', p', d') \<and> good d' \<and> stage E L (keys d') pc' p'
    \<and> keys d' |` (- own pc' p') = keys d |` (- own pc p) \<and> own pc' p' \<subseteq> own pc p \<union> - dom (keys d)
    \<and> room d + to_open pc' \<le> room d' + to_open pc \<and> held d' + spent kept pc = held d + spent kept pc'
    \<and> steps_left pc' < steps_left pc \<and> (holds pc' \<or> pc = T_close) \<and> (pc' = T_wait \<longrightarrow> parent) \<and> pc' \<noteq> T_done 1"
proof (cases pc)
  case T_start
  then have "mapped (p_mem p) (at_struct L) struct_size" using assms(2) by simp
  then obtain p' where "test_start L R p = (int (length (take TEST_DATA_SIZE bs)), p')"
    "mapped (p_mem p') (at_struct L) struct_size"
    using start_part [OF assms(5,6)] by blast
  then show ?thesis using T_start assms(1) by (simp add: own_def to_open_def holds_def)
next
  case T_session
  then have "mapped (p_mem p) (at_struct L) struct_size" "0 < room d" using assms(2,4) by (simp_all add: to_open_def)
  then obtain p' d' k where r: "test_session io L p d = Some (0, p', d')" "good d'" "keyed L k p'"
    "keys d (ses (p_sess p')) = None" "keys d' = (keys d)(ses (p_sess p') \<mapsto> k)" "room d \<le> Suc (room d')"
    "held d' = kept CIOCGSESSION + held d"
    using session_keyed [OF assms(1)] by blast
  have "keys d' |` (- {ses (p_sess p')}) = keys d |` UNIV"
    using r(4) by (auto simp: r(5) restrict_map_def)
  then show ?thesis using T_session r by (auto simp: own_def to_open_def holds_def)
next
  case T_encrypt
  then obtain k where k: "keys d (ses (p_sess p)) = Some k" "keyed L k p" using assms(2) by auto
  obtain p' d' where r: "test_encrypt io L p d = Some (0, p', d')" "good d'" "p_sess p' = p_sess p" "op_set L p'"
    "encrypted E L k p'" "keys d' = keys d" "room d \<le> room d'" "held d' = kept CIOCCRYPT + held d"
    using encrypt_part [OF assms(1) k] by blast
  then show ?thesis using T_encrypt k by (auto simp: own_def to_open_def holds_def)
next
  case T_decrypt
  then obtain k where k: "keys d (ses (p_sess p)) = Some k" "encrypted E L k p" "op_set L p" using assms(2) by auto
  obtain p' d' where r: "test_decrypt io L p d = Some (0, p', d')" "good d'" "p_sess p' = p_sess p"
    "decrypted E L k p'" "keys d' = keys d" "room d \<le> room d'" "held d' = kept CIOCCRYPT + held d"
    using decrypt_part [OF assms(1) k] by blast
  moreover have "keys d' (ses (p_sess p')) \<noteq> None" using r(3,5) k(1) by simp
  ultimately show ?thesis using T_decrypt k finish_part(1) [OF r(2) _ r(4)] by (auto simp: own_def to_open_def holds_def)
next
  case T_finish
  then obtain k where k: "keys d (ses (p_sess p)) \<noteq> None" "decrypted E L k p" using assms(2) by auto
  obtain p' d' where r: "test_finish io L p d = Some (0, p', d')" "good d'" "decrypted E L k p'" "p_sess p' = p_sess p"
    "keys d' = (keys d)(ses (p_sess p) := None)" "room d \<le> room d'" "held d' = kept CIOCFSESSION + held d"
    using finish_part(2) [OF assms(1) k] by blast
  have "keys d' |` UNIV = keys d |` (- {ses (p_sess p)})" by (auto simp: r(5) restrict_map_def)
  then show ?thesis using T_finish r by (auto simp: own_def to_open_def holds_def)
next
  case T_close
  then show ?thesis using assms by (auto simp: own_def to_open_def holds_def)
qed (use assms(3) in \<open>simp_all add: holds_def\<close>)

text \<open>Both processes.\<close>

lemma run_keeps_inv:
  assumes inv: "fork_inv good keys room held kept finished E L m0 h0 s w" and env: "0 \<le> ur_open (R w)" "ur_read (R w) = Some bs"
    and step: "proc_step io L (R w) 0 (w = Parent) (pcs s w) (procs s w) (shared s) = Some (pc', p', d1)"
      "put_file release s w pc' d1 = Some d2"
  shows "fork_inv good keys room held kept finished E L m0 h0
      (s\<lparr>pcs := (pcs s)(w := pc'), procs := (procs s)(w := p'), shared := d2\<rparr>) w
    \<and> steps_left pc' < steps_left (pcs s w)"
proof -
  let ?v = "other w" and ?d = "shared s"
  let ?a = "own (pcs s w) (procs s w)" and ?b = "own (pcs s ?v) (procs s ?v)"
  have h: "holds (pcs s w)" using step(1) by (cases "pcs s w") (simp_all add: holds_def)
  have i: "stage E L (keys ?d) (pcs s w) (procs s w)" "stage E L (keys ?d) (pcs s ?v) (procs s ?v)" "pcs s Child \<noteq> T_wait"
    "good ?d" "to_open (pcs s w) + to_open (pcs s ?v) \<le> room ?d" "?a \<inter> ?b = {}" "keys ?d |` (- (?a \<union> ?b)) = m0"
    "held ?d = h0 + (spent kept (pcs s w) + spent kept (pcs s ?v))"
    using inv h by (simp_all add: fork_inv_def Let_def)
  have room: "to_open (pcs s w) \<le> room ?d" using i(5) by simp
  have s: "good d1" "stage E L (keys d1) pc' p'" "keys d1 |` (- own pc' p') = keys ?d |` (- ?a)"
    "own pc' p' \<subseteq> ?a \<union> - dom (keys ?d)" "room ?d + to_open pc' \<le> room d1 + to_open (pcs s w)"
    "held d1 + spent kept (pcs s w) = held ?d + spent kept pc'" "steps_left pc' < steps_left (pcs s w)"
    "pc' = T_wait \<longrightarrow> w = Parent"
    using proc_step_stage [OF i(4,1) h room env, of "w = Parent"] step(1) by auto
  have b: "?b \<subseteq> dom (keys ?d)" by (rule own_dom [OF i(2)])
  have apart: "own pc' p' \<inter> ?b = {}" using s(4) b i(6) by blast
  have same: "keys d1 j = keys ?d j" if "j \<in> ?b" for j
  proof -
    have "j \<notin> own pc' p'" "j \<notin> ?a" using that apart i(6) by blast+
    then show ?thesis using fun_cong [OF s(3), of j] by simp
  qed
  then have v: "stage E L (keys d1) (pcs s ?v) (procs s ?v)" using i(2) stage_cong by metis
  have rest: "keys d1 |` (- (own pc' p' \<union> ?b)) = m0"
  proof -
    have "keys d1 |` (- (own pc' p' \<union> ?b)) = (keys d1 |` (- own pc' p')) |` (- ?b)" by simp
    also have "\<dots> = keys ?d |` (- (?a \<union> ?b))" unfolding s(3) by simp
    finally show ?thesis using i(7) by simp
  qed
  have held: "held d1 = h0 + (spent kept pc' + spent kept (pcs s ?v))"
    using s(6) i(8) by (simp add: ac_simps)
  have child: "((pcs s)(w := pc')) Child \<noteq> T_wait" using i(3) s(8) by auto
  have own_none: "own pc p = {}" if "\<not> holds pc" for pc p using that by (cases pc) (auto simp: holds_def own_def)
  show ?thesis
  proof (cases "holds pc' \<or> holds (pcs s ?v)")
    case True
    then have "d2 = d1" using step(2) by (auto simp: put_file_def)
    then show ?thesis
      using True s(1,2,5,7) v apart rest held child i(5) by (simp add: fork_inv_def Let_def)
  next
    case False
    then have "release d1 = Some d2" using step(2) by (simp add: put_file_def)
    then have "finished (keys d1) (held d1) d2" using releases [OF s(1)] by auto
    moreover have "keys d1 = m0" using rest False own_none by (simp add: restrict_map_def)
    moreover have "stage E L (keys d2) pc' p'" "stage E L (keys d2) (pcs s ?v) (procs s ?v)"
      using s(2) v stage_cong [of pc' p' "keys d2" "keys d1"] stage_cong [of "pcs s ?v" "procs s ?v" "keys d2" "keys d1"]
        False own_none by auto
    ultimately show ?thesis using False s(7) held child by (simp add: fork_inv_def Let_def)
  qed
qed

text \<open>The system: every step keeps the invariant and makes progress, and only a state in which both have
  exited has no step.\<close>

abbreviation system_inv :: "test_layout \<Rightarrow> (u32 \<rightharpoonup> u8 list) \<Rightarrow> 'm multiset \<Rightarrow> 'd forked \<Rightarrow> bool" where
  "system_inv L m0 h0 s \<equiv> fork_inv good keys room held kept finished E L m0 h0 s Parent"

lemma fork_step_inv:
  assumes "fork_step io release L R 0 s s'" "system_inv L m0 h0 s" "\<forall>w. 0 \<le> ur_open (R w) \<and> ur_read (R w) \<noteq> None"
  shows "system_inv L m0 h0 s' \<and> work_left s' < work_left s"
  using assms(1)
proof cases
  case (run w pc' p' d1 d2)
  obtain bs where bs: "ur_read (R w) = Some bs" using assms(3) by auto
  have ok: "0 \<le> ur_open (R w)" using assms(3) by blast
  have "fork_inv good keys room held kept finished E L m0 h0 s w" using assms(2) by (rule fork_inv_any)
  from run_keeps_inv [where R = R, OF this ok bs run(2,3)]
  have inv: "fork_inv good keys room held kept finished E L m0 h0 s' w" and left: "steps_left pc' < steps_left (pcs s w)"
    unfolding run(1) by blast+
  have "work_left s' < work_left s" using left run(1) by (cases w) (simp_all add: work_left_def)
  then show ?thesis using fork_inv_any [OF inv] by blast
next
  case (wait r)
  then show ?thesis using assms(2) by (auto simp: fork_inv_def Let_def work_left_def own_def holds_def to_open_def)
qed

lemma fork_progress:
  assumes "system_inv L m0 h0 s" "\<forall>w. 0 \<le> ur_open (R w) \<and> ur_read (R w) \<noteq> None"
  shows "(\<exists>s'. fork_step io release L R 0 s s') \<or> (\<forall>w. pcs s w = T_done 0)"
proof (cases "\<exists>w. holds (pcs s w)")
  case True
  then obtain w where h: "holds (pcs s w)" by blast
  obtain bs where bs: "ur_read (R w) = Some bs" using assms(2) by auto
  have i: "good (shared s)" "stage E L (keys (shared s)) (pcs s w) (procs s w)" "to_open (pcs s w) \<le> room (shared s)"
    using fork_inv_any [OF assms(1), of w] h by (auto simp: fork_inv_def Let_def)
  obtain pc' p' d1 where step: "proc_step io L (R w) 0 (w = Parent) (pcs s w) (procs s w) (shared s) = Some (pc', p', d1)"
    "good d1"
    using proc_step_stage [OF i(1,2) h i(3) _ bs, of "w = Parent"] assms(2) by blast
  obtain d2 where "put_file release s w pc' d1 = Some d2"
    using releases [OF step(2)] unfolding put_file_def by (metis (full_types))
  with step(1) show ?thesis by (blast intro: fork_step.run)
next
  case False
  have st: "stage E L (keys (shared s)) (pcs s w) (procs s w)" for w
    using fork_inv_any [OF assms(1), of w] by (simp add: fork_inv_def Let_def)
  have "pcs s w = T_wait \<or> pcs s w = T_done 0" for w
  proof -
    have "\<not> holds (pcs s w)" using False by blast
    then show ?thesis using st [of w] by (cases "pcs s w") (simp_all add: holds_def)
  qed
  moreover have "pcs s Child \<noteq> T_wait" using assms(1) by (simp add: fork_inv_def Let_def)
  ultimately have c: "pcs s Child = T_done 0" "pcs s Parent = T_wait \<or> pcs s Parent = T_done 0" by blast+
  show ?thesis
  proof (cases "pcs s Parent = T_wait")
    case True
    then show ?thesis using fork_step.wait [OF _ c(1)] by blast
  next
    case False
    then have "pcs s w = T_done 0" for w using c by (cases w) auto
    then show ?thesis by blast
  qed
qed

lemma forked_inv:
  assumes "good d" "2 \<le> room d" "mapped (p_mem p) (at_struct L) struct_size"
  shows "system_inv L (keys d) (held d) (forked_state p d)"
  using assms by (simp add: fork_inv_def forked_state_def Let_def own_def to_open_def holds_def restrict_map_def)

text \<open>Every run: its length, and what holds when nothing is left to do.\<close>

lemma fork_run:
  assumes "(fork_step io release L R 0 ^^ n) (forked_state p d) s"
    and "good d" "2 \<le> room d" "mapped (p_mem p) (at_struct L) struct_size"
    and "\<forall>w. 0 \<le> ur_open (R w) \<and> ur_read (R w) \<noteq> None"
  shows "system_inv L (keys d) (held d) s \<and> n + work_left s \<le> 14"
  using assms(1)
proof (induction n arbitrary: s)
  case 0
  then have "s = forked_state p d" by simp
  then show ?case using forked_inv [OF assms(2-4)] by (simp add: work_left_def forked_state_def)
next
  case (Suc n)
  then obtain s1 where s1: "(fork_step io release L R 0 ^^ n) (forked_state p d) s1" "fork_step io release L R 0 s1 s"
    by auto
  show ?case using Suc.IH [OF s1(1)] fork_step_inv [OF s1(2) _ assms(5), of "keys d" "held d"] by auto
qed

lemma fork_outcome:
  assumes "(fork_step io release L R 0 ^^ n) (forked_state p d) s"
    and "good d" "2 \<le> room d" "mapped (p_mem p) (at_struct L) struct_size"
    and "\<forall>w. 0 \<le> ur_open (R w) \<and> ur_read (R w) \<noteq> None"
  shows "n \<le> 14 \<and> (\<forall>w r. pcs s w = T_done r \<longrightarrow> r = 0 \<and> (\<exists>k. decrypted E L k (procs s w)))
    \<and> ((\<exists>s'. fork_step io release L R 0 s s') \<or>
       (\<forall>w. pcs s w = T_done 0) \<and> finished (keys d) (held d + (spent kept (T_done 0) + spent kept (T_done 0))) (shared s))"
proof (intro conjI allI impI)
  have inv: "system_inv L (keys d) (held d) s" "n + work_left s \<le> 14" using fork_run [OF assms] by auto
  show "n \<le> 14" using inv(2) by simp
  show "r = 0" "\<exists>k. decrypted E L k (procs s w)" if "pcs s w = T_done r" for w r
    using fork_inv_any [OF inv(1), of w] that by (auto simp: fork_inv_def Let_def)
  show "(\<exists>s'. fork_step io release L R 0 s s') \<or>
       (\<forall>w. pcs s w = T_done 0) \<and> finished (keys d) (held d + (spent kept (T_done 0) + spent kept (T_done 0))) (shared s)"
    using fork_progress [OF inv(1) assms(5)] inv(1) by (auto simp: fork_inv_def Let_def holds_def)
qed

end

end
