(* ===== verification/CryptoTestGuest.thy ===== *)
theory CryptoTestGuest
  imports CryptoFork
begin

text \<open>
  The test programs on the guest driver: an open file is the driver's private data with the state of
  the guest and the host. The driver is a device as the tests need it when the host's cryptodev keeps
  its sessions apart.
\<close>

section \<open>The guest driver as the tests' device\<close>

type_synonym 'h opened = "crypto_open_file option \<times> 'h guest"

definition guest_open :: "'h platform \<Rightarrow> int \<Rightarrow> crypto_driver_data \<Rightarrow> u32 \<Rightarrow> 'h opened \<Rightarrow> (int \<times> 'h opened) option" where
  "guest_open K nonseekable Drv k d = do {
     (r, f, g) \<leftarrow> crypto_chrdev_open K nonseekable Drv k (snd d);
     Some (r, f, g)
   }"

definition guest_ioctl :: "'h platform \<Rightarrow> 'h opened ioctl_fun" where
  "guest_ioctl K cmd arg u d = do {
     (r, g) \<leftarrow> crypto_chrdev_ioctl K (fst d) cmd arg ((snd d)\<lparr>um := u\<rparr>);
     Some (r, um g, fst d, g)
   }"

definition guest_release :: "'h platform \<Rightarrow> 'h opened \<Rightarrow> 'h opened option" where
  "guest_release K d = do {
     (r, g) \<leftarrow> crypto_chrdev_release K (fst d) (snd d);
     Some (None, g)
   }"

section \<open>The host's sessions\<close>

text \<open>
  cryptodev on the host, for the file \<open>fd\<close>: an AES session gets an id that is not in use and has the
  given key, while there is room; an operation uses the key of its session; finishing a session
  removes it.
\<close>

definition session_host ::
  "'h host_os \<Rightarrow> u32 \<Rightarrow> ('h \<Rightarrow> bool) \<Rightarrow> ('h \<Rightarrow> u32 \<rightharpoonup> u8 list) \<Rightarrow> ('h \<Rightarrow> nat)
     \<Rightarrow> (u8 list \<Rightarrow> u8 list \<Rightarrow> u8 list \<Rightarrow> u8 list) \<Rightarrow> (u8 list \<Rightarrow> u8 list \<Rightarrow> u8 list \<Rightarrow> u8 list) \<Rightarrow> bool"
where
  "session_host H fd hgood hkeys hroom E D \<longleftrightarrow>
     (\<forall>h x k. hgood h \<longrightarrow> 0 < hroom h \<longrightarrow> cipher x = CRYPTO_AES_CBC \<longrightarrow> length k = unat (keylen x) \<longrightarrow> length k \<in> {16, 24, 32} \<longrightarrow>
        (\<exists>i h'. os_gsession H fd x k h = (0, x\<lparr>ses := i\<rparr>, h') \<and> hgood h' \<and> hkeys h i = None
           \<and> hkeys h' = (hkeys h)(i \<mapsto> k) \<and> hroom h \<le> Suc (hroom h')))
     \<and> (\<forall>h c src iv dst k. hgood h \<longrightarrow> hkeys h (op_ses c) = Some k \<longrightarrow> length src = unat (op_len c) \<longrightarrow> 16 dvd length src \<longrightarrow>
        length iv = 16 \<longrightarrow> op_code c = COP_ENCRYPT \<or> op_code c = COP_DECRYPT \<longrightarrow>
        (\<exists>h'. os_crypt H fd c src iv dst h = (0, if op_code c = COP_ENCRYPT then E k iv src else D k iv src, h') \<and> hgood h'
           \<and> hkeys h' = hkeys h \<and> hroom h \<le> hroom h'))
     \<and> (\<forall>h i. hgood h \<longrightarrow> hkeys h i \<noteq> None \<longrightarrow>
        (\<exists>h'. os_fsession H fd i h = (0, h') \<and> hgood h' \<and> hkeys h' = (hkeys h)(i := None) \<and> hroom h \<le> hroom h'))
     \<and> (\<forall>k iv b. 16 dvd length b \<longrightarrow>
          length (E k iv b) = length b \<and> length (D k iv b) = length b \<and> D k iv (E k iv b) = b)"

definition good_file ::
  "'h platform \<Rightarrow> u32 \<Rightarrow> ('h \<Rightarrow> bool) \<Rightarrow> ('h \<Rightarrow> u32 \<rightharpoonup> u8 list) \<Rightarrow> ('h \<Rightarrow> nat)
     \<Rightarrow> (u8 list \<Rightarrow> u8 list \<Rightarrow> u8 list \<Rightarrow> u8 list) \<Rightarrow> (u8 list \<Rightarrow> u8 list \<Rightarrow> u8 list \<Rightarrow> u8 list) \<Rightarrow> 'h opened \<Rightarrow> bool"
where
  "good_file K fd hgood hkeys hroom E D d \<longleftrightarrow>
     ample K \<and> session_host (hos K) fd hgood hkeys hroom E D \<and> (\<exists>a. fst d = Some \<lparr>crof_dev = a, crof_fd = fd\<rparr>)
     \<and> hgood (host (snd d)) \<and> K_crof \<in># live (snd d)"

text \<open>What an ioctl leaves allocated in the kernel.\<close>

definition leaked :: "u32 \<Rightarrow> kobj multiset" where
  "leaked cmd = (if cmd = CIOCGSESSION then {#K_sess, K_crypt, K_sess_key#} else {#K_sess, K_crypt#})"

text \<open>A file that has been released once: the host has closed its descriptor, with the sessions \<open>m\<close>, and
  of the kernel objects \<open>l\<close> the file's structure is gone.\<close>

definition closed_file ::
  "'h platform \<Rightarrow> u32 \<Rightarrow> ('h \<Rightarrow> u32 \<rightharpoonup> u8 list) \<Rightarrow> (u32 \<rightharpoonup> u8 list) \<Rightarrow> kobj multiset \<Rightarrow> 'h opened \<Rightarrow> bool"
where
  "closed_file K fd hkeys m l d \<longleftrightarrow> fst d = None
     \<and> (\<exists>h. hkeys h = m \<and> host (snd d) = os_close (hos K) fd h)
     \<and> live (snd d) = add_mset K_syscall_type (l - {#K_crof#})"

lemma guest_opens:
  assumes "good_file K fd hgood hkeys hroom E D d" "0 < hroom (host (snd d))" "um_session u arg = Some x"
    and "cipher x = CRYPTO_AES_CBC" "user_read u (key x) (unat (keylen x)) = Some k" "length k \<in> {16, 24, 32}"
  shows "\<exists>x' d'. guest_ioctl K CIOCGSESSION arg u d = Some (0, u\<lparr>um_session := (um_session u)(arg \<mapsto> x')\<rparr>, d')
    \<and> good_file K fd hgood hkeys hroom E D d' \<and> hkeys (host (snd d)) (ses x') = None
    \<and> hkeys (host (snd d')) = (hkeys (host (snd d)))(ses x' \<mapsto> k) \<and> hroom (host (snd d)) \<le> Suc (hroom (host (snd d')))
    \<and> live (snd d') = leaked CIOCGSESSION + live (snd d)"
proof -
  obtain a where a: "ample K" "session_host (hos K) fd hgood hkeys hroom E D" "fst d = Some \<lparr>crof_dev = a, crof_fd = fd\<rparr>"
    "hgood (host (snd d))" "K_crof \<in># live (snd d)"
    using assms(1) by (auto simp: good_file_def)
  let ?x = "x\<lparr>key := out_base (hmap K) 3\<rparr>" and ?g = "(snd d)\<lparr>um := u\<rparr>"
  have len: "length k = unat (keylen ?x)" using length_user_read [OF assms(5)] by simp
  have cph: "cipher ?x = CRYPTO_AES_CBC" using assms(4) by simp
  obtain i h' where h: "os_gsession (hos K) fd ?x k (host (snd d)) = (0, ?x\<lparr>ses := i\<rparr>, h')" "hgood h'"
    "hkeys (host (snd d)) i = None" "hkeys h' = (hkeys (host (snd d)))(i \<mapsto> k)" "hroom (host (snd d)) \<le> Suc (hroom h')"
    using a(2) [unfolded session_host_def, THEN conjunct1, rule_format, OF a(4) assms(2) cph len assms(6)] by blast
  have "keylen x \<noteq> 0" using assms(6) len by auto
  moreover have "um_session (um ?g) arg = Some x" "user_read (um ?g) (key x) (unat (keylen x)) = Some k"
    using assms(3,5) by simp_all
  moreover have "os_gsession (hos K) (crof_fd \<lparr>crof_dev = a, crof_fd = fd\<rparr>) ?x k (host ?g) = (0, ?x\<lparr>ses := i\<rparr>, h')"
    using h(1) by simp
  ultimately have "\<exists>g'. crypto_chrdev_ioctl K (Some \<lparr>crof_dev = a, crof_fd = fd\<rparr>) CIOCGSESSION arg ?g = Some (0, g')
      \<and> host g' = h' \<and> um g' = (um ?g)\<lparr>um_session := (um_session (um ?g))(arg \<mapsto> x\<lparr>key := out_base (hmap K) 3, ses := ses (?x\<lparr>ses := i\<rparr>)\<rparr>)\<rparr>
      \<and> live g' = {#K_sess, K_crypt, K_sess_key#} + live ?g"
    using a(1) by (intro gsession_call) simp_all
  then obtain g' where g': "crypto_chrdev_ioctl K (Some \<lparr>crof_dev = a, crof_fd = fd\<rparr>) CIOCGSESSION arg ?g = Some (0, g')"
    "host g' = h'" "um g' = u\<lparr>um_session := (um_session u)(arg \<mapsto> ?x\<lparr>ses := i\<rparr>)\<rparr>"
    "live g' = {#K_sess, K_crypt, K_sess_key#} + live (snd d)"
    by auto
  then show ?thesis
    using a h by (auto simp: guest_ioctl_def good_file_def leaked_def intro!: exI [of _ "?x\<lparr>ses := i\<rparr>"])
qed

lemma guest_crypts:
  assumes "good_file K fd hgood hkeys hroom E D d" "um_crypt u arg = Some c" "hkeys (host (snd d)) (op_ses c) = Some k"
    and "0 < sint (op_len c)" "16 dvd unat (op_len c)" "user_read u (op_src c) (unat (op_len c)) = Some src"
    and "user_read u (op_iv c) 16 = Some iv" "mapped u (op_dst c) (unat (op_len c))"
    and "op_code c = COP_ENCRYPT \<or> op_code c = COP_DECRYPT"
  shows "\<exists>d'. guest_ioctl K CIOCCRYPT arg u d =
      Some (0, place_bytes (op_dst c) (if op_code c = COP_ENCRYPT then E k iv src else D k iv src) u, d')
    \<and> good_file K fd hgood hkeys hroom E D d' \<and> hkeys (host (snd d')) = hkeys (host (snd d))
    \<and> hroom (host (snd d)) \<le> hroom (host (snd d')) \<and> live (snd d') = leaked CIOCCRYPT + live (snd d)"
proof -
  obtain a where a: "ample K" "session_host (hos K) fd hgood hkeys hroom E D" "fst d = Some \<lparr>crof_dev = a, crof_fd = fd\<rparr>"
    "hgood (host (snd d))" "K_crof \<in># live (snd d)"
    using assms(1) by (auto simp: good_file_def)
  let ?out = "if op_code c = COP_ENCRYPT then E k iv src else D k iv src" and ?g = "(snd d)\<lparr>um := u\<rparr>"
  let ?f = "\<lparr>crof_dev = a, crof_fd = fd\<rparr>" and ?v = "host_view K c"
  have len: "length src = unat (op_len c)" "length iv = 16"
    using length_user_read [OF assms(6)] length_user_read [OF assms(7)] by simp_all
  have v: "op_ses ?v = op_ses c" "op_len ?v = op_len c" "op_code ?v = op_code c" by (simp_all add: host_view_def)
  have pre: "hkeys (host (snd d)) (op_ses ?v) = Some k" "length src = unat (op_len ?v)" "16 dvd length src"
    "op_code ?v = COP_ENCRYPT \<or> op_code ?v = COP_DECRYPT"
    using assms(3,5,9) len by (simp_all add: v)
  have H: "\<exists>h'. os_crypt (hos K) fd ?v src iv dst (host (snd d)) = (0, if op_code ?v = COP_ENCRYPT then E k iv src else D k iv src, h')
      \<and> hgood h' \<and> hkeys h' = hkeys (host (snd d)) \<and> hroom (host (snd d)) \<le> hroom h'" for dst
    using a(2) [unfolded session_host_def, THEN conjunct2, THEN conjunct1, rule_format, OF a(4) pre(1-3) len(2) pre(4)] .
  obtain h' where h: "os_crypt (hos K) (crof_fd ?f) ?v src iv (replicate (unat (op_len c)) 0) (host ?g) = (0, ?out, h')"
    "hgood h'" "hkeys h' = hkeys (host (snd d))" "hroom (host (snd d)) \<le> hroom h'"
    using H [of "replicate (unat (op_len c)) 0"] by (auto simp: v)
  have out: "length ?out = unat (op_len c)"
    using a(2) assms(5) len(1) by (simp add: session_host_def)
  then have w: "user_write (um ?g) (op_dst c) ?out = Some (place_bytes (op_dst c) ?out u)"
    using assms(8) by (simp add: user_write_place)
  have r: "um_crypt (um ?g) arg = Some c" "user_read (um ?g) (op_src c) (unat (op_len c)) = Some src"
    "user_read (um ?g) (op_iv c) 16 = Some iv"
    using assms(2,6,7) by simp_all
  obtain g' where g': "crypto_chrdev_ioctl K (Some ?f) CIOCCRYPT arg ?g = Some (0, g')" "host g' = h'"
    "um g' = place_bytes (op_dst c) ?out u" "live g' = {#K_sess, K_crypt#} + live ?g"
    using crypt_call [OF a(1) r(1) assms(4) r(2,3) h(1) out w] by blast
  have "guest_ioctl K CIOCCRYPT arg u d = Some (0, place_bytes (op_dst c) ?out u, fst d, g')"
    using g'(1,3) a(3) by (simp add: guest_ioctl_def)
  moreover have "good_file K fd hgood hkeys hroom E D (fst d, g')"
    using a h(2) g'(2,4) by (simp add: good_file_def)
  ultimately show ?thesis using g'(2,4) h(3,4) by (auto simp: leaked_def)
qed

lemma guest_closes:
  assumes "good_file K fd hgood hkeys hroom E D d" "um_u32 u arg = Some i" "hkeys (host (snd d)) i \<noteq> None"
  shows "\<exists>d'. guest_ioctl K CIOCFSESSION arg u d = Some (0, u, d')
    \<and> good_file K fd hgood hkeys hroom E D d' \<and> hkeys (host (snd d')) = (hkeys (host (snd d)))(i := None)
    \<and> hroom (host (snd d)) \<le> hroom (host (snd d')) \<and> live (snd d') = leaked CIOCFSESSION + live (snd d)"
proof -
  obtain a where a: "ample K" "session_host (hos K) fd hgood hkeys hroom E D" "fst d = Some \<lparr>crof_dev = a, crof_fd = fd\<rparr>"
    "hgood (host (snd d))" "K_crof \<in># live (snd d)"
    using assms(1) by (auto simp: good_file_def)
  obtain h' where h: "os_fsession (hos K) fd i (host (snd d)) = (0, h')" "hgood h'"
    "hkeys h' = (hkeys (host (snd d)))(i := None)" "hroom (host (snd d)) \<le> hroom h'"
    using a(2) [unfolded session_host_def, THEN conjunct2, THEN conjunct2, THEN conjunct1, rule_format, OF a(4) assms(3)] by blast
  have r: "um_u32 (um ((snd d)\<lparr>um := u\<rparr>)) arg = Some i"
    "os_fsession (hos K) (crof_fd \<lparr>crof_dev = a, crof_fd = fd\<rparr>) i (host ((snd d)\<lparr>um := u\<rparr>)) = (0, h')"
    using assms(2) h(1) by simp_all
  obtain g' where g': "crypto_chrdev_ioctl K (fst d) CIOCFSESSION arg ((snd d)\<lparr>um := u\<rparr>) = Some (0, g')" "host g' = h'"
    "um g' = u" "live g' = {#K_sess, K_crypt#} + live (snd d)"
    using fsession_call [OF a(1) r] a(3) by auto
  have "guest_ioctl K CIOCFSESSION arg u d = Some (0, u, fst d, g')" using g'(1,3) by (simp add: guest_ioctl_def)
  moreover have "good_file K fd hgood hkeys hroom E D (fst d, g')" using a h(2) g'(2,4) by (simp add: good_file_def)
  ultimately show ?thesis using g'(2,4) h(3,4) by (auto simp: leaked_def)
qed

lemma guest_releases:
  assumes "good_file K fd hgood hkeys hroom E D d"
  shows "\<exists>d'. guest_release K d = Some d' \<and> closed_file K fd hkeys (hkeys (host (snd d))) (live (snd d)) d'"
proof -
  obtain a where a: "ample K" "fst d = Some \<lparr>crof_dev = a, crof_fd = fd\<rparr>" "K_crof \<in># live (snd d)"
    using assms by (auto simp: good_file_def)
  show ?thesis
    using release_closes_host_fd [OF a(1,3), of "\<lparr>crof_dev = a, crof_fd = fd\<rparr>"] a(2)
    by (auto simp: guest_release_def closed_file_def)
qed

interpretation guest_file: released_device "guest_ioctl K" "good_file K fd hgood hkeys hroom E D"
  "\<lambda>d. hkeys (host (snd d))" "\<lambda>d. hroom (host (snd d))" "\<lambda>d. live (snd d)" leaked E D
  "guest_release K" "closed_file K fd hkeys"
  for K fd hgood hkeys hroom E D
proof
  fix d b k iv
  assume "good_file K fd hgood hkeys hroom E D d" "16 dvd length (b :: u8 list)"
  then show "length (E k iv b) = length b \<and> D k iv (E k iv b) = b" by (simp add: good_file_def session_host_def)
qed (fact guest_opens guest_crypts guest_closes guest_releases)+

section \<open>Properties\<close>

text \<open>An open that succeeds, and one that does not.\<close>

lemma guest_opened:
  assumes "ample K" "0 \<le> nonseekable" "get_crypto_dev_by_minor minor_nr Drv = Some (Some a)"
    and "ucast (kaddr K (kcalls g)) = (0 :: u32)"
    and "os_open (hos K) (host g) = (fd, h1)" "0 \<le> fd" "fd < 2 ^ 31"
    and "session_host (hos K) (word_of_int fd) hgood hkeys hroom E D" "hgood h1"
  obtains d where "guest_open K nonseekable Drv minor_nr (f, g) = Some (nonseekable, d)"
    "good_file K (word_of_int fd) hgood hkeys hroom E D d" "host (snd d) = h1"
    "live (snd d) = {#K_crof, K_syscall_type#} + live g"
proof -
  have "\<not> sint (word_of_int fd :: u32) < 0"
    using assms(6,7) by (simp add: sint_word_of_int_u32)
  then have "crypto_chrdev_open K nonseekable Drv minor_nr g = Some (nonseekable,
      Some \<lparr>crof_dev = a, crof_fd = word_of_int fd\<rparr>,
      g\<lparr>live := {#K_crof, K_syscall_type#} + live g, kcalls := kcalls g + 2, host := h1\<rparr>)"
    using open_call [OF assms(1,2) refl assms(3), where g = g] assms(4,5) by simp
  then show thesis
    using that assms(1,8,9) by (simp add: guest_open_def good_file_def)
qed

lemma guest_not_opened:
  assumes "ample K" "0 \<le> nonseekable" "get_crypto_dev_by_minor minor_nr Drv = Some (Some a)"
    and "ucast (kaddr K (kcalls g)) \<notin> {0, 1, 2 :: u32}"
  obtains d where "guest_open K nonseekable Drv minor_nr (f, g) = Some (- ENODEV, d)" "host (snd d) = host g"
  using open_call [OF assms(1,2) refl assms(3)] assms(4) that by (simp add: guest_open_def)

text \<open>A host whose sessions have ids that are counted up, and whose cipher xors with the first byte of the key,
  on a platform whose first address has a lower half of 0.\<close>

definition key_flip :: "u8 list \<Rightarrow> u8 list \<Rightarrow> u8 list \<Rightarrow> u8 list" where
  "key_flip k iv b = map (\<lambda>x. x XOR k ! 0) b"

definition counting_os :: "(nat \<times> (u32 \<rightharpoonup> u8 list)) host_os" where
  "counting_os = \<lparr>os_open = (\<lambda>h. (3, h)), os_close = (\<lambda>fd h. (fst h, Map.empty)),
     os_gsession = (\<lambda>fd s k h. (0, s\<lparr>ses := of_nat (fst h)\<rparr>, (Suc (fst h), (snd h)(of_nat (fst h) \<mapsto> k)))),
     os_fsession = (\<lambda>fd i h. (0, (fst h, (snd h)(i := None)))),
     os_crypt = (\<lambda>fd c src iv dst h. case snd h (op_ses c) of None \<Rightarrow> (- EINVAL, dst, h) | Some k \<Rightarrow> (0, key_flip k iv src, h))\<rparr>"

definition counting_good :: "nat \<times> (u32 \<rightharpoonup> u8 list) \<Rightarrow> bool" where
  "counting_good h \<longleftrightarrow> (\<forall>i. snd h i \<noteq> None \<longrightarrow> unat i < fst h)"

lemma counting_host: "session_host counting_os fd counting_good snd (\<lambda>h. 2 ^ 32 - fst h) key_flip key_flip"
proof -
  have fresh: "m (of_nat n) = None \<and> counting_good (Suc n, m(of_nat n \<mapsto> k))"
    if "counting_good (n, m)" "n < 2 ^ 32" for n m k
  proof -
    have n: "unat (of_nat n :: u32) = n" using that(2) by (simp add: unat_of_nat)
    then show ?thesis using that(1) by (fastforce simp: counting_good_def split: if_splits)
  qed
  have "(\<lambda>x. x XOR c) \<circ> (\<lambda>x. x XOR c) = id" for c :: u8 by (auto simp: xor.assoc)
  then show ?thesis
    using fresh by (auto simp: session_host_def counting_os_def key_flip_def counting_good_def)
qed

definition counting_platform :: "(nat \<times> (u32 \<rightharpoonup> u8 list)) platform" where
  "counting_platform = \<lparr>kz = (\<lambda>_. True), kaddr = (\<lambda>n. 0xFFFF880000000000 + of_nat (n mod 1000)), build_debug = True,
     vq_pop = (\<lambda>rq. list_all (\<lambda>s. 0 < seg_size s) (fst rq @ snd rq)), hos = counting_os,
     hmap = \<lparr>out_base = (\<lambda>i. 0x7F0000000000 + of_nat i), in_base = (\<lambda>i. 0x7F0000001000 + of_nat i)\<rparr>\<rparr>"

lemma counting_platform_ample: "ample counting_platform"
proof -
  have "0xFFFF880000000000 + of_nat (n mod 1000) \<noteq> (0 :: addr)" for n by (rule address_nonzero) simp_all
  then show ?thesis by (auto simp: ample_def counting_platform_def list_all_iff)
qed

definition counting_guest :: "(nat \<times> (u32 \<rightharpoonup> u8 list)) guest" where
  "counting_guest = \<lparr>live = {#}, kcalls = 0, um = um sample_guest, host = (1, Map.empty)\<rparr>"

definition sample_process :: process where
  "sample_process = \<lparr>p_mem = \<lparr>um_bytes = (\<lambda>_. Some 5), um_session = Map.empty, um_u32 = Map.empty, um_crypt = Map.empty\<rparr>,
     p_sess = zero_sess, p_cryp = zero_cryp\<rparr>"

definition sample_test_layout :: test_layout where
  "sample_test_layout = \<lparr>at_struct = 0x7FFD00000000, at_sess = 0x7FFD00010000, at_cryp = 0x7FFD00011000, at_ses = 0x7FFD0001002C\<rparr>"

definition sample_urandom :: urandom where
  "sample_urandom = \<lparr>ur_open = 3, ur_read = Some [1, 2, 3]\<rparr>"

text \<open>What the two witnesses need of these.\<close>

lemma counting_facts:
  "get_crypto_dev_by_minor 0 (probed (7, 0x2000) 0x1000 no_devices) = Some (Some 0x1000)"
  "ucast (kaddr counting_platform (kcalls counting_guest)) = (0 :: u32)"
  "os_open (hos counting_platform) (host counting_guest) = (3, (1, Map.empty))"
  "counting_good (1, Map.empty)"
  "mapped (p_mem sample_process) (at_struct sample_test_layout) struct_size"
  "0 \<le> ur_open sample_urandom" "ur_read sample_urandom = Some [1, 2, 3]"
  by (simp_all add: get_crypto_dev_by_minor_def probed_def virtcons_probe_def find_vq_def IS_ERR_def no_devices_def
      counting_platform_def counting_guest_def counting_os_def counting_good_def mapped_def sample_process_def sample_urandom_def)

lemma counting_sessions:
  "session_host (hos counting_platform) (word_of_int 3) counting_good snd (\<lambda>h. 2 ^ 32 - fst h) key_flip key_flip"
proof -
  have "hos counting_platform = counting_os" by (simp add: counting_platform_def)
  then show ?thesis using counting_host by simp
qed

text \<open>The test program on the driver. When the open fails, as it does unless the pointer that is
  sent happens to name a system call, the program exits with 1. When it succeeds, the program opens a
  session with the 24 bytes at \<open>key\<close> (AES-192, not the AES-128 of the comment), what it encrypts and
  decrypts is equal, and it exits with 0; the host has its old sessions when the descriptor is closed,
  and the guest kernel has lost eleven objects.\<close>

theorem test_program_on_guest:
  assumes "ample K" "0 \<le> nonseekable" "get_crypto_dev_by_minor minor_nr Drv = Some (Some a)"
    and "os_open (hos K) (host g) = (fd, h1)" "0 \<le> fd" "fd < 2 ^ 31"
    and "session_host (hos K) (word_of_int fd) hgood hkeys hroom E D" "hgood h1" "0 < hroom h1"
    and "mapped (p_mem pr) (at_struct L) struct_size" "0 \<le> ur_open R" "ur_read R = Some bs"
  shows "(ucast (kaddr K (kcalls g)) \<notin> {0, 1, 2 :: u32} \<longrightarrow>
      (\<exists>d. test_main (guest_open K nonseekable Drv minor_nr) (guest_ioctl K) (guest_release K) L R 0 pr (f, g) = Some (1, pr, d)
         \<and> host (snd d) = host g))
    \<and> (ucast (kaddr K (kcalls g)) = (0 :: u32) \<longrightarrow>
      (\<exists>pr' d k h. test_main (guest_open K nonseekable Drv minor_nr) (guest_ioctl K) (guest_release K) L R 0 pr (f, g) = Some (0, pr', d)
         \<and> decrypted E L k pr' \<and> length k = 24 \<and> hkeys h = hkeys h1 \<and> host (snd d) = os_close (hos K) (word_of_int fd) h
         \<and> live (snd d) = live g + {#K_syscall_type, K_syscall_type, K_sess_key#} + repeat_mset 4 {#K_sess, K_crypt#}))"
proof (intro conjI impI)
  let ?main = "test_main (guest_open K nonseekable Drv minor_nr) (guest_ioctl K) (guest_release K) L R 0 pr (f, g)"
  assume bad: "ucast (kaddr K (kcalls g)) \<notin> {0, 1, 2 :: u32}"
  obtain d where "guest_open K nonseekable Drv minor_nr (f, g) = Some (- ENODEV, d)" "host (snd d) = host g"
    by (rule guest_not_opened [OF assms(1-3) bad])
  then show "\<exists>d. ?main = Some (1, pr, d) \<and> host (snd d) = host g" by (simp add: test_main_def)
next
  let ?main = "test_main (guest_open K nonseekable Drv minor_nr) (guest_ioctl K) (guest_release K) L R 0 pr (f, g)"
  assume "ucast (kaddr K (kcalls g)) = (0 :: u32)"
  then obtain d where d: "guest_open K nonseekable Drv minor_nr (f, g) = Some (nonseekable, d)"
    "good_file K (word_of_int fd) hgood hkeys hroom E D d" "host (snd d) = h1"
    "live (snd d) = {#K_crof, K_syscall_type#} + live g"
    by (rule guest_opened [OF assms(1-3) _ assms(4-8)])
  have room: "0 < hroom (host (snd d))" using assms(9) d(3) by simp
  obtain pr' d' k where t: "test_crypto (guest_ioctl K) L R pr d = Some (0, pr', d')"
    "good_file K (word_of_int fd) hgood hkeys hroom E D d'" "decrypted E L k pr'" "length k = 24"
    "hkeys (host (snd d')) = hkeys h1"
    "live (snd d') = leaked CIOCFSESSION + leaked CIOCCRYPT + leaked CIOCCRYPT + leaked CIOCGSESSION + live (snd d)"
    using guest_file.test_passes [OF d(2) room assms(10-12)] d(3) by auto
  obtain d'' where r: "guest_release K d' = Some d''" "closed_file K (word_of_int fd) hkeys (hkeys (host (snd d'))) (live (snd d')) d''"
    using guest_file.releases [OF t(2)] by blast
  have "?main = Some (0, pr', d'')" using d(1) t(1) r(1) assms(2) by (simp add: test_main_def)
  moreover have "live (snd d'') = live g + {#K_syscall_type, K_syscall_type, K_sess_key#} + repeat_mset 4 {#K_sess, K_crypt#}"
    using r(2) by (simp add: closed_file_def t(6) d(4) leaked_def eval_nat_numeral)
  moreover obtain h where "hkeys h = hkeys h1" "host (snd d'') = os_close (hos K) (word_of_int fd) h"
    using r(2) t(5) by (auto simp: closed_file_def)
  ultimately show "\<exists>pr' d k h. ?main = Some (0, pr', d)
         \<and> decrypted E L k pr' \<and> length k = 24 \<and> hkeys h = hkeys h1 \<and> host (snd d) = os_close (hos K) (word_of_int fd) h
         \<and> live (snd d) = live g + {#K_syscall_type, K_syscall_type, K_sess_key#} + repeat_mset 4 {#K_sess, K_crypt#}"
    using t(3,4) by blast
qed

lemma test_program_on_guest_witness:
  "\<exists>pr' d k. test_main (guest_open counting_platform 0 (probed (7, 0x2000) 0x1000 no_devices) 0) (guest_ioctl counting_platform)
      (guest_release counting_platform) sample_test_layout sample_urandom 0 sample_process (None, counting_guest) = Some (0, pr', d)
    \<and> decrypted key_flip sample_test_layout k pr' \<and> size (live (snd d)) = 11"
proof -
  have l: "live counting_guest = {#}" by (simp add: counting_guest_def)
  show ?thesis
    using test_program_on_guest [OF counting_platform_ample order_refl counting_facts(1,3) _ _ counting_sessions counting_facts(4) _ counting_facts(5-7), of None]
      counting_facts(2) by (auto simp: l)
qed

text \<open>C9: the two processes of the fork test, in any order of their steps. They do not disturb each
  other: whatever the interleaving, no process fails, one that has exited has verified its data, after
  at most 14 steps both have exited with 0, and then the file has been released exactly once, with the
  sessions the host had before.\<close>

theorem fork_test_on_guest:
  assumes "ample K" "0 \<le> nonseekable" "get_crypto_dev_by_minor minor_nr Drv = Some (Some a)"
    and "ucast (kaddr K (kcalls g)) = (0 :: u32)"
    and "os_open (hos K) (host g) = (fd, h1)" "0 \<le> fd" "fd < 2 ^ 31"
    and "session_host (hos K) (word_of_int fd) hgood hkeys hroom E D" "hgood h1" "2 \<le> hroom h1"
    and "mapped (p_mem pr) (at_struct L) struct_size" "\<forall>w. 0 \<le> ur_open (R w) \<and> ur_read (R w) \<noteq> None"
    and "0 \<le> pid" "fork_main (guest_open K nonseekable Drv minor_nr) (guest_release K) pid pr (f, g) = Some (Inr s0)"
    and "(fork_step (guest_ioctl K) (guest_release K) L R 0 ^^ n) s0 s"
  shows "n \<le> 14 \<and> (\<forall>w r. pcs s w = T_done r \<longrightarrow> r = 0 \<and> (\<exists>k. decrypted E L k (procs s w)))
    \<and> ((\<exists>s'. fork_step (guest_ioctl K) (guest_release K) L R 0 s s')
       \<or> (\<forall>w. pcs s w = T_done 0) \<and> fst (shared s) = None
         \<and> (\<exists>h. hkeys h = hkeys h1 \<and> host (snd (shared s)) = os_close (hos K) (word_of_int fd) h))"
proof -
  obtain d where d: "guest_open K nonseekable Drv minor_nr (f, g) = Some (nonseekable, d)"
    "good_file K (word_of_int fd) hgood hkeys hroom E D d" "host (snd d) = h1"
    by (rule guest_opened [OF assms(1-9)])
  have s0: "s0 = forked_state pr d" using assms(2,13,14) d(1) by (simp add: fork_main_def)
  have room: "2 \<le> hroom (host (snd d))" using assms(10) d(3) by simp
  show ?thesis
    using guest_file.fork_outcome [OF assms(15) [unfolded s0] d(2) room assms(11,12)] unfolding closed_file_def d(3) by blast
qed

text \<open>The two processes come to their end.\<close>

lemma fork_test_on_guest_witness:
  "\<exists>s0 n s. fork_main (guest_open counting_platform 0 (probed (7, 0x2000) 0x1000 no_devices) 0) (guest_release counting_platform) 42
      sample_process (None, counting_guest) = Some (Inr s0)
    \<and> (fork_step (guest_ioctl counting_platform) (guest_release counting_platform) sample_test_layout (\<lambda>_. sample_urandom) 0 ^^ n) s0 s
    \<and> (\<forall>w. pcs s w = T_done 0) \<and> host (snd (shared s)) = (fst (host (snd (shared s))), Map.empty)"
proof -
  let ?step = "fork_step (guest_ioctl counting_platform) (guest_release counting_platform) sample_test_layout (\<lambda>_. sample_urandom) 0"
  obtain d where d: "guest_open counting_platform 0 (probed (7, 0x2000) 0x1000 no_devices) 0 (None, counting_guest) = Some (0, d)"
    by (rule guest_opened [OF counting_platform_ample order_refl counting_facts(1-3) _ _ counting_sessions counting_facts(4)]) simp_all
  let ?s0 = "forked_state sample_process d"
  have m: "fork_main (guest_open counting_platform 0 (probed (7, 0x2000) 0x1000 no_devices) 0) (guest_release counting_platform) 42
      sample_process (None, counting_guest) = Some (Inr ?s0)"
    by (simp add: fork_main_def d)
  have r: "\<forall>w. 0 \<le> ur_open ((\<lambda>_ :: who. sample_urandom) w) \<and> ur_read ((\<lambda>_ :: who. sample_urandom) w) \<noteq> None"
    by (simp add: counting_facts)
  have run: "n \<le> 14 \<and> ((\<exists>s'. ?step s s') \<or> (\<forall>w. pcs s w = T_done 0)
      \<and> (\<exists>h. host (snd (shared s)) = os_close (hos counting_platform) (word_of_int 3) h))" if "(?step ^^ n) ?s0 s" for n s
    using fork_test_on_guest [OF counting_platform_ample order_refl counting_facts(1-3) _ _ counting_sessions counting_facts(4) _
        counting_facts(5) r _ m that] by auto
  then obtain n s where s: "(?step ^^ n) ?s0 s" "\<nexists>s'. ?step s s'"
    using bounded_run_ends [of ?step ?s0 14] by blast
  have "os_close (hos counting_platform) (word_of_int 3) h = (fst h, Map.empty)" for h
    by (simp add: counting_platform_def counting_os_def)
  then have "host (snd (shared s)) = (fst (host (snd (shared s))), Map.empty)" using run [OF s(1)] s(2) by auto
  then show ?thesis using run [OF s(1)] s m by blast
qed

end
