(* ===== verification/CryptoSpec.thy ===== *)
theory CryptoSpec
  imports CryptoTestGuest
begin

text \<open>
  What \<open>/dev/crypto\<close> promises, as an abstract machine: a store of sessions, each with its key, that
  enciphers the memory of its callers. Every device that keeps the contract of the tests implements it
  against any client, so does the guest's driver.
\<close>

section \<open>The store\<close>

text \<open>The ioctls on a store of keys by session id, with the caller's memory before and after the call.\<close>

type_synonym store = "u32 \<rightharpoonup> u8 list"

inductive spec_call ::
  "(u8 list \<Rightarrow> u8 list \<Rightarrow> u8 list \<Rightarrow> u8 list) \<Rightarrow> (u8 list \<Rightarrow> u8 list \<Rightarrow> u8 list \<Rightarrow> u8 list)
     \<Rightarrow> store \<Rightarrow> u32 \<Rightarrow> addr \<Rightarrow> user_mem \<Rightarrow> user_mem \<Rightarrow> store \<Rightarrow> bool"
  for E D
where
  create: "um_session u arg = Some x \<Longrightarrow> user_read u (key x) (unat (keylen x)) = Some k \<Longrightarrow> tbl (ses x') = None \<Longrightarrow>
    spec_call E D tbl CIOCGSESSION arg u (u\<lparr>um_session := (um_session u)(arg \<mapsto> x')\<rparr>) (tbl(ses x' \<mapsto> k))"
| operate: "um_crypt u arg = Some c \<Longrightarrow> tbl (op_ses c) = Some k \<Longrightarrow>
    user_read u (op_src c) (unat (op_len c)) = Some src \<Longrightarrow> user_read u (op_iv c) 16 = Some iv \<Longrightarrow>
    spec_call E D tbl CIOCCRYPT arg u
      (place_bytes (op_dst c) (if op_code c = COP_ENCRYPT then E k iv src else D k iv src) u) tbl"
| finish: "um_u32 u arg = Some i \<Longrightarrow> tbl i \<noteq> None \<Longrightarrow>
    spec_call E D tbl CIOCFSESSION arg u u (tbl(i := None))"

text \<open>What a caller has to see to.\<close>

definition legal :: "store \<Rightarrow> u32 \<Rightarrow> addr \<Rightarrow> user_mem \<Rightarrow> bool" where
  "legal tbl cmd arg u \<longleftrightarrow>
     (cmd = CIOCGSESSION \<and> (\<exists>x k. um_session u arg = Some x \<and> cipher x = CRYPTO_AES_CBC
        \<and> user_read u (key x) (unat (keylen x)) = Some k \<and> length k \<in> {16, 24, 32}))
     \<or> (cmd = CIOCCRYPT \<and> (\<exists>c src iv. um_crypt u arg = Some c \<and> tbl (op_ses c) \<noteq> None
        \<and> 0 < sint (op_len c) \<and> 16 dvd unat (op_len c) \<and> user_read u (op_src c) (unat (op_len c)) = Some src
        \<and> user_read u (op_iv c) 16 = Some iv \<and> mapped u (op_dst c) (unat (op_len c))
        \<and> (op_code c = COP_ENCRYPT \<or> op_code c = COP_DECRYPT)))
     \<or> (cmd = CIOCFSESSION \<and> (\<exists>i. um_u32 u arg = Some i \<and> tbl i \<noteq> None))"

section \<open>Clients\<close>

text \<open>
  A client decides from the calls so far, with their results and the memory they have left, what to call
  next and with which memory: one process that works with the answers, or any number of processes in
  any order.
\<close>

record io_call =
  c_cmd :: u32
  c_arg :: addr
  c_mem :: user_mem
  c_ret :: int
  c_after :: user_mem

type_synonym client = "io_call list \<Rightarrow> (u32 \<times> addr \<times> user_mem) option"

text \<open>At most \<open>n\<close> calls of the client on a device.\<close>

primrec drive :: "'d ioctl_fun \<Rightarrow> client \<Rightarrow> nat \<Rightarrow> io_call list \<Rightarrow> 'd \<Rightarrow> (io_call list \<times> 'd) option" where
  "drive io client 0 h d = Some (h, d)"
| "drive io client (Suc n) h d =
     (case client h of
        None \<Rightarrow> Some (h, d)
      | Some (cmd, arg, u) \<Rightarrow> do {
          (r, u', d') \<leftarrow> io cmd arg u d;
          drive io client n (h @ [\<lparr>c_cmd = cmd, c_arg = arg, c_mem = u, c_ret = r, c_after = u'\<rparr>]) d'
        })"

text \<open>The client on the store, where every call succeeds; and a client that keeps to the rules there.\<close>

inductive spec_trace ::
  "(u8 list \<Rightarrow> u8 list \<Rightarrow> u8 list \<Rightarrow> u8 list) \<Rightarrow> (u8 list \<Rightarrow> u8 list \<Rightarrow> u8 list \<Rightarrow> u8 list)
     \<Rightarrow> client \<Rightarrow> store \<Rightarrow> io_call list \<Rightarrow> store \<Rightarrow> bool"
  for E D client tbl0
where
  start: "spec_trace E D client tbl0 [] tbl0"
| call: "spec_trace E D client tbl0 h tbl \<Longrightarrow> client h = Some (cmd, arg, u) \<Longrightarrow>
    spec_call E D tbl cmd arg u u' tbl' \<Longrightarrow>
    spec_trace E D client tbl0 (h @ [\<lparr>c_cmd = cmd, c_arg = arg, c_mem = u, c_ret = 0, c_after = u'\<rparr>]) tbl'"

definition lawful ::
  "(u8 list \<Rightarrow> u8 list \<Rightarrow> u8 list \<Rightarrow> u8 list) \<Rightarrow> (u8 list \<Rightarrow> u8 list \<Rightarrow> u8 list \<Rightarrow> u8 list) \<Rightarrow> store \<Rightarrow> client \<Rightarrow> bool"
where
  "lawful E D tbl0 client \<longleftrightarrow> (\<forall>h tbl. spec_trace E D client tbl0 h tbl \<longrightarrow>
     (case client h of None \<Rightarrow> True | Some (cmd, arg, u) \<Rightarrow> legal tbl cmd arg u))"

section \<open>Every session device implements the store\<close>

context session_device
begin

text \<open>One call: the device answers 0 and does what the store does.\<close>

lemma legal_call:
  assumes "good d" "legal (keys d) cmd arg u" "0 < room d"
  shows "\<exists>u' d'. io cmd arg u d = Some (0, u', d') \<and> spec_call E D (keys d) cmd arg u u' (keys d')
    \<and> good d' \<and> room d \<le> Suc (room d') \<and> held d' = kept cmd + held d"
proof -
  consider (create) x k where "cmd = CIOCGSESSION" "um_session u arg = Some x" "cipher x = CRYPTO_AES_CBC"
      "user_read u (key x) (unat (keylen x)) = Some k" "length k \<in> {16, 24, 32}"
    | (operate) c k src iv where "cmd = CIOCCRYPT" "um_crypt u arg = Some c" "keys d (op_ses c) = Some k"
      "0 < sint (op_len c)" "16 dvd unat (op_len c)" "user_read u (op_src c) (unat (op_len c)) = Some src"
      "user_read u (op_iv c) 16 = Some iv" "mapped u (op_dst c) (unat (op_len c))"
      "op_code c = COP_ENCRYPT \<or> op_code c = COP_DECRYPT"
    | (finish) i where "cmd = CIOCFSESSION" "um_u32 u arg = Some i" "keys d i \<noteq> None"
    using assms(2) unfolding legal_def by blast
  then show ?thesis
  proof cases
    case create
    from opens [OF assms(1,3) create(2-5)] show ?thesis
      using spec_call.create [OF create(2,4), where tbl = "keys d"] create(1) by metis
  next
    case operate
    from crypts [OF assms(1) operate(2-9)] show ?thesis
      using spec_call.operate [where tbl = "keys d", OF operate(2,3,6,7)] operate(1) by (metis le_SucI)
  next
    case finish
    from closes [OF assms(1) finish(2,3)] show ?thesis
      using spec_call.finish [where tbl = "keys d", OF finish(2,3)] finish(1) by (metis le_SucI)
  qed
qed

lemma drive_refines:
  assumes "lawful E D tbl0 client"
  shows "good d \<Longrightarrow> n \<le> room d \<Longrightarrow> spec_trace E D client tbl0 h (keys d) \<Longrightarrow>
    \<exists>h' d'. drive io client n h d = Some (h @ h', d') \<and> spec_trace E D client tbl0 (h @ h') (keys d') \<and> good d'
      \<and> held d' = sum_list (map (\<lambda>c. kept (c_cmd c)) h') + held d"
proof (induction n arbitrary: h d)
  case 0
  then show ?case by (intro exI [of _ "[]"]) simp
next
  case (Suc n)
  show ?case
  proof (cases "client h")
    case None
    then show ?thesis using Suc.prems by (intro exI [of _ "[]"]) simp
  next
    case (Some q)
    obtain cmd arg u where q: "client h = Some (cmd, arg, u)" using Some by (metis prod_cases3)
    then have "legal (keys d) cmd arg u" using assms Suc.prems(3) by (fastforce simp: lawful_def)
    then obtain u' d1 where call: "io cmd arg u d = Some (0, u', d1)" "spec_call E D (keys d) cmd arg u u' (keys d1)"
      "good d1" "room d \<le> Suc (room d1)" "held d1 = kept cmd + held d"
      using legal_call [OF Suc.prems(1)] Suc.prems(2) by fastforce
    let ?c = "\<lparr>c_cmd = cmd, c_arg = arg, c_mem = u, c_ret = 0, c_after = u'\<rparr>"
    have "spec_trace E D client tbl0 (h @ [?c]) (keys d1)" by (rule spec_trace.call [OF Suc.prems(3) q call(2)])
    from Suc.IH [OF call(3) _ this] obtain h' d' where
      "drive io client n (h @ [?c]) d1 = Some ((h @ [?c]) @ h', d')" "spec_trace E D client tbl0 ((h @ [?c]) @ h') (keys d')"
      "good d'" "held d' = sum_list (map (\<lambda>c. kept (c_cmd c)) h') + held d1"
      using Suc.prems(2) call(4) by fastforce
    then show ?thesis using q call(1,5) by (intro exI [of _ "?c # h'"] exI [of _ d']) (simp add: ac_simps)
  qed
qed

end

section \<open>Properties\<close>

text \<open>C5: the guest's \<open>/dev/crypto\<close> implements the store of sessions. Any client, one process or many in any
  order, that keeps to the rules of the store and whose calls the host has room for, is answered on
  every call; each answer is 0 and leaves in the caller's memory what the store would, the sessions
  on the host are the sessions of the store, and the file stays usable. What the kernel has lost is what
  each ioctl leaks.\<close>

theorem guest_refines_store:
  assumes "good_file K fd hgood hkeys hroom E D d" "n \<le> hroom (host (snd d))"
    and "lawful E D (hkeys (host (snd d))) client"
  shows "\<exists>h d'. drive (guest_ioctl K) client n [] d = Some (h, d')
    \<and> spec_trace E D client (hkeys (host (snd d))) h (hkeys (host (snd d')))
    \<and> good_file K fd hgood hkeys hroom E D d'
    \<and> live (snd d') = sum_list (map (\<lambda>c. leaked (c_cmd c)) h) + live (snd d)"
  using guest_file.drive_refines [OF assms(3,1,2) spec_trace.start] by simp

text \<open>A client: it creates a session, enciphers a block with the id it has got, and finishes the session.\<close>

definition block_mem :: user_mem where
  "block_mem = \<lparr>um_bytes = (\<lambda>_. Some 5),
     um_session = [0x10 \<mapsto> \<lparr>cipher = CRYPTO_AES_CBC, mac = 0, keylen = 16, key = 0x1000, mackeylen = 0, mackey = 0, ses = 0\<rparr>],
     um_u32 = Map.empty, um_crypt = Map.empty\<rparr>"

definition block_op :: "u32 \<Rightarrow> crypt_op" where
  "block_op i = \<lparr>op_ses = i, op_code = COP_ENCRYPT, op_flags = 0, op_len = 16, op_src = 0x2000, op_dst = 0x3000,
     op_mac = 0, op_iv = 0x4000\<rparr>"

fun block_client :: client where
  "block_client [] = Some (CIOCGSESSION, 0x10, block_mem)"
| "block_client [a] = map_option (\<lambda>x. (CIOCCRYPT, 0x20, block_mem\<lparr>um_crypt := [0x20 \<mapsto> block_op (ses x)]\<rparr>))
     (um_session (c_after a) 0x10)"
| "block_client [a, b] = map_option (\<lambda>x. (CIOCFSESSION, 0x30, block_mem\<lparr>um_u32 := [0x30 \<mapsto> ses x]\<rparr>))
     (um_session (c_after a) 0x10)"
| "block_client _ = None"

lemma all_fives: "um_bytes u = (\<lambda>_. Some 5) \<Longrightarrow> user_read u p n = Some (replicate n 5)"
  using user_read_bytes [of "replicate n 5" u p] by simp

lemma spec_trace_NilD: "spec_trace E D client tbl0 [] tbl \<Longrightarrow> tbl = tbl0"
  by (erule spec_trace.cases) simp_all

lemma spec_trace_snocD:
  assumes "spec_trace E D client tbl0 (h @ [a]) tbl"
  obtains tbl1 where "spec_trace E D client tbl0 h tbl1" "client h = Some (c_cmd a, c_arg a, c_mem a)"
    "spec_call E D tbl1 (c_cmd a) (c_arg a) (c_mem a) (c_after a) tbl"
  using assms by (cases rule: spec_trace.cases) auto

lemma block_created:
  assumes "spec_trace E D block_client tbl0 [a] tbl"
  obtains x k where "um_session (c_after a) 0x10 = Some x" "tbl (ses x) = Some k"
proof -
  from assms have "spec_trace E D block_client tbl0 ([] @ [a]) tbl" by simp
  then obtain tbl1 where "c_cmd a = CIOCGSESSION" "c_arg a = 0x10" "spec_call E D tbl1 (c_cmd a) (c_arg a) (c_mem a) (c_after a) tbl"
    by (rule spec_trace_snocD) simp
  then show thesis using that by (auto elim!: spec_call.cases)
qed

lemma block_client_lawful: "lawful E D tbl0 block_client"
  unfolding lawful_def
proof (intro allI impI)
  fix h tbl
  assume tr: "spec_trace E D block_client tbl0 h tbl"
  consider (first) "h = []" | (second) a where "h = [a]" | (third) a b where "h = [a, b]" | (over) "block_client h = None"
    by (cases h rule: block_client.cases) auto
  then show "case block_client h of None \<Rightarrow> True | Some (cmd, arg, u) \<Rightarrow> legal tbl cmd arg u"
  proof cases
    case first
    then show ?thesis by (simp add: legal_def all_fives block_mem_def)
  next
    case second
    then obtain x k where "um_session (c_after a) 0x10 = Some x" "tbl (ses x) = Some k" using block_created tr by blast
    then show ?thesis
      unfolding second by (simp add: legal_def all_fives block_mem_def block_op_def mapped_def)
  next
    case third
    with tr have "spec_trace E D block_client tbl0 ([a] @ [b]) tbl" by simp
    then obtain tbl1 where b: "spec_trace E D block_client tbl0 [a] tbl1" "block_client [a] = Some (c_cmd b, c_arg b, c_mem b)"
      "spec_call E D tbl1 (c_cmd b) (c_arg b) (c_mem b) (c_after b) tbl" by (rule spec_trace_snocD)
    obtain x k where x: "um_session (c_after a) 0x10 = Some x" "tbl1 (ses x) = Some k" using block_created b(1) by blast
    then have "c_cmd b = CIOCCRYPT" using b(2) by simp
    then have "tbl = tbl1" using b(3) by (auto elim!: spec_call.cases)
    then show ?thesis using x unfolding third by (simp add: legal_def)
  qed simp
qed

lemma guest_refines_store_witness:
  "\<exists>h d'. drive (guest_ioctl counting_platform) block_client 3 []
      (Some \<lparr>crof_dev = 0, crof_fd = 3\<rparr>, counting_guest\<lparr>live := {#K_crof#}\<rparr>) = Some (h, d')
    \<and> spec_trace key_flip key_flip block_client Map.empty h (snd (host (snd d')))"
proof -
  let ?d = "(Some \<lparr>crof_dev = 0, crof_fd = 3\<rparr>, counting_guest\<lparr>live := {#K_crof#}\<rparr>) :: (nat \<times> (u32 \<rightharpoonup> u8 list)) opened"
  have g: "host (snd ?d) = (1, Map.empty)" by (simp add: counting_guest_def)
  have good: "good_file counting_platform (word_of_int 3) counting_good snd (\<lambda>h. 2 ^ 32 - fst h) key_flip key_flip ?d"
    using counting_platform_ample counting_sessions counting_facts(4) g by (simp add: good_file_def)
  have room: "3 \<le> 2 ^ 32 - fst (host (snd ?d))" unfolding g by simp
  have "snd (host (snd ?d)) = Map.empty" unfolding g by simp
  from guest_refines_store [OF good room block_client_lawful, unfolded this] show ?thesis by blast
qed

end
