(* ===== verification/HostDevice.thy ===== *)
theory HostDevice
  imports Virtio
begin

text \<open>
  The host's device as QEMU sees it, \<open>qemu_driver/virtio-cryptodev.c\<close> around its request handler: the
  callbacks of the device class, its initialization and the realization of a device. QEMU's own
  functions are parameters.
\<close>

section \<open>Callbacks\<close>

text \<open>A handler of a queue, and the functions of QEMU that realization calls: \<open>virtio_init\<close> with the name,
  the virtio id and the size of the configuration, and \<open>virtio_add_queue\<close> with the queue's size.\<close>

type_synonym 'h queue_handler = "request \<Rightarrow> 'h \<Rightarrow> (bool \<times> request \<times> 'h) option"

record ('v, 'h) qemu =
  virtio_init :: "'v \<Rightarrow> string \<Rightarrow> nat \<Rightarrow> nat \<Rightarrow> 'v"
  virtio_add_queue :: "'v \<Rightarrow> nat \<Rightarrow> 'h queue_handler \<Rightarrow> 'v"
  id_cryptodev :: nat

definition get_features :: "'v \<Rightarrow> 64 word \<Rightarrow> 64 word" where
  "get_features d features = features"

definition get_config :: "'v \<Rightarrow> u8 list \<Rightarrow> u8 list" where
  "get_config d config_data = config_data"

definition set_config :: "'v \<Rightarrow> u8 list \<Rightarrow> 'v" where
  "set_config d config_data = d"

definition set_status :: "'v \<Rightarrow> u8 \<Rightarrow> 'v" where
  "set_status d status = d"

definition vser_reset :: "'v \<Rightarrow> 'v" where
  "vser_reset d = d"

definition virtio_cryptodev_realize :: "('v, 'h) qemu \<Rightarrow> 'h queue_handler \<Rightarrow> 'v \<Rightarrow> 'v" where
  "virtio_cryptodev_realize Q handler d =
     (let d = virtio_init Q d ''virtio-cryptodev'' (id_cryptodev Q) 0
      in virtio_add_queue Q d 128 handler)"

definition virtio_cryptodev_unrealize :: "'v \<Rightarrow> 'v" where
  "virtio_cryptodev_unrealize d = d"

section \<open>The class\<close>

text \<open>\<open>DeviceClass\<close> and \<open>VirtioDeviceClass\<close> in one: the properties, the categories as a bit map and the
  callbacks. \<open>DEVICE_CATEGORY_INPUT\<close> is a constant of QEMU, an argument.\<close>

record 'v device_class =
  props :: "string list"
  categories :: "64 word"
  c_realize :: "'v \<Rightarrow> 'v"
  c_unrealize :: "'v \<Rightarrow> 'v"
  c_get_features :: "'v \<Rightarrow> 64 word \<Rightarrow> 64 word"
  c_get_config :: "'v \<Rightarrow> u8 list \<Rightarrow> u8 list"
  c_set_config :: "'v \<Rightarrow> u8 list \<Rightarrow> 'v"
  c_set_status :: "'v \<Rightarrow> u8 \<Rightarrow> 'v"
  c_reset :: "'v \<Rightarrow> 'v"

definition virtio_cryptodev_properties :: "string list" where
  "virtio_cryptodev_properties = []"

definition virtio_cryptodev_class_init ::
  "('v, 'h) qemu \<Rightarrow> 'h queue_handler \<Rightarrow> nat \<Rightarrow> 'v device_class \<Rightarrow> 'v device_class"
where
  "virtio_cryptodev_class_init Q handler input_category k =
     k\<lparr>props := virtio_cryptodev_properties,
       categories := set_bit input_category (categories k),
       c_realize := virtio_cryptodev_realize Q handler,
       c_unrealize := virtio_cryptodev_unrealize,
       c_get_features := get_features,
       c_get_config := get_config,
       c_set_config := set_config,
       c_set_status := set_status,
       c_reset := vser_reset\<rparr>"

text \<open>
  A device of the class, in a QEMU that keeps its queues in the order they are added: it has one queue, of
  128 elements, whose handler is the one given; and that is still so after any writes of the configuration,
  status changes and resets, such as the removal of the guest's driver makes.
\<close>

datatype device_call = Configure "u8 list" | Change_status u8 | Reset

fun apply_call :: "'v device_class \<Rightarrow> device_call \<Rightarrow> 'v \<Rightarrow> 'v" where
  "apply_call k (Configure cfg) d = c_set_config k d cfg"
| "apply_call k (Change_status st) d = c_set_status k d st"
| "apply_call k Reset d = c_reset k d"

lemma apply_call_keeps: "apply_call (virtio_cryptodev_class_init Q handler i k) c d = d"
  by (cases c) (simp_all add: virtio_cryptodev_class_init_def set_config_def set_status_def vser_reset_def)

lemma realized_device_serves:
  assumes "\<And>d nm i n. queues (virtio_init Q d nm i n) = []"
    and "\<And>d n h. queues (virtio_add_queue Q d n h) = queues d @ [(n, h)]"
    and "k = virtio_cryptodev_class_init Q (vq_handle_output pop H B) input_category k0"
  shows "queues (fold (apply_call k) cs (c_realize k d)) = [(128, vq_handle_output pop H B)]"
proof -
  have "fold (apply_call k) cs x = x" for x unfolding assms(3) by (induction cs) (simp_all add: apply_call_keeps)
  then show ?thesis
    by (simp add: assms virtio_cryptodev_class_init_def virtio_cryptodev_realize_def Let_def)
qed

end
