(* ===== verification/CLayout.thy ===== *)
theory CLayout
  imports Prelude
begin

text \<open>
  How C lays out its types on the 64-bit machines that the programs run on: sizes, alignments and the
  places of the fields of a structure; integers as little-endian bytes; reading and writing a field in
  the bytes of a structure.
\<close>

section \<open>Types\<close>

datatype ctype = C_u8 | C_u16 | C_u32 | C_ptr | C_array nat ctype | C_struct "(string \<times> ctype) list"

definition align_up :: "nat \<Rightarrow> nat \<Rightarrow> nat" where
  "align_up n a = (n + a - 1) div a * a"

fun alignof :: "ctype \<Rightarrow> nat" and align_fields :: "(string \<times> ctype) list \<Rightarrow> nat" where
  "alignof C_u8 = 1"
| "alignof C_u16 = 2"
| "alignof C_u32 = 4"
| "alignof C_ptr = 8"
| "alignof (C_array n t) = alignof t"
| "alignof (C_struct fs) = align_fields fs"
| "align_fields [] = 1"
| "align_fields ((f, t) # fs) = max (alignof t) (align_fields fs)"

text \<open>A structure has room for its fields, each at the next aligned place, and padding up to a multiple
  of its own alignment.\<close>

fun sizeof :: "ctype \<Rightarrow> nat" and fields_end :: "nat \<Rightarrow> (string \<times> ctype) list \<Rightarrow> nat" where
  "sizeof C_u8 = 1"
| "sizeof C_u16 = 2"
| "sizeof C_u32 = 4"
| "sizeof C_ptr = 8"
| "sizeof (C_array n t) = n * sizeof t"
| "sizeof (C_struct fs) = align_up (fields_end 0 fs) (align_fields fs)"
| "fields_end n [] = n"
| "fields_end n ((f, t) # fs) = fields_end (align_up n (alignof t) + sizeof t) fs"

fun places :: "nat \<Rightarrow> (string \<times> ctype) list \<Rightarrow> (string \<times> nat \<times> ctype) list" where
  "places n [] = []"
| "places n ((f, t) # fs) = (let p = align_up n (alignof t) in (f, p, t) # places (p + sizeof t) fs)"

fun offsetof :: "ctype \<Rightarrow> string \<Rightarrow> nat option" where
  "offsetof (C_struct fs) f = map_option fst (map_of (places 0 fs) f)"
| "offsetof _ f = None"

text \<open>Alignments are powers of two up to 8, so that of two one divides the other.\<close>

lemma alignof_range: "alignof t \<in> {1, 2, 4, 8}" "align_fields fs \<in> {1, 2, 4, 8}"
  by (induction t and fs rule: alignof_align_fields.induct) (auto simp: max_def)

lemma alignof_pos [simp]: "0 < alignof t" "0 < align_fields fs"
  using alignof_range(1) [of t] alignof_range(2) [of fs] by auto

lemma small_dvd:
  fixes a b :: nat
  assumes "a \<le> b" "a \<in> {1, 2, 4, 8}" "b \<in> {1, 2, 4, 8}"
  shows "a dvd b"
  using assms by auto

lemma align_up_dvd [simp]: "a dvd align_up n a"
  by (simp add: align_up_def)

lemma align_up_ge: "0 < a \<Longrightarrow> n \<le> align_up n a"
proof -
  assume a: "0 < a"
  have "n + a - 1 < (n + a - 1) div a * a + a" using a dividend_less_div_times [of a "n + a - 1"] by simp
  then show ?thesis unfolding align_up_def using a by linarith
qed

lemma align_up_aligned: "a dvd n \<Longrightarrow> 0 < a \<Longrightarrow> align_up n a = n"
proof -
  assume "a dvd n" "0 < a"
  then obtain k where "n = k * a" by (metis dvd_mult_div_cancel mult.commute)
  then have "(n + a - 1) div a = k"
    using \<open>0 < a\<close> div_mult_self3 [of a k "a - 1"] by (simp add: ac_simps)
  then show ?thesis by (simp add: align_up_def \<open>n = k * a\<close>)
qed

lemma field_align: "(f, t) \<in> set fs \<Longrightarrow> alignof t \<le> align_fields fs"
  by (induction fs) (auto simp: max_def)

text \<open>In an array of any type every element is aligned, because sizes are multiples of alignments.\<close>

lemma alignof_dvd_sizeof: "alignof t dvd sizeof t"
proof (induction t)
  case (C_array n t)
  then show ?case by simp
qed simp_all

lemma fields_end_ge: "n \<le> fields_end n fs"
proof (induction fs arbitrary: n)
  case (Cons x fs)
  obtain g u where x: "x = (g, u)" by (cases x)
  have "n \<le> align_up n (alignof u)" by (rule align_up_ge) simp
  with Cons.IH [of "align_up n (alignof u) + sizeof u"] show ?case by (simp add: x)
qed simp

lemma places_from:
  "(f, p, t) \<in> set (places n fs) \<Longrightarrow> n \<le> p \<and> alignof t dvd p \<and> p + sizeof t \<le> fields_end n fs"
proof (induction fs arbitrary: n)
  case (Cons x fs)
  obtain g u where x: "x = (g, u)" by (cases x)
  let ?p = "align_up n (alignof u)"
  have n: "n \<le> ?p" by (rule align_up_ge) simp
  from Cons.prems consider "p = ?p" "t = u" | "(f, p, t) \<in> set (places (?p + sizeof u) fs)" by (auto simp: x Let_def)
  then show ?case
  proof cases
    case 1
    then show ?thesis using n fields_end_ge [of "?p + sizeof u" fs] by (simp add: x)
  next
    case 2
    then show ?thesis using n Cons.IH [OF 2] by (simp add: x)
  qed
qed simp

text \<open>The fields of a structure: aligned, inside, and one after the other.\<close>

lemma struct_fields:
  assumes "(f, p, t) \<in> set (places 0 fs)"
  shows "alignof t dvd p \<and> p + sizeof t \<le> sizeof (C_struct fs)"
  using places_from [OF assms] align_up_ge [of "align_fields fs" "fields_end 0 fs"] by simp

lemma fields_apart: "sorted_wrt (\<lambda>(_, p, t) (_, q, _). p + sizeof t \<le> q) (places n fs)"
proof (induction fs arbitrary: n)
  case (Cons x fs)
  obtain g u where x: "x = (g, u)" by (cases x)
  show ?case using Cons.IH places_from by (auto simp: x Let_def)
qed simp

section \<open>Little-endian integers\<close>

fun le_bytes :: "nat \<Rightarrow> 'a::len word \<Rightarrow> u8 list" where
  "le_bytes 0 w = []"
| "le_bytes (Suc n) w = ucast w # le_bytes n (drop_bit 8 w)"

fun le_word :: "u8 list \<Rightarrow> 'a::len word" where
  "le_word [] = 0"
| "le_word (b # bs) = ucast b OR push_bit 8 (le_word bs)"

lemma length_le_bytes [simp]: "length (le_bytes n w) = n"
  by (induction n arbitrary: w) simp_all

lemma le_word_bytes: "le_word (le_bytes n w) = take_bit (8 * n) w"
proof (induction n arbitrary: w)
  case (Suc n)
  show ?case
    by (rule bit_word_eqI) (auto simp: Suc bit_simps)
qed simp

lemma le_word_below: "bit (le_word bs :: 'a::len word) i \<Longrightarrow> i < 8 * length bs"
proof (induction bs arbitrary: i)
  case (Cons c cs)
  from Cons.prems consider "bit c i" | "8 \<le> i" "bit (le_word cs :: 'a word) (i - 8)"
    by (auto simp: bit_simps)
  then show ?case
  proof cases
    case 1
    then show ?thesis using bit_imp_le_length [of c i] by simp
  next
    case 2
    then show ?thesis using Cons.IH [of "i - 8"] by simp
  qed
qed simp

text \<open>A shorter word of the same bytes is the lower part.\<close>

lemma le_word_bit: "i < LENGTH('a) \<Longrightarrow> bit (le_word bs :: 'a::len word) i \<longleftrightarrow> i div 8 < length bs \<and> bit (bs ! (i div 8)) (i mod 8)"
proof (induction bs arbitrary: i)
  case (Cons c cs)
  show ?case
  proof (cases "i < 8")
    case True
    then show ?thesis using Cons.prems by (simp add: bit_simps)
  next
    case False
    then obtain j where j: "i = 8 + j" by (metis add_diff_inverse_nat)
    have "\<not> bit c i" using bit_imp_le_length [of c i] False by auto
    moreover have "i div 8 = Suc (j div 8)" "i mod 8 = j mod 8" unfolding j by simp_all
    ultimately show ?thesis using Cons.IH [of j] Cons.prems by (simp add: bit_simps j)
  qed
qed simp

lemma ucast_le_word:
  assumes "LENGTH('b::len) = 8 * n" "LENGTH('b) \<le> LENGTH('a::len)"
  shows "(ucast (le_word bs :: 'a word) :: 'b word) = le_word (take n bs)"
proof (rule bit_word_eqI)
  fix i assume i: "i < LENGTH('b)"
  then have "i div 8 < n" using assms(1) by (simp add: div_less_iff_less_mult)
  then show "bit (ucast (le_word bs :: 'a word) :: 'b word) i = bit (le_word (take n bs) :: 'b word) i"
    using i assms le_word_bit [of i bs, where ?'a = 'a] le_word_bit [of i "take n bs", where ?'a = 'b]
    by (simp add: bit_simps)
qed

lemma le_word_Cons:
  fixes b :: u8
  assumes "8 * Suc (length bs) \<le> LENGTH('a::len)"
  shows "ucast (le_word (b # bs) :: 'a word) = b" "drop_bit 8 (le_word (b # bs) :: 'a word) = le_word bs"
proof -
  show "ucast (le_word (b # bs) :: 'a word) = b"
    using assms by (intro bit_word_eqI) (auto simp: bit_simps)
  show "drop_bit 8 (le_word (b # bs) :: 'a word) = le_word bs"
  proof (rule bit_word_eqI)
    fix i assume i: "i < LENGTH('a)"
    have "\<not> bit b (8 + i)" using bit_imp_le_length [of b "8 + i"] by auto
    moreover have "8 + i < LENGTH('a)" if "bit (le_word bs :: 'a word) i" using le_word_below [OF that] assms by simp
    ultimately show "bit (drop_bit 8 (le_word (b # bs) :: 'a word)) i = bit (le_word bs :: 'a word) i"
      by (auto simp: bit_simps)
  qed
qed

lemma le_bytes_word:
  assumes "8 * length bs \<le> LENGTH('a::len)"
  shows "le_bytes (length bs) (le_word bs :: 'a word) = bs"
  using assms
proof (induction bs)
  case (Cons b bs)
  then show ?case using le_word_Cons [of bs b, where ?'a = 'a] by (simp del: le_word.simps)
qed simp

section \<open>Fields in memory\<close>

text \<open>The bytes of a structure: those of a field, and a store to it.\<close>

definition peek :: "nat \<Rightarrow> nat \<Rightarrow> u8 list \<Rightarrow> 'a::len word" where
  "peek p n b = le_word (take n (drop p b))"

definition poke :: "nat \<Rightarrow> u8 list \<Rightarrow> u8 list \<Rightarrow> u8 list" where
  "poke p bs b = take p b @ bs @ drop (p + length bs) b"

lemma length_poke [simp]: "p + length bs \<le> length b \<Longrightarrow> length (poke p bs b) = length b"
  by (simp add: poke_def)

lemma take_drop_poke:
  assumes "p + length bs \<le> length b"
  shows "take (length bs) (drop p (poke p bs b)) = bs"
    and "q + n \<le> p \<or> p + length bs \<le> q \<Longrightarrow> take n (drop q (poke p bs b)) = take n (drop q b)"
proof -
  show "take (length bs) (drop p (poke p bs b)) = bs" using assms by (simp add: poke_def)
  assume apart: "q + n \<le> p \<or> p + length bs \<le> q"
  show "take n (drop q (poke p bs b)) = take n (drop q b)"
  proof (rule nth_equalityI)
    show len: "length (take n (drop q (poke p bs b))) = length (take n (drop q b))" using assms by simp
    fix i assume "i < length (take n (drop q (poke p bs b)))"
    then have i: "i < n" "q + i < length b" using len by auto
    then show "take n (drop q (poke p bs b)) ! i = take n (drop q b) ! i"
      using apart assms by (auto simp: poke_def nth_append)
  qed
qed

lemma nth_poke_other:
  "p + length bs \<le> length b \<Longrightarrow> i < p \<or> p + length bs \<le> i \<Longrightarrow> i < length b \<Longrightarrow> poke p bs b ! i = b ! i"
  by (auto simp: poke_def nth_append)

lemma peek_poke:
  assumes "p + n \<le> length b" "8 * n = LENGTH('a::len)"
  shows "peek p n (poke p (le_bytes n w) b) = (w :: 'a word)"
  using take_drop_poke(1) [of p "le_bytes n w" b] assms
  by (simp add: peek_def le_word_bytes take_bit_word_eq_self)

lemma peek_poke_other:
  assumes "p + length bs \<le> length b" "q + n \<le> p \<or> p + length bs \<le> q"
  shows "peek q n (poke p bs b) = peek q n b"
  unfolding peek_def using take_drop_poke(2) [OF assms] by simp

lemma poke_peek:
  assumes "p + n \<le> length b" "8 * n \<le> LENGTH('a::len)"
  shows "poke p (le_bytes n (peek p n b :: 'a word)) b = b"
proof -
  have "le_bytes n (peek p n b :: 'a word) = take n (drop p b)"
    using le_bytes_word [of "take n (drop p b)", where ?'a = 'a] assms by (simp add: peek_def)
  moreover have "take p b @ take n (drop p b) @ drop (p + n) b = b"
    by (metis append_take_drop_id drop_drop add.commute)
  ultimately show ?thesis using assms by (simp add: poke_def)
qed

end
