(* ===== verification/CryptodevApi.thy ===== *)
theory CryptodevApi
  imports CLayout CryptoGuest Chat
begin

text \<open>
  The interface that the crypto drivers and programs share, \<open>cryptodev.h\<close>: the numbers of algorithms,
  operations and flags, the layout of the structures, the ioctl commands with the size of their argument
  in them; the structures of the virtual device as bytes; and what the guest driver makes of the commands
  it does not implement. \<open>guest/cryptodev.h\<close> and \<open>encrypted_chat/cryptodev.h\<close> are the same up to
  the command CIOCCPHASH, which only the second one has.
\<close>

section \<open>Numbers\<close>

text \<open>Enumerators get the value that is written, the one of an earlier enumerator, or the next one.\<close>

datatype enum_init = Implicit | Is int | Same string

fun enum_values :: "(string \<times> int) list \<Rightarrow> int \<Rightarrow> (string \<times> enum_init) list \<Rightarrow> (string \<times> int) list" where
  "enum_values known n [] = known"
| "enum_values known n ((c, i) # cs) =
     (let v = (case i of Implicit \<Rightarrow> n | Is k \<Rightarrow> k | Same d \<Rightarrow> (case map_of known d of None \<Rightarrow> n | Some k \<Rightarrow> k))
      in enum_values (known @ [(c, v)]) (v + 1) cs)"

definition cryptodev_crypto_op_t :: "(string \<times> int) list" where
  "cryptodev_crypto_op_t = enum_values [] 0
     [(''CRYPTO_DES_CBC'', Is 1), (''CRYPTO_3DES_CBC'', Is 2), (''CRYPTO_BLF_CBC'', Is 3),
      (''CRYPTO_CAST_CBC'', Is 4), (''CRYPTO_SKIPJACK_CBC'', Is 5), (''CRYPTO_MD5_HMAC'', Is 6),
      (''CRYPTO_SHA1_HMAC'', Is 7), (''CRYPTO_RIPEMD160_HMAC'', Is 8), (''CRYPTO_MD5_KPDK'', Is 9),
      (''CRYPTO_SHA1_KPDK'', Is 10), (''CRYPTO_RIJNDAEL128_CBC'', Is 11),
      (''CRYPTO_AES_CBC'', Same ''CRYPTO_RIJNDAEL128_CBC''), (''CRYPTO_ARC4'', Is 12), (''CRYPTO_MD5'', Is 13),
      (''CRYPTO_SHA1'', Is 14), (''CRYPTO_DEFLATE_COMP'', Is 15), (''CRYPTO_NULL'', Is 16),
      (''CRYPTO_LZS_COMP'', Is 17), (''CRYPTO_SHA2_256_HMAC'', Is 18), (''CRYPTO_SHA2_384_HMAC'', Is 19),
      (''CRYPTO_SHA2_512_HMAC'', Is 20), (''CRYPTO_AES_CTR'', Is 21), (''CRYPTO_AES_XTS'', Is 22),
      (''CRYPTO_AES_ECB'', Is 23), (''CRYPTO_AES_GCM'', Is 50), (''CRYPTO_CAMELLIA_CBC'', Is 101),
      (''CRYPTO_RIPEMD160'', Implicit), (''CRYPTO_SHA2_224'', Implicit), (''CRYPTO_SHA2_256'', Implicit),
      (''CRYPTO_SHA2_384'', Implicit), (''CRYPTO_SHA2_512'', Implicit), (''CRYPTO_SHA2_224_HMAC'', Implicit),
      (''CRYPTO_ALGORITHM_ALL'', Implicit)]"

definition CRYPTO_ALGORITHM_MAX :: int where
  "CRYPTO_ALGORITHM_MAX = the (map_of cryptodev_crypto_op_t ''CRYPTO_ALGORITHM_ALL'') - 1"

text \<open>The numbers of a list of names and numbers.\<close>

definition block_lengths :: "(string \<times> nat) list" where
  "block_lengths =
     [(''DES_BLOCK_LEN'', 8), (''DES3_BLOCK_LEN'', 8), (''RIJNDAEL128_BLOCK_LEN'', 16), (''AES_BLOCK_LEN'', 16),
      (''CAMELLIA_BLOCK_LEN'', 16), (''BLOWFISH_BLOCK_LEN'', 8), (''SKIPJACK_BLOCK_LEN'', 8), (''CAST128_BLOCK_LEN'', 8)]"

definition EALG_MAX_BLOCK_LEN :: nat where "EALG_MAX_BLOCK_LEN = 16"

definition CRYPTODEV_MAX_ALG_NAME :: nat where "CRYPTODEV_MAX_ALG_NAME = 64"

definition cop_flags :: "(string \<times> u16) list" where
  "cop_flags =
     [(''COP_FLAG_NONE'', push_bit 0 0), (''COP_FLAG_UPDATE'', push_bit 0 1), (''COP_FLAG_FINAL'', push_bit 1 1),
      (''COP_FLAG_WRITE_IV'', push_bit 2 1), (''COP_FLAG_NO_ZC'', push_bit 3 1),
      (''COP_FLAG_AEAD_TLS_TYPE'', push_bit 4 1), (''COP_FLAG_AEAD_SRTP_TYPE'', push_bit 5 1),
      (''COP_FLAG_RESET'', push_bit 6 1)]"

definition cryptodev_crk_op_t :: "(string \<times> int) list" where
  "cryptodev_crk_op_t = enum_values [] 0
     [(''CRK_MOD_EXP'', Is 0), (''CRK_MOD_EXP_CRT'', Is 1), (''CRK_DSA_SIGN'', Is 2), (''CRK_DSA_VERIFY'', Is 3),
      (''CRK_DH_COMPUTE_KEY'', Is 4), (''CRK_ALGORITHM_ALL'', Implicit)]"

definition crf_features :: "(string \<times> u32) list" where
  "crf_features =
     map (\<lambda>(feature, op). (feature, push_bit (nat (the (map_of cryptodev_crk_op_t op))) 1))
       [(''CRF_MOD_EXP'', ''CRK_MOD_EXP''), (''CRF_MOD_EXP_CRT'', ''CRK_MOD_EXP_CRT''),
        (''CRF_DSA_SIGN'', ''CRK_DSA_SIGN''), (''CRF_DSA_VERIFY'', ''CRK_DSA_VERIFY''),
        (''CRF_DH_COMPUTE_KEY'', ''CRK_DH_COMPUTE_KEY'')]"

section \<open>Structures\<close>

definition struct_session_op :: ctype where
  "struct_session_op = C_struct
     [(''cipher'', C_u32), (''mac'', C_u32), (''keylen'', C_u32), (''key'', C_ptr), (''mackeylen'', C_u32),
      (''mackey'', C_ptr), (''ses'', C_u32)]"

definition struct_alg_info :: ctype where
  "struct_alg_info = C_struct
     [(''cra_name'', C_array CRYPTODEV_MAX_ALG_NAME C_u8), (''cra_driver_name'', C_array CRYPTODEV_MAX_ALG_NAME C_u8)]"

definition struct_session_info_op :: ctype where
  "struct_session_info_op = C_struct
     [(''ses'', C_u32), (''cipher_info'', struct_alg_info), (''hash_info'', struct_alg_info),
      (''alignmask'', C_u16), (''flags'', C_u32)]"

definition struct_crypt_op :: ctype where
  "struct_crypt_op = C_struct
     [(''ses'', C_u32), (''op'', C_u16), (''flags'', C_u16), (''len'', C_u32), (''src'', C_ptr), (''dst'', C_ptr),
      (''mac'', C_ptr), (''iv'', C_ptr)]"

definition struct_crypt_auth_op :: ctype where
  "struct_crypt_auth_op = C_struct
     [(''ses'', C_u32), (''op'', C_u16), (''flags'', C_u16), (''len'', C_u32), (''auth_len'', C_u32),
      (''auth_src'', C_ptr), (''src'', C_ptr), (''dst'', C_ptr), (''tag'', C_ptr), (''tag_len'', C_u32),
      (''iv'', C_ptr), (''iv_len'', C_u32)]"

definition struct_crparam :: ctype where
  "struct_crparam = C_struct [(''crp_p'', C_ptr), (''crp_nbits'', C_u32)]"

definition CRK_MAXPARAM :: nat where "CRK_MAXPARAM = 8"

definition struct_crypt_kop :: ctype where
  "struct_crypt_kop = C_struct
     [(''crk_op'', C_u32), (''crk_status'', C_u32), (''crk_iparams'', C_u16), (''crk_oparams'', C_u16),
      (''crk_pad1'', C_u32), (''crk_param'', C_array CRK_MAXPARAM struct_crparam)]"

definition struct_cphash_op :: ctype where
  "struct_cphash_op = C_struct [(''dst_ses'', C_u32), (''src_ses'', C_u32)]"

lemmas structs = struct_session_op_def struct_alg_info_def struct_session_info_op_def struct_crypt_op_def
  struct_crypt_auth_op_def struct_crparam_def struct_crypt_kop_def struct_cphash_op_def
  CRYPTODEV_MAX_ALG_NAME_def CRK_MAXPARAM_def

section \<open>Commands\<close>

definition IOW :: "u32 \<Rightarrow> ctype \<Rightarrow> u32" where "IOW nr t = IOC 1 (of_nat (sizeof t)) nr"
definition IOR :: "u32 \<Rightarrow> ctype \<Rightarrow> u32" where "IOR nr t = IOC 2 (of_nat (sizeof t)) nr"
definition IOWR :: "u32 \<Rightarrow> ctype \<Rightarrow> u32" where "IOWR nr t = IOC 3 (of_nat (sizeof t)) nr"

definition api_commands :: "(string \<times> u32) list" where
  "api_commands =
     [(''CRIOGET'', IOWR 101 C_u32), (''CIOCGSESSION'', IOWR 102 struct_session_op), (''CIOCFSESSION'', IOW 103 C_u32),
      (''CIOCCRYPT'', IOWR 104 struct_crypt_op), (''CIOCKEY'', IOWR 105 struct_crypt_kop), (''CIOCASYMFEAT'', IOR 106 C_u32),
      (''CIOCGSESSINFO'', IOWR 107 struct_session_info_op), (''CIOCAUTHCRYPT'', IOWR 109 struct_crypt_auth_op),
      (''CIOCASYNCCRYPT'', IOW 110 struct_crypt_op), (''CIOCASYNCFETCH'', IOR 111 struct_crypt_op)]"

definition CIOCCPHASH :: u32 where "CIOCCPHASH = IOW 112 struct_cphash_op"

definition supported :: "string set" where
  "supported = {''CIOCGSESSION'', ''CIOCFSESSION'', ''CIOCCRYPT''}"

section \<open>Lemmas\<close>

lemma align_up_numeral: "align_up (numeral n) (numeral a) = (numeral n + numeral a - 1) div numeral a * numeral a"
  by (simp only: align_up_def)

lemma sizes:
  "sizeof struct_session_op = 48" "sizeof struct_crypt_op = 48" "sizeof struct_session_info_op = 268"
  "sizeof struct_crypt_auth_op = 72" "sizeof struct_crypt_kop = 144" "sizeof struct_cphash_op = 8"
  by (simp_all add: structs align_up_def)

text \<open>The values of the constants that the other theories use.\<close>

lemma commands_as_modelled:
  "map_of api_commands ''CIOCGSESSION'' = Some CIOCGSESSION"
  "map_of api_commands ''CIOCFSESSION'' = Some CIOCFSESSION"
  "map_of api_commands ''CIOCCRYPT'' = Some CIOCCRYPT"
  by (simp_all add: api_commands_def IOWR_def IOW_def sizes CIOCGSESSION_def CIOCFSESSION_def CIOCCRYPT_def)

lemma aes_as_modelled: "map_of cryptodev_crypto_op_t ''CRYPTO_AES_CBC'' = Some (uint CRYPTO_AES_CBC)"
  by (simp add: cryptodev_crypto_op_t_def CRYPTO_AES_CBC_def)

text \<open>What the comments of the header promise: the largest block length, the largest number of an
  algorithm. Every algorithm has a number of its own, AES being a second name of Rijndael.\<close>

lemma largest_block: "Max (snd ` set block_lengths) = EALG_MAX_BLOCK_LEN"
  by (simp add: block_lengths_def EALG_MAX_BLOCK_LEN_def)

lemma algorithm_numbers:
  "\<forall>(c, n) \<in> set cryptodev_crypto_op_t. c \<noteq> ''CRYPTO_ALGORITHM_ALL'' \<longrightarrow> 1 \<le> n \<and> n \<le> CRYPTO_ALGORITHM_MAX"
  "distinct (map snd (filter (\<lambda>(c, n). c \<noteq> ''CRYPTO_AES_CBC'') cryptodev_crypto_op_t))"
  by (simp_all add: cryptodev_crypto_op_t_def CRYPTO_ALGORITHM_MAX_def)

lemma flags_apart: "i < 8 \<Longrightarrow> j < 8 \<Longrightarrow> i \<noteq> j \<Longrightarrow> snd (cop_flags ! i) AND snd (cop_flags ! j) = 0"
  by (cases i; cases j) (auto simp: cop_flags_def less_Suc_eq numeral_eq_Suc)

lemma command_values:
  "map snd api_commands = [0xC0046365, 0xC0306366, 0x40046367, 0xC0306368, 0xC0906369, 0x8004636A, 0xC10C636B,
     0xC048636D, 0x4030636E, 0x8030636F]" "CIOCCPHASH = 0x40086370"
  by (simp_all add: api_commands_def CIOCCPHASH_def IOW_def IOR_def IOWR_def sizes IOC_def)

text \<open>The commands are different, so that a switch on them tells them apart.\<close>

lemma commands_distinct: "distinct (map snd (api_commands @ [(''CIOCCPHASH'', CIOCCPHASH)]))"
  by (simp add: command_values)

lemma unsupported_number:
  assumes "(name, cmd) \<in> set (api_commands @ [(''CIOCCPHASH'', CIOCCPHASH)])" "name \<notin> supported"
  shows "cmd \<noteq> CIOCGSESSION \<and> cmd \<noteq> CIOCFSESSION \<and> cmd \<noteq> CIOCCRYPT"
proof -
  let ?all = "api_commands @ [(''CIOCCPHASH'', CIOCCPHASH)]"
  have other: "cmd \<noteq> c" if "map_of api_commands n = Some c" "n \<in> supported" for n c
  proof
    assume "cmd = c"
    then have n: "(n, cmd) \<in> set ?all" using map_of_SomeD [OF that(1)] by simp
    have inj: "inj_on snd (set ?all)" using commands_distinct by (rule distinct_map [THEN iffD1, THEN conjunct2])
    have "n = name" using inj_onD [OF inj _ n assms(1)] by simp
    then show False using assms(2) that(2) by simp
  qed
  show ?thesis using other commands_as_modelled by (auto simp: supported_def)
qed

text \<open>A command that is none of the three gets through both switches, with the common segments only.\<close>

lemma other_command:
  assumes "ample K" "cmd \<noteq> CIOCGSESSION" "cmd \<noteq> CIOCFSESSION" "cmd \<noteq> CIOCCRYPT"
  shows "\<exists>g'. crypto_chrdev_ioctl K (Some crof) cmd arg g = Some (0, g')
    \<and> host g' = host g \<and> um g' = um g \<and> live g' = {#K_sess, K_crypt#} + live g"
proof -
  have "vq_pop K (ioctl_request (crof_fd crof) cmd [] [])"
    unfolding ioctl_request_def using assms(1) by (rule ample_pop) auto
  then have "exchange K (ioctl_request (crof_fd crof) cmd [] []) x = Some (ioctl_request (crof_fd crof) cmd [] [], x)" for x
    using assms(2-4) by (simp add: exchange_def vq_handle_output_def ioctl_request_def host_ioctl_def
        SYSCALL_OPEN_def SYSCALL_CLOSE_def SYSCALL_IOCTL_def)
  then show ?thesis
    using assms(2-4) by (simp add: ioctl_unfold [OF assms(1)] ioctl_prepare_def ioctl_request_def ioctl_finish_def
        with_objects_def ioctl_objects_def kfree_def)
qed

section \<open>Properties\<close>

text \<open>C17: a command that the driver does not implement succeeds. For every command of \<open>cryptodev.h\<close>
  but the three that the driver knows, authenticated encryption and the queries among them, the ioctl of
  the guest returns 0 without reading its argument: nothing is performed on the host and nothing is
  written for the user, who cannot tell this from a result. Two of the objects allocated for the call
  stay allocated.\<close>

theorem unsupported_ioctl_succeeds:
  assumes "ample K" "(name, cmd) \<in> set (api_commands @ [(''CIOCCPHASH'', CIOCCPHASH)])" "name \<notin> supported"
  shows "\<exists>g'. crypto_chrdev_ioctl K (Some crof) cmd arg g = Some (0, g')
    \<and> host g' = host g \<and> um g' = um g \<and> live g' = {#K_sess, K_crypt#} + live g"
  using other_command [OF assms(1)] unsupported_number [OF assms(2,3)] by blast

lemma unsupported_ioctl_succeeds_witness:
  "\<exists>g'. crypto_chrdev_ioctl sample_platform (Some sample_crof) 0xC048636D 0x99 sample_guest = Some (0, g')
    \<and> um g' = um sample_guest"
proof -
  have "(''CIOCAUTHCRYPT'', 0xC048636D) \<in> set (api_commands @ [(''CIOCCPHASH'', CIOCCPHASH)])"
    by (simp add: api_commands_def IOWR_def sizes IOC_def)
  from unsupported_ioctl_succeeds [OF sample_platform_ample this] show ?thesis by (force simp: supported_def)
qed

end
