(* ===== verification/RawHost.thy ===== *)
theory RawHost
  imports CryptodevApi
begin

text \<open>
  The host's handler on raw memory. In \<open>virtio-cryptodev.c\<close> a segment is only an address and a length;
  the handler reads and writes words and structures in it. Here it works on bytes, with the places that
  the layout of \<open>cryptodev.h\<close> gives; the handler of \<open>Virtio\<close>, which works on typed segments, is what
  it does under that reading of the bytes.
\<close>

section \<open>The structures as bytes\<close>

text \<open>The place of a field; all that are asked for exist.\<close>

definition at :: "ctype \<Rightarrow> string \<Rightarrow> nat" where
  "at t f = (case offsetof t f of Some p \<Rightarrow> p | None \<Rightarrow> 0)"

definition session_at :: "u8 list \<Rightarrow> session_op" where
  "session_at b =
     (let p = at struct_session_op in
      \<lparr>cipher = peek (p ''cipher'') 4 b, mac = peek (p ''mac'') 4 b, keylen = peek (p ''keylen'') 4 b,
       key = peek (p ''key'') 8 b, mackeylen = peek (p ''mackeylen'') 4 b, mackey = peek (p ''mackey'') 8 b,
       ses = peek (p ''ses'') 4 b\<rparr>)"

definition session_into :: "session_op \<Rightarrow> u8 list \<Rightarrow> u8 list" where
  "session_into s b =
     (let p = at struct_session_op;
          b = poke (p ''cipher'') (le_bytes 4 (cipher s)) b;
          b = poke (p ''mac'') (le_bytes 4 (mac s)) b;
          b = poke (p ''keylen'') (le_bytes 4 (keylen s)) b;
          b = poke (p ''key'') (le_bytes 8 (key s)) b;
          b = poke (p ''mackeylen'') (le_bytes 4 (mackeylen s)) b;
          b = poke (p ''mackey'') (le_bytes 8 (mackey s)) b
      in poke (p ''ses'') (le_bytes 4 (ses s)) b)"

definition crypt_at :: "u8 list \<Rightarrow> crypt_op" where
  "crypt_at b =
     (let p = at struct_crypt_op in
      \<lparr>op_ses = peek (p ''ses'') 4 b, op_code = peek (p ''op'') 2 b, op_flags = peek (p ''flags'') 2 b,
       op_len = peek (p ''len'') 4 b, op_src = peek (p ''src'') 8 b, op_dst = peek (p ''dst'') 8 b,
       op_mac = peek (p ''mac'') 8 b, op_iv = peek (p ''iv'') 8 b\<rparr>)"

lemma session_places:
  "at struct_session_op ''cipher'' = 0" "at struct_session_op ''mac'' = 4" "at struct_session_op ''keylen'' = 8"
  "at struct_session_op ''key'' = 16" "at struct_session_op ''mackeylen'' = 24" "at struct_session_op ''mackey'' = 32"
  "at struct_session_op ''ses'' = 40"
  by (simp_all add: at_def struct_session_op_def align_up_def Let_def)

lemma crypt_places:
  "at struct_crypt_op ''ses'' = 0" "at struct_crypt_op ''op'' = 4" "at struct_crypt_op ''flags'' = 6"
  "at struct_crypt_op ''len'' = 8" "at struct_crypt_op ''src'' = 16" "at struct_crypt_op ''dst'' = 24"
  "at struct_crypt_op ''mac'' = 32" "at struct_crypt_op ''iv'' = 40"
  by (simp_all add: at_def struct_crypt_op_def align_up_def Let_def)

lemma length_session_into [simp]: "length b = 48 \<Longrightarrow> length (session_into s b) = 48"
  by (simp add: session_into_def session_places Let_def)

lemma session_at_into: "length b = 48 \<Longrightarrow> session_at (session_into s b) = s"
  by (simp add: session_at_def session_into_def session_places Let_def peek_poke peek_poke_other)



text \<open>A store to one pointer of the structures.\<close>

lemma session_key_store:
  "length b = 48 \<Longrightarrow> session_at (poke (at struct_session_op ''key'') (le_bytes 8 p) b) = (session_at b)\<lparr>key := p\<rparr>"
  by (simp add: session_at_def session_places Let_def peek_poke peek_poke_other)

lemma crypt_pointer_stores:
  assumes "length b = 48"
  shows "crypt_at (poke (at struct_crypt_op ''src'') (le_bytes 8 p) b) = (crypt_at b)\<lparr>op_src := p\<rparr>"
    and "crypt_at (poke (at struct_crypt_op ''iv'') (le_bytes 8 p) b) = (crypt_at b)\<lparr>op_iv := p\<rparr>"
    and "crypt_at (poke (at struct_crypt_op ''dst'') (le_bytes 8 p) b) = (crypt_at b)\<lparr>op_dst := p\<rparr>"
  using assms by (simp_all add: crypt_at_def crypt_places Let_def peek_poke peek_poke_other)

lemma le32_eq: "4 \<le> length b \<Longrightarrow> le32 b = peek 0 4 b"
proof -
  assume "4 \<le> length b"
  then have "Suc (Suc (Suc (Suc 0))) \<le> length b" by simp
  then obtain b0 b1 b2 b3 r where b: "b = b0 # b1 # b2 # b3 # r" by (auto simp: Suc_le_length_iff)
  show ?thesis unfolding le32_def peek_def b
    by (rule bit_word_eqI) (auto simp: bit_simps numeral_eq_Suc)
qed

section \<open>The handler on bytes\<close>

type_synonym raw_request = "u8 list list \<times> u8 list list"

definition raw_seg :: "u8 list list \<Rightarrow> nat \<Rightarrow> u8 list option" where
  "raw_seg xs i = (if i < length xs then Some (xs ! i) else None)"

text \<open>A word, a structure of the size of both, and a store of a word; \<open>None\<close> outside the memory.\<close>

definition raw_word :: "u8 list list \<Rightarrow> nat \<Rightarrow> u32 option" where
  "raw_word xs i = do { b \<leftarrow> raw_seg xs i; if 4 \<le> length b then Some (peek 0 4 b) else None }"

definition raw_struct :: "ctype \<Rightarrow> u8 list list \<Rightarrow> nat \<Rightarrow> u8 list option" where
  "raw_struct t xs i = do { b \<leftarrow> raw_seg xs i; if sizeof t \<le> length b then Some b else None }"

definition raw_store :: "u8 list list \<Rightarrow> nat \<Rightarrow> u32 \<Rightarrow> u8 list list option" where
  "raw_store xs i v = do {
     b \<leftarrow> raw_seg xs i;
     if 4 \<le> length b then Some (xs[i := poke 0 (le_bytes 4 v) b]) else None
   }"

text \<open>The ioctl branch: the structure stays where it is, and its pointers are replaced.\<close>

definition raw_ioctl ::
  "'h host_os \<Rightarrow> host_map \<Rightarrow> raw_request \<Rightarrow> 'h \<Rightarrow> (raw_request \<times> 'h) option"
where
  "raw_ioctl H B rq h = (case rq of (outs, ins) \<Rightarrow> do {
     host_fd \<leftarrow> raw_word outs 1;
     ioctl_cmd \<leftarrow> raw_word outs 2;
     if ioctl_cmd = CIOCGSESSION then do {
       sess_key \<leftarrow> raw_seg outs 3;
       test \<leftarrow> raw_struct struct_session_op ins 0;
       let test = poke (at struct_session_op ''key'') (le_bytes 8 (out_base B 3)) test;
       case os_gsession H host_fd (session_at test) sess_key h of (r, s, h') \<Rightarrow> do {
         ins' \<leftarrow> raw_store (ins[0 := session_into s test]) 1 (word_of_int r);
         Some ((outs, ins'), h')
       }
     }
     else if ioctl_cmd = CIOCFSESSION then do {
       i \<leftarrow> raw_word outs 3;
       case os_fsession H host_fd i h of (r, h') \<Rightarrow> do {
         ins' \<leftarrow> raw_store ins 0 (word_of_int r);
         Some ((outs, ins'), h')
       }
     }
     else if ioctl_cmd = CIOCCRYPT then do {
       cry_test \<leftarrow> raw_struct struct_crypt_op outs 3;
       src \<leftarrow> raw_seg outs 4;
       let cry_test = poke (at struct_crypt_op ''src'') (le_bytes 8 (out_base B 4)) cry_test;
       iv \<leftarrow> raw_seg outs 5;
       let cry_test = poke (at struct_crypt_op ''iv'') (le_bytes 8 (out_base B 5)) cry_test;
       dst \<leftarrow> raw_seg ins 0;
       let cry_test = poke (at struct_crypt_op ''dst'') (le_bytes 8 (in_base B 0)) cry_test;
       case os_crypt H host_fd (crypt_at cry_test) src iv dst h of (r, dst', h') \<Rightarrow> do {
         ins' \<leftarrow> raw_store (ins[0 := dst']) 1 (word_of_int r);
         Some ((outs[3 := cry_test], ins'), h')
       }
     }
     else Some (rq, h)
   })"

definition raw_handle_output ::
  "(raw_request \<Rightarrow> bool) \<Rightarrow> 'h host_os \<Rightarrow> host_map \<Rightarrow> raw_request \<Rightarrow> 'h \<Rightarrow> (bool \<times> raw_request \<times> 'h) option"
where
  "raw_handle_output pop H B rq h =
     (if \<not> pop rq then Some (False, rq, h)
      else case rq of (outs, ins) \<Rightarrow> do {
        syscall_type \<leftarrow> raw_word outs 0;
        (rq', h') \<leftarrow>
          (if syscall_type = SYSCALL_OPEN then
             (case os_open H h of (fd, h') \<Rightarrow> do {
                ins' \<leftarrow> raw_store ins 0 (word_of_int fd);
                Some ((outs, ins'), h')
              })
           else if syscall_type = SYSCALL_CLOSE then do {
             fd \<leftarrow> raw_word outs 1;
             Some (rq, os_close H fd h)
           }
           else if syscall_type = SYSCALL_IOCTL then raw_ioctl H B rq h
           else Some (rq, h));
        Some (True, rq', h')
      })"

section \<open>The typed reading\<close>

text \<open>When bytes are the representation of a typed segment, of a request.\<close>

fun seg_repr :: "seg \<Rightarrow> u8 list \<Rightarrow> bool" where
  "seg_repr (Seg_u32 w) b \<longleftrightarrow> length b = 4 \<and> peek 0 4 b = w"
| "seg_repr (Seg_ptr p) b \<longleftrightarrow> length b = 8 \<and> peek 0 8 b = p"
| "seg_repr (Seg_bytes bs) b \<longleftrightarrow> b = bs"
| "seg_repr (Seg_session s) b \<longleftrightarrow> length b = 48 \<and> session_at b = s"
| "seg_repr (Seg_crypt c) b \<longleftrightarrow> length b = 48 \<and> crypt_at b = c"

definition request_repr :: "request \<Rightarrow> raw_request \<Rightarrow> bool" where
  "request_repr rq raw \<longleftrightarrow> list_all2 seg_repr (fst rq) (fst raw) \<and> list_all2 seg_repr (snd rq) (snd raw)"

lemma repr_size: "seg_repr s b \<Longrightarrow> length b = seg_size s"
  by (cases s) auto

lemma first_word: "cipher (session_at b) = peek 0 4 b" "op_ses (crypt_at b) = peek 0 4 b"
  by (simp_all only: session_at_def session_places crypt_at_def crypt_places Let_def session_op.select_convs crypt_op.select_convs)

lemma pointer_word: "(ucast (peek 0 8 b :: addr) :: u32) = peek 0 4 b"
  using ucast_le_word [of 4 "take 8 b", where ?'a = 64 and ?'b = 32] by (simp add: peek_def)

lemma repr_word: "seg_repr s b \<Longrightarrow> seg_u32 s = Some w \<Longrightarrow> 4 \<le> length b \<and> peek 0 4 b = w"
  by (cases s) (auto simp: le32_eq first_word pointer_word split: if_splits)

lemma repr_sg:
  assumes "list_all2 seg_repr xs bs" "sg xs i = Some s"
  obtains b where "raw_seg bs i = Some b" "seg_repr s b" "i < length bs"
  using assms that by (auto simp: sg_def raw_seg_def list_all2_conv_all_nth split: if_splits)

lemma repr_words:
  assumes "list_all2 seg_repr xs bs" "sg xs i = Some s" "seg_u32 s = Some w"
  shows "raw_word bs i = Some w"
  by (rule repr_sg [OF assms(1,2)]) (use repr_word assms(3) in \<open>auto simp: raw_word_def\<close>)

lemma repr_update: "list_all2 seg_repr xs bs \<Longrightarrow> seg_repr s b \<Longrightarrow> list_all2 seg_repr (xs[i := s]) (bs[i := b])"
  by (rule list_all2_update_cong)

lemma repr_store:
  assumes "list_all2 seg_repr xs bs" "put_u32 xs i v = Some xs'"
  obtains bs' where "raw_store bs i v = Some bs'" "list_all2 seg_repr xs' bs'"
proof -
  obtain w where w: "sg xs i = Some (Seg_u32 w)" "xs' = xs[i := Seg_u32 v]"
    using assms(2) by (auto simp: put_u32_def split: option.splits seg.splits)
  show thesis
  proof (rule repr_sg [OF assms(1) w(1)])
    fix b assume b: "raw_seg bs i = Some b" "seg_repr (Seg_u32 w) b"
    then have "seg_repr (Seg_u32 v) (poke 0 (le_bytes 4 v) b)" by (simp add: peek_poke)
    with b show thesis using that repr_update [OF assms(1)] by (simp add: raw_store_def w(2))
  qed
qed

section \<open>Refinement\<close>

text \<open>Where the typed handler has an answer, the handler on bytes has one that represents it.\<close>

lemma gsession_repr:
  assumes outs: "list_all2 seg_repr outs routs" and ins: "list_all2 seg_repr ins rins"
    and words: "raw_word routs 1 = Some fd" "raw_word routs 2 = Some CIOCGSESSION"
    and segs: "sg outs 3 = Some (Seg_bytes k)" "sg ins 0 = Some (Seg_session test)"
    and call: "os_gsession H fd (test\<lparr>key := out_base B 3\<rparr>) k h = (r, test', h')"
    and store: "put_u32 (ins[0 := Seg_session test']) 1 (word_of_int r) = Some ins'"
  shows "\<exists>raw. raw_ioctl H B (routs, rins) h = Some (raw, h') \<and> request_repr (outs, ins') raw"
proof -
  obtain kb where k: "raw_seg routs 3 = Some kb" "kb = k" by (rule repr_sg [OF outs segs(1)]) simp
  obtain b where b: "raw_seg rins 0 = Some b" "length b = 48" "session_at b = test"
    by (rule repr_sg [OF ins segs(2)]) simp
  let ?b = "poke (at struct_session_op ''key'') (le_bytes 8 (out_base B 3)) b"
  have "seg_repr (Seg_session test') (session_into test' ?b)"
    using b(2) by (simp add: session_at_into session_places)
  then obtain rins' where "raw_store (rins[0 := session_into test' ?b]) 1 (word_of_int r) = Some rins'"
    "list_all2 seg_repr ins' rins'"
    using repr_store [OF repr_update [OF ins] store] by metis
  then show ?thesis
    using outs words k b call
    by (simp add: raw_ioctl_def raw_struct_def sizes session_key_store request_repr_def Let_def)
qed

lemma fsession_repr:
  assumes outs: "list_all2 seg_repr outs routs" and ins: "list_all2 seg_repr ins rins"
    and words: "raw_word routs 1 = Some fd" "raw_word routs 2 = Some CIOCFSESSION"
    and seg: "sg outs 3 = Some (Seg_u32 i)"
    and call: "os_fsession H fd i h = (r, h')" and store: "put_u32 ins 0 (word_of_int r) = Some ins'"
  shows "\<exists>raw. raw_ioctl H B (routs, rins) h = Some (raw, h') \<and> request_repr (outs, ins') raw"
proof -
  obtain rins' where "raw_store rins 0 (word_of_int r) = Some rins'" "list_all2 seg_repr ins' rins'"
    by (rule repr_store [OF ins store])
  then show ?thesis
    using outs words repr_words [OF outs seg, of i] call by (simp add: raw_ioctl_def request_repr_def)
qed

lemma crypt_repr:
  assumes outs: "list_all2 seg_repr outs routs" and ins: "list_all2 seg_repr ins rins"
    and words: "raw_word routs 1 = Some fd" "raw_word routs 2 = Some CIOCCRYPT"
    and segs: "sg outs 3 = Some (Seg_crypt c)" "sg outs 4 = Some (Seg_bytes src)" "sg outs 5 = Some (Seg_bytes iv)"
      "sg ins 0 = Some (Seg_bytes dst)"
    and c': "c' = c\<lparr>op_src := out_base B 4, op_iv := out_base B 5, op_dst := in_base B 0\<rparr>"
    and call: "os_crypt H fd c' src iv dst h = (r, dst', h')"
    and store: "put_u32 (ins[0 := Seg_bytes dst']) 1 (word_of_int r) = Some ins'"
  shows "\<exists>raw. raw_ioctl H B (routs, rins) h = Some (raw, h') \<and> request_repr (outs[3 := Seg_crypt c'], ins') raw"
proof -
  obtain b where b: "raw_seg routs 3 = Some b" "length b = 48" "crypt_at b = c"
    by (rule repr_sg [OF outs segs(1)]) simp
  have rest: "raw_seg routs 4 = Some src" "raw_seg routs 5 = Some iv" "raw_seg rins 0 = Some dst"
    using repr_sg [OF outs segs(2)] repr_sg [OF outs segs(3)] repr_sg [OF ins segs(4)] by (metis seg_repr.simps(3))+
  let ?b = "poke (at struct_crypt_op ''dst'') (le_bytes 8 (in_base B 0))
    (poke (at struct_crypt_op ''iv'') (le_bytes 8 (out_base B 5)) (poke (at struct_crypt_op ''src'') (le_bytes 8 (out_base B 4)) b))"
  have c: "crypt_at ?b = c'" "length ?b = 48" using b by (simp_all add: crypt_pointer_stores [unfolded crypt_places] crypt_places c')
  have "seg_repr (Seg_bytes dst') dst'" by simp
  then obtain rins' where "raw_store (rins[0 := dst']) 1 (word_of_int r) = Some rins'" "list_all2 seg_repr ins' rins'"
    using repr_store [OF repr_update [OF ins] store] by metis
  moreover have "list_all2 seg_repr (outs[3 := Seg_crypt c']) (routs[3 := ?b])"
    by (rule repr_update [OF outs]) (use c in simp)
  ultimately show ?thesis
    using words b rest c(1) call by (simp add: raw_ioctl_def raw_struct_def sizes request_repr_def Let_def)
qed

lemma host_ioctl_repr:
  assumes repr: "request_repr rq raw" and run: "host_ioctl H B rq h = Some (rq', h')"
  shows "\<exists>raw'. raw_ioctl H B raw h = Some (raw', h') \<and> request_repr rq' raw'"
proof -
  obtain outs ins routs rins where rq: "rq = (outs, ins)" "raw = (routs, rins)" by (metis surj_pair)
  then have o: "list_all2 seg_repr outs routs" and i: "list_all2 seg_repr ins rins"
    using repr by (simp_all add: request_repr_def)
  obtain s1 fd s2 cmd where s: "sg outs 1 = Some s1" "seg_u32 s1 = Some fd" "sg outs 2 = Some s2" "seg_u32 s2 = Some cmd"
    using run unfolding host_ioctl_def rq by (auto simp: bind_eq_Some_conv)
  have w: "raw_word routs 1 = Some fd" "raw_word routs 2 = Some cmd"
    using repr_words [OF o s(1,2)] repr_words [OF o s(3,4)] by simp_all
  note run' = run [unfolded host_ioctl_def rq, simplified s bind.bind_lunit prod.case]
  consider (gs) "cmd = CIOCGSESSION" | (fs) "cmd = CIOCFSESSION" | (cr) "cmd = CIOCCRYPT"
    | (other) "cmd \<noteq> CIOCGSESSION" "cmd \<noteq> CIOCFSESSION" "cmd \<noteq> CIOCCRYPT" by blast
  then show ?thesis
  proof cases
    case gs
    with run' obtain k test r t ins' where p: "sg outs 3 = Some (Seg_bytes k)" "sg ins 0 = Some (Seg_session test)"
      "os_gsession H fd (test\<lparr>key := out_base B 3\<rparr>) k h = (r, t, h')"
      "put_u32 (ins[0 := Seg_session t]) 1 (word_of_int r) = Some ins'" "rq' = (outs, ins')"
      by (auto split: option.splits seg.splits prod.splits simp: bind_eq_Some_conv)
    show ?thesis unfolding rq p(5) by (rule gsession_repr [OF o i w(1) w(2) [unfolded gs] p(1-4)])
  next
    case fs
    with run' obtain x r ins' where p: "sg outs 3 = Some (Seg_u32 x)" "os_fsession H fd x h = (r, h')"
      "put_u32 ins 0 (word_of_int r) = Some ins'" "rq' = (outs, ins')"
      by (auto split: option.splits seg.splits prod.splits simp: bind_eq_Some_conv)
    show ?thesis unfolding rq p(4) by (rule fsession_repr [OF o i w(1) w(2) [unfolded fs] p(1-3)])
  next
    case cr
    with run' obtain c src iv dst r dst' ins' where p: "sg outs 3 = Some (Seg_crypt c)" "sg outs 4 = Some (Seg_bytes src)"
      "sg outs 5 = Some (Seg_bytes iv)" "sg ins 0 = Some (Seg_bytes dst)"
      "os_crypt H fd (c\<lparr>op_src := out_base B 4, op_iv := out_base B 5, op_dst := in_base B 0\<rparr>) src iv dst h = (r, dst', h')"
      "put_u32 (ins[0 := Seg_bytes dst']) 1 (word_of_int r) = Some ins'"
      "rq' = (outs[3 := Seg_crypt (c\<lparr>op_src := out_base B 4, op_iv := out_base B 5, op_dst := in_base B 0\<rparr>)], ins')"
      by (auto split: option.splits seg.splits prod.splits simp: bind_eq_Some_conv Let_def)
    show ?thesis unfolding rq p(7) by (rule crypt_repr [OF o i w(1) w(2) [unfolded cr] p(1-4) refl p(5,6)])
  next
    case other
    then have "rq' = (outs, ins)" "h' = h" using run' by simp_all
    then show ?thesis using other w repr by (simp add: raw_ioctl_def rq)
  qed
qed

section \<open>Properties\<close>



text \<open>C16: typed segments are faithful. The host's handler works on raw memory; wherever the typed
  handler, on which everything else about the virtual device rests, answers a request, the handler on the
  bytes of that request makes the same calls, leaves the same host and its bytes represent the typed
  answer. This includes requests that are not what the handler takes them for, such as a pointer in the
  place of a call number.\<close>

theorem raw_host_refines:
  assumes "request_repr rq raw" "rpop raw = pop rq" "vq_handle_output pop H B rq h = Some (pushed, rq', h')"
  shows "\<exists>raw'. raw_handle_output rpop H B raw h = Some (pushed, raw', h') \<and> request_repr rq' raw'"
proof (cases "pop rq")
  case False
  then show ?thesis using assms by (auto simp: vq_handle_output_def raw_handle_output_def)
next
  case True
  obtain outs ins routs rins where rq: "rq = (outs, ins)" "raw = (routs, rins)" by (metis surj_pair)
  then have o: "list_all2 seg_repr outs routs" and i: "list_all2 seg_repr ins rins"
    using assms(1) by (simp_all add: request_repr_def)
  obtain s0 call where s: "sg outs 0 = Some s0" "seg_u32 s0 = Some call"
    using assms(3) True unfolding vq_handle_output_def rq by (auto simp: bind_eq_Some_conv)
  have w: "raw_word routs 0 = Some call" by (rule repr_words [OF o s])
  note run = assms(3) [unfolded vq_handle_output_def rq]
  consider (op) "call = SYSCALL_OPEN" | (cl) "call = SYSCALL_CLOSE" | (io) "call = SYSCALL_IOCTL"
    | (other) "call \<noteq> SYSCALL_OPEN" "call \<noteq> SYSCALL_CLOSE" "call \<noteq> SYSCALL_IOCTL" by blast
  then show ?thesis
  proof cases
    case op
    obtain fd ins' where p: "os_open H h = (fd, h')" "put_u32 ins 0 (word_of_int fd) = Some ins'" "rq' = (outs, ins')" "pushed"
      using run True s op by (auto simp: rq bind_eq_Some_conv split: prod.splits)
    obtain rins' where "raw_store rins 0 (word_of_int fd) = Some rins'" "list_all2 seg_repr ins' rins'"
      by (rule repr_store [OF i p(2)])
    then show ?thesis using p o w op True assms(2) by (simp add: raw_handle_output_def rq request_repr_def)
  next
    case cl
    then obtain s1 fd where p: "sg outs 1 = Some s1" "seg_u32 s1 = Some fd" "h' = os_close H fd h" "rq' = (outs, ins)" "pushed"
      using run True s by (auto simp: rq bind_eq_Some_conv SYSCALL_OPEN_def SYSCALL_CLOSE_def)
    then show ?thesis using repr_words [OF o p(1,2)] o i w cl True assms(2)
      by (simp add: raw_handle_output_def rq request_repr_def SYSCALL_OPEN_def SYSCALL_CLOSE_def)
  next
    case io
    then have p: "host_ioctl H B rq h = Some (rq', h')" "pushed"
      using run True s by (auto simp: rq bind_eq_Some_conv SYSCALL_OPEN_def SYSCALL_CLOSE_def SYSCALL_IOCTL_def)
    obtain raw' where "raw_ioctl H B raw h = Some (raw', h')" "request_repr rq' raw'"
      using host_ioctl_repr [OF assms(1) p(1)] by blast
    then show ?thesis using p(2) w io True assms(2)
      by (simp add: raw_handle_output_def rq SYSCALL_OPEN_def SYSCALL_CLOSE_def SYSCALL_IOCTL_def)
  next
    case other
    then have "rq' = (outs, ins)" "h' = h" "pushed" using run True s by (auto simp: rq)
    then show ?thesis using other w True assms(1,2) by (simp add: raw_handle_output_def rq)
  qed
qed

text \<open>The first word of the pointer 0x100000002 is a call number, that of an ioctl; the words of
  the ioctl follow it: a CIOCFSESSION.\<close>

lemma raw_host_refines_witness:
  "\<exists>raw'. raw_handle_output (\<lambda>_. True) flip_os (hmap sample_platform)
      ([[2, 0, 0, 0, 1, 0, 0, 0], [3, 0, 0, 0], [0x67, 0x63, 0x04, 0x40], [1, 0, 0, 0]], [[9, 9, 9, 9]]) 8 = Some (True, raw', 8)
    \<and> request_repr ([Seg_ptr 0x100000002, Seg_u32 3, Seg_u32 CIOCFSESSION, Seg_u32 1], [Seg_u32 (word_of_int (- EINVAL))]) raw'"
proof -
  let ?rq = "([Seg_ptr 0x100000002, Seg_u32 3, Seg_u32 CIOCFSESSION, Seg_u32 1], [Seg_u32 0x09090909])"
  let ?raw = "([[2, 0, 0, 0, 1, 0, 0, 0], [3, 0, 0, 0], [0x67, 0x63, 0x04, 0x40], [1, 0, 0, 0]], [[9, 9, 9, 9]])"
  have "request_repr ?rq ?raw"
    by (simp add: request_repr_def peek_def cioc_values)
  moreover have "vq_handle_output (\<lambda>_. True) flip_os (hmap sample_platform) ?rq 8 =
      Some (True, ([Seg_ptr 0x100000002, Seg_u32 3, Seg_u32 CIOCFSESSION, Seg_u32 1], [Seg_u32 (word_of_int (- EINVAL))]), 8)"
    by (simp add: vq_handle_output_def host_ioctl_def flip_os_def put_u32_def sg_def cioc_values
        SYSCALL_OPEN_def SYSCALL_CLOSE_def SYSCALL_IOCTL_def)
  ultimately show ?thesis using raw_host_refines [of ?rq ?raw "\<lambda>_. True" "\<lambda>_. True" flip_os "hmap sample_platform" 8] by simp
qed

end
