(* ===== verification/ShowPacket.thy ===== *)
theory ShowPacket
  imports Receiver Format
begin

text \<open>
  The line that \<open>lunix_protocol_show_packet\<close> prints in a debug build: the bytes of the packet so far, in
  hexadecimal. Its only call, in \<open>set_state\<close>, is commented out.
\<close>

definition hex_digit :: "nat \<Rightarrow> char" where
  "hex_digit n = char_of (if n < 10 then 48 + n else 87 + n)"

text \<open>\<open>0x%02x\<close>.\<close>

definition print_hex :: "u8 \<Rightarrow> string" where
  "print_hex b = ''0x'' @ [hex_digit (unat b div 16), hex_digit (unat b mod 16)]"

text \<open>\<open>None\<close> is a read past the end of the packet's array.\<close>

definition lunix_protocol_show_packet :: "lunix_protocol_state_struct \<Rightarrow> string option" where
  "lunix_protocol_show_packet state =
     (if length (packet state) < pos state then None
      else Some (''lunix_protocol_show_packet: Current packet: called, pos = '' @ print_int (int (pos state))
             @ '', Packet data: { ''
             @ concat (map (\<lambda>ctr. print_hex (packet state ! ctr) @ (if ctr = pos state - 1 then '''' else '', '')) [0..<pos state])
             @ '' }'' @ [CHR 0x0A]))"

text \<open>What the text says of a byte.\<close>

definition hex_value :: "char \<Rightarrow> nat" where
  "hex_value c = (let n = of_char c in if n < 97 then n - 48 else n - 87)"

lemma hex_value_digit: "n < 16 \<Longrightarrow> hex_value (hex_digit n) = n"
  by (simp add: hex_value_def hex_digit_def Let_def)

lemma print_hex_value:
  "16 * hex_value (print_hex b ! 2) + hex_value (print_hex b ! 3) = unat b"
proof -
  have "unat b < 256" using unsigned_less [of b, where ?'a = nat] by simp
  then show ?thesis by (simp add: print_hex_def hex_value_digit)
qed

text \<open>In no state that the receiver gets into does it read outside the array.\<close>

lemma show_packet_in_bounds: "proto_inv st \<Longrightarrow> lunix_protocol_show_packet st \<noteq> None"
  using proto_inv_pos [of st] by (simp add: lunix_protocol_show_packet_def proto_inv_def proto_shape_def MAX_PACKET_LEN_def)

end
