(* ===== verification/ChatC.thy ===== *)
theory ChatC
  imports Chat
begin

text \<open>
  The functions of the chat once more, closer to C. \<open>Chat\<close> has them on lists and naturals, once for both
  programs. Here are those of \<open>client.c\<close> for sending and those of \<open>server.c\<close> for receiving with their
  own loops and types: \<open>size_t\<close> and \<open>ssize_t\<close> of 64 bits, \<open>int\<close> of 32, a pointer that moves through the
  buffer, and arrays with their bounds. They do the same.
\<close>

section \<open>Writing\<close>

text \<open>What \<open>write\<close> returns when the environment is ready to take \<open>c\<close> bytes: never more than it was asked to.\<close>

definition sys_write :: "u64 \<Rightarrow> int \<Rightarrow> u64" where
  "sys_write cnt c = word_of_int (if c < 0 then c else min c (uint cnt))"

text \<open>The loop of \<open>insist_write\<close>: \<open>p\<close> is how far \<open>buf\<close> has moved, \<open>cnt\<close> what is left.\<close>

fun c_insist :: "u8 list \<Rightarrow> u64 \<Rightarrow> u64 \<Rightarrow> int list \<Rightarrow> (u64 option \<times> u8 list \<times> int list) option" where
  "c_insist mem p cnt [] = (if cnt = 0 then Some (None, [], []) else None)"
| "c_insist mem p cnt (c # cs) =
     (if cnt = 0 then Some (None, [], c # cs)
      else
        let ret = sys_write cnt c
        in if sint ret < 0 then Some (Some ret, [], cs)
           else case c_insist mem (p + ret) (cnt - ret) cs of
             None \<Rightarrow> None
           | Some (e, out, rest) \<Rightarrow> Some (e, take (unat ret) (drop (unat p) mem) @ out, rest))"

definition client_insist_write :: "fd \<Rightarrow> u8 list \<Rightarrow> u64 \<Rightarrow> 'd chat \<Rightarrow> stop + (int \<times> 'd chat)" where
  "client_insist_write fd mem cnt s =
     (let orig_cnt = cnt in
      case c_insist mem 0 cnt (caps s fd) of
        None \<Rightarrow> Inl Blocked
      | Some (e, out, rest) \<Rightarrow>
          Inr (case e of None \<Rightarrow> sint orig_cnt | Some r \<Rightarrow> sint r,
               s\<lparr>caps := (caps s)(fd := rest), outq := (outq s)(fd := outq s fd @ out)\<rparr>))"

section \<open>Encryption\<close>

definition cryp_memset :: crypt_op where
  "cryp_memset = \<lparr>op_ses = 0, op_code = 0, op_flags = 0, op_len = 0, op_src = 0, op_dst = 0, op_mac = 0, op_iv = 0\<rparr>"

lemma sint_succ:
  fixes i :: u32
  assumes "0 \<le> sint i" "sint i < 512"
  shows "sint (i + 1) = sint i + 1"
proof -
  have "i + 1 = word_of_int (sint i + 1)" by simp
  then show ?thesis using sint_word_of_int_u32 [of "sint i + 1"] assms by simp
qed

text \<open>The copying loop of \<open>encrypt\<close>, with \<open>i\<close> an int; \<open>None\<close> is an access outside the arrays.\<close>

function c_copy :: "u8 list \<Rightarrow> u32 \<Rightarrow> u8 list \<Rightarrow> u8 list option" where
  "c_copy encrypted i b =
     (if sint i < 512 then
        if sint i < 0 \<or> length encrypted \<le> nat (sint i) \<or> length b \<le> nat (sint i) then None
        else c_copy encrypted (i + 1) (b[nat (sint i) := encrypted ! nat (sint i)])
      else Some b)"
  by pat_completeness auto
termination
proof (relation "measure (\<lambda>(e, i, b). nat (512 - sint i))")
  fix encrypted b :: "u8 list" and i :: u32
  assume "sint i < 512" "\<not> (sint i < 0 \<or> length encrypted \<le> nat (sint i) \<or> length b \<le> nat (sint i))"
  then show "((encrypted, i + 1, b[nat (sint i) := encrypted ! nat (sint i)]), encrypted, i, b)
      \<in> measure (\<lambda>(e, i, b). nat (512 - sint i))"
    by (simp add: sint_succ)
qed simp

declare c_copy.simps [simp del]

definition client_encrypt :: "layout \<Rightarrow> 'd crypto_dev \<Rightarrow> 'd chat \<Rightarrow> stop + (int \<times> 'd chat)" where
  "client_encrypt L C s =
     (let cryp = cryp_memset;
          cryp = cryp\<lparr>op_ses := ses (sess s)\<rparr>;
          cryp = cryp\<lparr>op_len := 512\<rparr>;
          cryp = cryp\<lparr>op_src := at_buf L\<rparr>;
          cryp = cryp\<lparr>op_dst := at_data L\<rparr>;
          cryp = cryp\<lparr>op_iv := at_invect L\<rparr>;
          cryp = cryp\<lparr>op_code := COP_ENCRYPT\<rparr>
      in case d_crypt C cryp (buf s) (take BLOCK_SIZE invect) (dev s) of
        None \<Rightarrow> Inl Blocked
      | Some (r, encrypted, d) \<Rightarrow>
          let s = s\<lparr>dev := d\<rparr> in
          if r \<noteq> 0 then Inr (1, s)
          else case c_copy encrypted 0 (buf s) of None \<Rightarrow> Inl Undefined | Some b \<Rightarrow> Inr (0, s\<lparr>buf := b\<rparr>))"

section \<open>Decryption\<close>

function c_decrypt_loop :: "u8 list \<Rightarrow> u32 \<Rightarrow> u8 list \<Rightarrow> (u8 list \<times> u32) option" where
  "c_decrypt_loop decrypted i b =
     (if sint i < 0 \<or> 512 \<le> sint i \<or> length decrypted \<le> nat (sint i) then None
      else if decrypted ! nat (sint i) = 0 then Some (b, i)
      else c_decrypt_loop decrypted (i + 1) (b[nat (sint i) := decrypted ! nat (sint i)]))"
  by pat_completeness auto
termination
proof (relation "measure (\<lambda>(e, i, b). nat (512 - sint i))")
  fix decrypted b :: "u8 list" and i :: u32
  assume "\<not> (sint i < 0 \<or> 512 \<le> sint i \<or> length decrypted \<le> nat (sint i))"
  then show "((decrypted, i + 1, b[nat (sint i) := decrypted ! nat (sint i)]), decrypted, i, b)
      \<in> measure (\<lambda>(e, i, b). nat (512 - sint i))"
    by (simp add: sint_succ)
qed simp

declare c_decrypt_loop.simps [simp del]

definition server_decrypt :: "layout \<Rightarrow> 'd crypto_dev \<Rightarrow> 'd chat \<Rightarrow> stop + (int \<times> 'd chat)" where
  "server_decrypt L C s =
     (let cryp = cryp_memset;
          cryp = cryp\<lparr>op_ses := ses (sess s)\<rparr>;
          cryp = cryp\<lparr>op_len := 512\<rparr>;
          cryp = cryp\<lparr>op_src := at_buf L\<rparr>;
          cryp = cryp\<lparr>op_dst := at_data L\<rparr>;
          cryp = cryp\<lparr>op_iv := at_invect L\<rparr>;
          cryp = cryp\<lparr>op_code := COP_DECRYPT\<rparr>
      in case d_crypt C cryp (buf s) (take BLOCK_SIZE invect) (dev s) of
        None \<Rightarrow> Inl Blocked
      | Some (r, decrypted, d) \<Rightarrow>
          let s = s\<lparr>dev := d\<rparr> in
          if r \<noteq> 0 then Inr (1, s)
          else case c_decrypt_loop decrypted 0 (replicate 512 (of_char (CHR 0x0D))) of
            None \<Rightarrow> Inl Undefined
          | Some (b, i) \<Rightarrow> Inr (0, s\<lparr>buf := b[nat (sint i) := of_char (CHR 0x0D)], dec_buf_len := nat (sint i)\<rparr>))"

section \<open>The two loops\<close>

text \<open>The flag of the first is an int.\<close>

definition client_send_pass ::
  "layout \<Rightarrow> 'd crypto_dev \<Rightarrow> fd \<Rightarrow> fd \<Rightarrow> 'd chat \<Rightarrow> stop + (bool \<times> 'd chat)"
where
  "client_send_pass L C rfd wfd s =
     (let flag = (0 :: int) in
      ok_then (sys_read rfd s) (\<lambda>s.
      let flag = (if buf_at L s (rn s - 1) = of_char (CHR 0x0A) then 1 else flag) in
      ok_then (client_encrypt L C s) (\<lambda>(r, s).
      if r \<noteq> 0 then Inl (Exit 1)
      else ok_then (client_insist_write wfd (buf s) 512 s) (\<lambda>(w, s).
      if (word_of_int w :: u64) \<noteq> 512 then Inl (Exit 1)
      else if rn s = 0 then Inr (False, s\<lparr>conn_active := False\<rparr>)
      else if flag \<noteq> 0 then Inr (False, s)
      else Inr (True, s)))))"

definition client_read_encrypt_write ::
  "layout \<Rightarrow> 'd crypto_dev \<Rightarrow> fd \<Rightarrow> fd \<Rightarrow> 'd chat \<Rightarrow> stop + 'd chat"
where
  "client_read_encrypt_write L C rfd wfd s = rounds (Suc (pending rfd s)) (client_send_pass L C rfd wfd) s"

definition server_receive_pass ::
  "layout \<Rightarrow> 'd crypto_dev \<Rightarrow> fd \<Rightarrow> fd \<Rightarrow> 'd chat \<Rightarrow> stop + (bool \<times> 'd chat)"
where
  "server_receive_pass L C rfd wfd s =
     ok_then (sys_read rfd s) (\<lambda>s.
     ok_then (server_decrypt L C s) (\<lambda>(r, s).
     if r \<noteq> 0 then Inl (Exit 1)
     else ok_then (client_insist_write wfd (buf s) 512 s) (\<lambda>(w, s).
     if (word_of_int w :: u64) \<noteq> 512 then Inl (Exit 1)
     else if rn s = 0 then
       if \<not> conn_active s then Inl (Exit 0) else Inr (False, s\<lparr>conn_active := False\<rparr>)
     else if buf s ! dec_buf_len s = of_char (CHR 0x0D) then Inr (False, s)
     else Inr (True, s))))"

definition server_read_decrypt_write ::
  "layout \<Rightarrow> 'd crypto_dev \<Rightarrow> fd \<Rightarrow> fd \<Rightarrow> 'd chat \<Rightarrow> stop + 'd chat"
where
  "server_read_decrypt_write L C rfd wfd s = rounds (Suc (pending rfd s)) (server_receive_pass L C rfd wfd) s"

section \<open>Lemmas\<close>

text \<open>A device that fills the destination, a program whose buffer has its size and whose writes fail with
  values of an \<open>ssize_t\<close>.\<close>

definition fills :: "'d crypto_dev \<Rightarrow> bool" where
  "fills C \<longleftrightarrow> (\<forall>c b iv d r out d'. d_crypt C c b iv d = Some (r, out, d') \<longrightarrow> r = 0 \<longrightarrow> length out = length b)"

definition steady :: "'d chat \<Rightarrow> bool" where
  "steady s \<longleftrightarrow> length (buf s) = 512 \<and> (\<forall>fd. \<forall>c \<in> set (caps s fd). - (2 ^ 63) \<le> c)"

lemma sint_u64: "- (2 ^ 63) \<le> i \<Longrightarrow> i < 2 ^ 63 \<Longrightarrow> sint (word_of_int i :: u64) = i"
  by (simp add: sint_sbintrunc' signed_take_bit_int_eq_self)

lemma sys_write_small:
  assumes "uint cnt < 2 ^ 63" "0 \<le> c"
  shows "uint (sys_write cnt c) = min c (uint cnt)" "sint (sys_write cnt c) = min c (uint cnt)"
proof -
  let ?m = "min c (uint cnt)"
  have w: "sys_write cnt c = word_of_int ?m" using assms(2) by (simp add: sys_write_def)
  obtain m where m: "m = ?m" by blast
  then have b: "0 \<le> m" "m < 2 ^ 63" using assms by auto
  show "sint (sys_write cnt c) = ?m" unfolding w m [symmetric] by (rule sint_u64) (use b in simp_all)
  show "uint (sys_write cnt c) = ?m" unfolding w m [symmetric] using b by (simp add: uint_word_of_int)
qed

lemma nat_of_min: "nat (min a b) = min (nat a) (nat b)"
  by (cases "a \<le> b") (simp_all add: min_absorb1 min_absorb2 nat_mono)

lemma c_insist_eq:
  assumes "unat p + unat cnt = length mem" "length mem < 2 ^ 63" "\<forall>c \<in> set cs. - (2 ^ 63) \<le> c"
  shows "map_option (\<lambda>(e, out, rest). (map_option sint e, out, rest)) (c_insist mem p cnt cs) =
    insist_loop (drop (unat p) mem) cs"
  using assms
proof (induction cs arbitrary: p cnt)
  case Nil
  show ?case
  proof (cases "cnt = 0")
    case False
    then have "drop (unat p) mem \<noteq> []" using Nil(1) by (simp add: unat_gt_0 [symmetric])
    then show ?thesis using False by (cases "drop (unat p) mem") simp_all
  qed (use Nil in simp)
next
  case (Cons c cs)
  show ?case
  proof (cases "cnt = 0")
    case False
    then have "drop (unat p) mem \<noteq> []" using Cons(2) by (simp add: unat_gt_0 [symmetric])
    then obtain a as where d: "drop (unat p) mem = a # as" by (cases "drop (unat p) mem") auto
    show ?thesis
    proof (cases "c < 0")
      case True
      then have "sint (sys_write cnt c) = c" using sint_u64 [of c] Cons(4) by (simp add: sys_write_def)
      then show ?thesis using True False d by simp
    next
      case pos: False
      let ?r = "sys_write cnt c"
      have "unat cnt < 9223372036854775808" using Cons(2,3) by simp
      moreover have "uint cnt = int (unat cnt)" by simp
      ultimately have "uint cnt < 9223372036854775808" by linarith
      then have u: "uint cnt < 2 ^ 63" by simp
      note r = sys_write_small [OF u, of c]
      have rc: "uint ?r = min c (uint cnt)" "sint ?r = min c (uint cnt)" using r pos by simp_all
      have "unat ?r = nat (uint ?r)" by simp
      also have "\<dots> = nat (min c (uint cnt))" unfolding rc(1) ..
      finally have "unat ?r = nat (min c (uint cnt))" .
      then have n: "unat ?r = min (nat c) (unat cnt)" by (simp add: nat_of_min)
      then have le: "unat ?r \<le> unat cnt" by simp
      have p': "unat (p + ?r) = unat p + unat ?r"
        using Cons(2,3) le by (intro unat_add_lem [THEN iffD1]) simp
      have c': "unat (cnt - ?r) = unat cnt - unat ?r" by (rule unat_sub) (use le in \<open>simp add: word_le_nat_alt\<close>)
      have IH: "map_option (\<lambda>(e, out, rest). (map_option sint e, out, rest)) (c_insist mem (p + ?r) (cnt - ?r) cs) =
          insist_loop (drop (unat p + unat ?r) mem) cs"
        using Cons.IH [of "p + ?r" "cnt - ?r"] Cons.prems p' c' le by simp
      have len: "length (drop (unat p) mem) = unat cnt" using Cons(2) by simp
      have t: "take (unat ?r) (drop (unat p) mem) = take (nat c) (drop (unat p) mem)"
        "drop (unat p + unat ?r) mem = drop (nat c) (drop (unat p) mem)"
        using n len by (simp_all add: min_def add.commute)
      have "0 \<le> sint ?r" using rc pos by simp
      then show ?thesis
        using IH [symmetric] False pos unfolding t d
        by (auto simp: Let_def t(1) [unfolded d] d split: option.splits)
    qed
  qed (use Cons in simp)
qed

lemma client_insist_write_eq:
  assumes "length mem = 512" "\<forall>c \<in> set (caps s fd). - (2 ^ 63) \<le> c"
  shows "client_insist_write fd mem 512 s = insist_write fd mem s"
proof -
  have "map_option (\<lambda>(e, out, rest). (map_option sint e, out, rest)) (c_insist mem 0 512 (caps s fd)) =
      insist_loop mem (caps s fd)"
    using c_insist_eq [of 0 512 mem "caps s fd"] assms by simp
  then show ?thesis
    using assms(1) unfolding client_insist_write_def insist_write_def Let_def
    by (cases "c_insist mem 0 512 (caps s fd)") (auto split: option.splits)
qed

text \<open>The copying loops.\<close>

lemma nat_word [simp]: "n \<le> 512 \<Longrightarrow> sint (of_nat n :: u32) = int n"
  using sint_word_of_int_u32 [of "int n"] by simp

lemma c_copy_eq:
  assumes "length e = 512"
  shows "n \<le> 512 \<Longrightarrow> length b = 512 \<Longrightarrow> c_copy e (of_nat n) b = Some (take n b @ drop n e)"
proof (induction "512 - n" arbitrary: n b)
  case 0
  then have "n = 512" by simp
  then show ?case using 0 assms by (subst c_copy.simps) simp
next
  case (Suc k)
  then have n: "n < 512" "k = 512 - Suc n" by simp_all
  have step: "c_copy e (of_nat n) b = c_copy e (of_nat (Suc n)) (b[n := e ! n])"
    using n(1) Suc.prems assms by (subst c_copy.simps) (simp add: add.commute)
  have "c_copy e (of_nat (Suc n)) (b[n := e ! n]) = Some (take (Suc n) (b[n := e ! n]) @ drop (Suc n) e)"
    by (rule Suc.hyps(1)) (use n Suc.prems in simp_all)
  moreover have "take (Suc n) (b[n := e ! n]) @ drop (Suc n) e = take n b @ drop n e"
    using n(1) Suc.prems assms by (simp add: take_Suc_conv_app_nth Cons_nth_drop_Suc)
  ultimately show ?case using step by simp
qed

lemma c_decrypt_loop_eq:
  assumes "length e = 512"
  shows "n \<le> 512 \<Longrightarrow> length b = 512 \<Longrightarrow>
    map_option (\<lambda>(b, i). (b, sint i)) (c_decrypt_loop e (of_nat n) b) = map_option (\<lambda>(b, i). (b, int i)) (decrypt_loop e n b)"
proof (induction "512 - n" arbitrary: n b)
  case 0
  then have "n = 512" by simp
  then show ?case using assms by (subst c_decrypt_loop.simps, subst decrypt_loop.simps) simp
next
  case (Suc k)
  then have n: "n < 512" "k = 512 - Suc n" by simp_all
  show ?case
  proof (cases "e ! n = 0")
    case True
    then show ?thesis using n(1) assms by (subst c_decrypt_loop.simps, subst decrypt_loop.simps) simp
  next
    case False
    have "c_decrypt_loop e (of_nat n) b = c_decrypt_loop e (of_nat (Suc n)) (b[n := e ! n])"
      using n(1) assms False by (subst c_decrypt_loop.simps) (simp add: add.commute)
    moreover have "decrypt_loop e n b = decrypt_loop e (Suc n) (b[n := e ! n])"
      using n(1) Suc.prems assms False by (subst decrypt_loop.simps) simp
    ultimately show ?thesis using Suc.hyps(1) [OF n(2), of "b[n := e ! n]"] n(1) Suc.prems by simp
  qed
qed

lemma decrypt_loop_bound: "decrypt_loop e i b = Some (b', j) \<Longrightarrow> j < length e"
proof (induction e i b rule: decrypt_loop.induct)
  case (1 e i b)
  show ?case using 1 decrypt_loop.simps [of e i b] by (simp split: if_splits)
qed

lemma chat_op_built:
  "cryp_memset\<lparr>op_ses := ses (sess s), op_len := 512, op_src := at_buf L, op_dst := at_data L, op_iv := at_invect L,
     op_code := code\<rparr> = chat_op L code s"
  by (simp add: cryp_memset_def chat_op_def DATA_SIZE_def)

lemma client_encrypt_eq:
  assumes "fills C" "length (buf s) = 512"
  shows "client_encrypt L C s = encrypt L C s"
proof (cases "d_crypt C (chat_op L COP_ENCRYPT s) (buf s) (take BLOCK_SIZE invect) (dev s)")
  case (Some x)
  obtain r e d where x: "x = (r, e, d)" by (cases x)
  show ?thesis
  proof (cases "r = 0")
    case True
    then have e: "length e = 512" using assms Some x unfolding fills_def by metis
    have "c_copy e 0 (buf s) = Some e" using c_copy_eq [OF e, of 0 "buf s"] assms(2) by simp
    moreover have "fold (\<lambda>i b. b[i := e ! i]) [0..<DATA_SIZE] (buf s) = e"
      using fold_copy [of "buf s" e 512] e assms(2) by (simp add: DATA_SIZE_def)
    ultimately show ?thesis
      using Some x True by (simp add: client_encrypt_def encrypt_def Let_def chat_op_built)
  qed (use Some x in \<open>simp add: client_encrypt_def encrypt_def Let_def chat_op_built\<close>)
qed (simp add: client_encrypt_def encrypt_def Let_def chat_op_built)

lemma server_decrypt_eq:
  assumes "fills C" "length (buf s) = 512"
  shows "server_decrypt L C s = decrypt L C s"
proof (cases "d_crypt C (chat_op L COP_DECRYPT s) (buf s) (take BLOCK_SIZE invect) (dev s)")
  case (Some x)
  obtain r e d where x: "x = (r, e, d)" by (cases x)
  show ?thesis
  proof (cases "r = 0")
    case True
    then have e: "length e = 512" using assms Some x unfolding fills_def by metis
    have loop: "map_option (\<lambda>(b, i). (b, sint i)) (c_decrypt_loop e 0 (replicate 512 13)) =
        map_option (\<lambda>(b, i). (b, int i)) (decrypt_loop e 0 (replicate 512 13))"
      using c_decrypt_loop_eq [OF e, of 0 "replicate 512 13"] by simp
    show ?thesis
    proof (cases "decrypt_loop e 0 (replicate 512 13)")
      case None
      then have "c_decrypt_loop e 0 (replicate 512 13) = None" using loop by simp
      then show ?thesis using Some x True None by (simp add: server_decrypt_def decrypt_def Let_def chat_op_built)
    next
      case (Some y)
      obtain b j where y: "y = (b, j)" by (cases y)
      then obtain i where "c_decrypt_loop e 0 (replicate 512 13) = Some (b, i)" "sint i = int j"
        using loop Some by auto
      moreover have "j < 512" "length b = 512"
        using decrypt_loop_bound length_decrypt_loop Some y e by fastforce+
      ultimately show ?thesis
        using \<open>d_crypt C _ _ _ _ = Some x\<close> x True Some y
        by (simp add: server_decrypt_def decrypt_def Let_def chat_op_built)
    qed
  qed (use Some x in \<open>simp add: server_decrypt_def decrypt_def Let_def chat_op_built\<close>)
qed (simp add: server_decrypt_def decrypt_def Let_def chat_op_built)

text \<open>Every step keeps the program steady.\<close>

lemma steady_read: "sys_read fd s = Inr s' \<Longrightarrow> steady s \<Longrightarrow> steady s'"
  by (auto simp: sys_read_def steady_def DATA_SIZE_def split: list.splits option.splits)

lemma length_fold_copy: "length (fold (\<lambda>i b. b[i := e ! i]) xs b) = length b"
  by (induction xs arbitrary: b) simp_all

lemma steady_encrypt: "encrypt L C s = Inr (r, s') \<Longrightarrow> steady s \<Longrightarrow> steady s'"
  by (auto simp: encrypt_def steady_def Let_def length_fold_copy split: option.splits if_splits)

lemma steady_decrypt: "decrypt L C s = Inr (r, s') \<Longrightarrow> steady s \<Longrightarrow> steady s'"
  by (auto simp: decrypt_def steady_def Let_def dest!: length_decrypt_loop split: option.splits if_splits)

lemma insist_loop_rest:
  "insist_loop bs cs = Some (e, out, rest) \<Longrightarrow> set rest \<subseteq> set cs \<and> (\<forall>c. e = Some c \<longrightarrow> c \<in> set cs \<and> c < 0)"
proof (induction bs cs arbitrary: out rest rule: insist_loop.induct)
  case (3 b bs c cs)
  show ?case
  proof (cases "c < 0")
    case False
    then obtain out' where "insist_loop (drop (nat c) (b # bs)) cs = Some (e, out', rest)"
      using 3(2) by (auto split: option.splits)
    from 3(1) [OF False this] show ?thesis by auto
  qed (use 3(2) in auto)
qed auto

lemma insist_write_result:
  assumes "insist_write fd bs s = Inr (w, s')" "steady s" "length bs = 512"
  shows "steady s'" "(word_of_int w :: u64) = 512 \<longleftrightarrow> w = int DATA_SIZE"
proof -
  obtain e out rest where i: "insist_loop bs (caps s fd) = Some (e, out, rest)"
    and r: "w = (case e of None \<Rightarrow> int (length bs) | Some r \<Rightarrow> r)"
      "s' = s\<lparr>caps := (caps s)(fd := rest), outq := (outq s)(fd := outq s fd @ out)\<rparr>"
    using assms(1) by (auto simp: insist_write_def split: option.splits)
  note sub = insist_loop_rest [OF i]
  show "steady s'" using sub assms(2) by (auto simp: steady_def r(2))
  show "(word_of_int w :: u64) = 512 \<longleftrightarrow> w = int DATA_SIZE"
  proof (cases e)
    case (Some c)
    then have c: "- (2 ^ 63) \<le> c" "c < 0" using sub assms(2) by (auto simp: steady_def)
    then have "sint (word_of_int c :: u64) = c" by (intro sint_u64) simp_all
    then have "(word_of_int c :: u64) \<noteq> 512" using c(2) by auto
    then show ?thesis using c(2) by (simp add: r(1) Some DATA_SIZE_def)
  qed (simp add: r(1) assms(3) DATA_SIZE_def)
qed

lemma rounds_cong:
  assumes "\<And>s. good s \<Longrightarrow> f s = g s" "\<And>s s'. good s \<Longrightarrow> g s = Inr (True, s') \<Longrightarrow> good s'"
  shows "good s \<Longrightarrow> rounds k f s = rounds k g s"
proof (induction k arbitrary: s)
  case (Suc k)
  show ?case
  proof (cases "g s")
    case (Inr x)
    then show ?thesis using Suc assms by (cases x) auto
  qed (use Suc.prems assms in simp)
qed simp

lemma send_pass:
  assumes "fills C" "steady s"
  shows "client_send_pass L C rfd wfd s = encrypt_body False L C rfd wfd s"
    and "encrypt_body False L C rfd wfd s = Inr (again, s') \<Longrightarrow> steady s'"
proof -
  have "client_send_pass L C rfd wfd s = encrypt_body False L C rfd wfd s
    \<and> (\<forall>again s'. encrypt_body False L C rfd wfd s = Inr (again, s') \<longrightarrow> steady s')"
  proof (cases "sys_read rfd s")
    case (Inr s1)
    note s1 = steady_read [OF Inr assms(2)]
    then have enc: "client_encrypt L C s1 = encrypt L C s1" by (intro client_encrypt_eq assms(1)) (simp add: steady_def)
    show ?thesis
    proof (cases "encrypt L C s1")
      case e: (Inr x)
      obtain r s2 where x: "x = (r, s2)" by (cases x)
      note s2 = steady_encrypt [OF e [unfolded x] s1]
      have wr: "client_insist_write wfd (buf s2) 512 s2 = insist_write wfd (buf s2) s2"
        by (rule client_insist_write_eq) (use s2 in \<open>auto simp: steady_def\<close>)
      show ?thesis
      proof (cases "insist_write wfd (buf s2) s2")
        case w: (Inr y)
        obtain n s3 where y: "y = (n, s3)" by (cases y)
        have "length (buf s2) = 512" using s2 by (simp add: steady_def)
        note s3 = insist_write_result [OF w [unfolded y] s2 this]
        have c: "steady (s3\<lparr>conn_active := False\<rparr>)" using s3(1) by (simp add: steady_def)
        show ?thesis
          using s3(1) c by (simp add: client_send_pass_def encrypt_body_def Inr enc e x wr w y s3(2) clear_conn_active_def Let_def)
      qed (simp add: client_send_pass_def encrypt_body_def Inr enc e x wr Let_def)
    qed (simp add: client_send_pass_def encrypt_body_def Inr enc Let_def)
  qed (simp add: client_send_pass_def encrypt_body_def)
  then show "client_send_pass L C rfd wfd s = encrypt_body False L C rfd wfd s"
    "encrypt_body False L C rfd wfd s = Inr (again, s') \<Longrightarrow> steady s'" by blast+
qed

lemma receive_pass:
  assumes "fills C" "steady s"
  shows "server_receive_pass L C rfd wfd s = decrypt_body True L C rfd wfd s"
    and "decrypt_body True L C rfd wfd s = Inr (again, s') \<Longrightarrow> steady s'"
proof -
  have "server_receive_pass L C rfd wfd s = decrypt_body True L C rfd wfd s
    \<and> (\<forall>again s'. decrypt_body True L C rfd wfd s = Inr (again, s') \<longrightarrow> steady s')"
  proof (cases "sys_read rfd s")
    case (Inr s1)
    note s1 = steady_read [OF Inr assms(2)]
    then have dec: "server_decrypt L C s1 = decrypt L C s1" by (intro server_decrypt_eq assms(1)) (simp add: steady_def)
    show ?thesis
    proof (cases "decrypt L C s1")
      case e: (Inr x)
      obtain r s2 where x: "x = (r, s2)" by (cases x)
      note s2 = steady_decrypt [OF e [unfolded x] s1]
      have wr: "client_insist_write wfd (buf s2) 512 s2 = insist_write wfd (buf s2) s2"
        by (rule client_insist_write_eq) (use s2 in \<open>auto simp: steady_def\<close>)
      show ?thesis
      proof (cases "insist_write wfd (buf s2) s2")
        case w: (Inr y)
        obtain n s3 where y: "y = (n, s3)" by (cases y)
        have "length (buf s2) = 512" using s2 by (simp add: steady_def)
        note s3 = insist_write_result [OF w [unfolded y] s2 this]
        have c: "steady (s3\<lparr>conn_active := False\<rparr>)" using s3(1) by (simp add: steady_def)
        show ?thesis
          using s3(1) c by (simp add: server_receive_pass_def decrypt_body_def Inr dec e x wr w y s3(2) clear_conn_active_def)
      qed (simp add: server_receive_pass_def decrypt_body_def Inr dec e x wr)
    qed (simp add: server_receive_pass_def decrypt_body_def Inr dec)
  qed (simp add: server_receive_pass_def decrypt_body_def)
  then show "server_receive_pass L C rfd wfd s = decrypt_body True L C rfd wfd s"
    "decrypt_body True L C rfd wfd s = Inr (again, s') \<Longrightarrow> steady s'" by blast+
qed

section \<open>Properties\<close>

text \<open>C23: the model of the chat is what the code does with its machine integers. With any device that fills
  the destination of an operation, and any environment whose failed writes return values of their type,
  the sending loop of the client and the receiving loop of the server, with their moving pointers, 64-bit
  counts, 32-bit indices and bounds, return, wait, leave or run out of their arrays exactly when the
  functions on lists do, in the same state: no count wraps, and the loops of both stop at the same byte.\<close>

theorem chat_loops_as_modelled:
  assumes "fills C" "steady s"
  shows "client_read_encrypt_write L C rfd wfd s = read_encrypt_write False L C rfd wfd s
    \<and> server_read_decrypt_write L C rfd wfd s = read_decrypt_write True L C rfd wfd s"
proof
  show "client_read_encrypt_write L C rfd wfd s = read_encrypt_write False L C rfd wfd s"
    unfolding client_read_encrypt_write_def read_encrypt_write_def
    by (rule rounds_cong [where good = steady]) (use assms send_pass in blast)+
  show "server_read_decrypt_write L C rfd wfd s = read_decrypt_write True L C rfd wfd s"
    unfolding server_read_decrypt_write_def read_decrypt_write_def
    by (rule rounds_cong [where good = steady]) (use assms receive_pass in blast)+
qed

text \<open>A device that turns the bytes around, and an end whose writes take 100 bytes at a time.\<close>

definition mirror :: "unit crypto_dev" where
  "mirror = \<lparr>d_gsession = (\<lambda>s k d. Some (0, s, d)), d_crypt = (\<lambda>c b iv d. Some (0, rev b, d)),
     d_fsession = (\<lambda>i d. Some (0, d))\<rparr>"

definition slow_end :: "unit chat" where
  "slow_end = \<lparr>buf = replicate 512 0, rn = 0, dec_buf_len = 1,
     sess = \<lparr>cipher = 0, mac = 0, keylen = 0, key = 0, mackeylen = 0, mackey = 0, ses = 1\<rparr>, conn_active = True, dev = (),
     inq = (\<lambda>_. [Some [104, 105, 10]]), caps = (\<lambda>_. [100, 100, 100, 100, 100, 100]), outq = (\<lambda>_. [])\<rparr>"

definition some_layout :: layout where
  "some_layout = \<lparr>at_buf = 0x1000, at_data = 0x2000, at_invect = 0x3000, at_key = 0x4000, below = (\<lambda>_. 0)\<rparr>"

lemma chat_loops_as_modelled_witness:
  "client_read_encrypt_write some_layout mirror Stdin Sock slow_end = read_encrypt_write False some_layout mirror Stdin Sock slow_end
   \<and> server_read_decrypt_write some_layout mirror Sock Stdout slow_end = read_decrypt_write True some_layout mirror Sock Stdout slow_end"
proof -
  have "fills mirror" by (simp add: fills_def mirror_def)
  moreover have "steady slow_end" by (simp add: steady_def slow_end_def)
  ultimately show ?thesis using chat_loops_as_modelled by blast
qed

end
