(* ===== verification/Attach.thy ===== *)
theory Attach
  imports Format
begin

text \<open>
  The program that puts the line discipline on a TTY, \<open>lunix-attach.c\<close>: lock files, the settings
  of the line in \<open>struct termios\<close>, opening and closing. \<open>None\<close> is an access outside an array.
\<close>

section \<open>The settings of a line\<close>

text \<open>\<open>struct termios\<close> of \<open><termios.h>\<close>, and the values of its flags on Linux.\<close>

record termios =
  c_iflag :: u32
  c_oflag :: u32
  c_cflag :: u32
  c_lflag :: u32
  c_cc :: "u8 list"

definition NCCS :: nat where "NCCS = 32"
definition VTIME :: nat where "VTIME = 5"
definition VMIN :: nat where "VMIN = 6"
definition IGNBRK :: u32 where "IGNBRK = 0x1"
definition IGNPAR :: u32 where "IGNPAR = 0x4"
definition CSIZE :: u32 where "CSIZE = 0x30"
definition CS5 :: u32 where "CS5 = 0x00"
definition CS6 :: u32 where "CS6 = 0x10"
definition CS7 :: u32 where "CS7 = 0x20"
definition CS8 :: u32 where "CS8 = 0x30"
definition CSTOPB :: u32 where "CSTOPB = 0x40"
definition CREAD :: u32 where "CREAD = 0x80"
definition PARENB :: u32 where "PARENB = 0x100"
definition PARODD :: u32 where "PARODD = 0x200"
definition HUPCL :: u32 where "HUPCL = 0x400"
definition CLOCAL :: u32 where "CLOCAL = 0x800"
definition CBAUD :: u32 where "CBAUD = 0x100F"
definition CRTSCTS :: u32 where "CRTSCTS = 0x80000000"
definition N_LUNIX_LDISC :: int where "N_LUNIX_LDISC = 8"

lemmas termios_flags =
  IGNBRK_def IGNPAR_def CSIZE_def CS5_def CS6_def CS7_def CS8_def CSTOPB_def CREAD_def PARENB_def PARODD_def
  HUPCL_def CLOCAL_def CBAUD_def CRTSCTS_def

text \<open>The table of speeds; Linux has no \<open>B14400\<close>.\<close>

definition tty_speeds :: "(string \<times> int) list" where
  "tty_speeds = [(''50'', 1), (''75'', 2), (''110'', 3), (''300'', 7), (''600'', 8), (''1200'', 9), (''2400'', 11),
     (''4800'', 12), (''9600'', 13), (''19200'', 14), (''38400'', 15), (''57600'', 0x1001), (''115200'', 0x1002)]"

fun find_speed :: "(string \<times> int) list \<Rightarrow> string \<Rightarrow> int" where
  "find_speed [] speed = - EINVAL"
| "find_speed ((name, code) # rest) speed = (if name = speed then code else find_speed rest speed)"

definition tty_find_speed :: "string \<Rightarrow> int" where
  "tty_find_speed speed = find_speed tty_speeds speed"

text \<open>The settings; the result is 0 or a negative error number, and the settings after the call.\<close>

definition tty_set_stopbits :: "termios \<Rightarrow> char \<Rightarrow> int \<times> termios" where
  "tty_set_stopbits tty stopbits =
     (if stopbits = CHR ''1'' then (0, tty\<lparr>c_cflag := c_cflag tty AND NOT CSTOPB\<rparr>)
      else if stopbits = CHR ''2'' then (0, tty\<lparr>c_cflag := c_cflag tty OR CSTOPB\<rparr>)
      else (- EINVAL, tty))"

definition tty_set_databits :: "termios \<Rightarrow> char \<Rightarrow> int \<times> termios" where
  "tty_set_databits tty databits =
     (let tty = tty\<lparr>c_cflag := c_cflag tty AND NOT CSIZE\<rparr> in
      if databits = CHR ''5'' then (0, tty\<lparr>c_cflag := c_cflag tty OR CS5\<rparr>)
      else if databits = CHR ''6'' then (0, tty\<lparr>c_cflag := c_cflag tty OR CS6\<rparr>)
      else if databits = CHR ''7'' then (0, tty\<lparr>c_cflag := c_cflag tty OR CS7\<rparr>)
      else if databits = CHR ''8'' then (0, tty\<lparr>c_cflag := c_cflag tty OR CS8\<rparr>)
      else (- EINVAL, tty))"

definition toupper :: "char \<Rightarrow> char" where
  "toupper c = (if 97 \<le> (of_char c :: nat) \<and> (of_char c :: nat) \<le> 122 then char_of ((of_char c :: nat) - 32) else c)"

definition tty_set_parity :: "termios \<Rightarrow> char \<Rightarrow> int \<times> termios" where
  "tty_set_parity tty parity =
     (let c = toupper parity; off = tty\<lparr>c_cflag := c_cflag tty AND NOT (PARENB OR PARODD)\<rparr> in
      if c = CHR ''N'' then (0, off)
      else if c = CHR ''O'' then (0, off\<lparr>c_cflag := c_cflag off OR (PARENB OR PARODD)\<rparr>)
      else if c = CHR ''E'' then (0, off\<lparr>c_cflag := c_cflag off OR PARENB\<rparr>)
      else (- EINVAL, tty))"

definition tty_set_speed :: "termios \<Rightarrow> string \<Rightarrow> int \<times> termios" where
  "tty_set_speed tty speed =
     (let code = tty_find_speed speed in
      if code < 0 then (code, tty)
      else
        let tty = tty\<lparr>c_cflag := c_cflag tty AND NOT CBAUD\<rparr>
        in (0, tty\<lparr>c_cflag := c_cflag tty OR word_of_int code\<rparr>))"

definition tty_set_raw :: "termios \<Rightarrow> termios" where
  "tty_set_raw tty =
     (let tty = tty\<lparr>c_cc := fold (\<lambda>i cc. cc[i := 0]) [0..<NCCS] (c_cc tty)\<rparr>;
          tty = tty\<lparr>c_cc := (c_cc tty)[VMIN := 1]\<rparr>;
          tty = tty\<lparr>c_cc := (c_cc tty)[VTIME := 0]\<rparr>;
          tty = tty\<lparr>c_iflag := IGNBRK OR IGNPAR, c_oflag := 0, c_lflag := 0\<rparr>;
          speed = c_cflag tty AND CBAUD;
          tty = tty\<lparr>c_cflag := CRTSCTS OR HUPCL OR CREAD\<rparr>;
          tty = tty\<lparr>c_cflag := c_cflag tty OR CLOCAL\<rparr>
      in tty\<lparr>c_cflag := c_cflag tty OR speed\<rparr>)"

section \<open>Lock files\<close>

text \<open>\<open>fscanf(fd, "%d", &pid)\<close> on the text of a file: white space, a sign, digits.\<close>

definition is_space :: "char \<Rightarrow> bool" where
  "is_space c \<longleftrightarrow> c \<in> {CHR '' '', CHR 0x09, CHR 0x0A, CHR 0x0B, CHR 0x0C, CHR 0x0D}"

definition is_digit :: "char \<Rightarrow> bool" where
  "is_digit c \<longleftrightarrow> 48 \<le> (of_char c :: nat) \<and> (of_char c :: nat) \<le> 57"

definition scan_int :: "string \<Rightarrow> int option" where
  "scan_int s =
     (let s = dropWhile is_space s;
          neg = (s \<noteq> [] \<and> hd s = CHR ''-'');
          s = (if s \<noteq> [] \<and> hd s \<in> {CHR ''-'', CHR ''+''} then tl s else s);
          ds = takeWhile is_digit s
      in if ds = [] then None else Some (if neg then - int (undec ds) else int (undec ds)))"

text \<open>\<open>sprintf(apid, "%10d\n", getpid())\<close>, for a positive number.\<close>

definition pid_text :: "nat \<Rightarrow> string" where
  "pid_text p = replicate (10 - length (dec p)) CHR '' '' @ dec p @ [CHR 0x0A]"

text \<open>The files by path; \<open>alive p\<close> says that \<open>kill(p, 0)\<close> returns 0.\<close>

type_synonym files = "string \<rightharpoonup> string"

definition tty_already_locked :: "(int \<Rightarrow> bool) \<Rightarrow> files \<Rightarrow> string \<Rightarrow> bool" where
  "tty_already_locked alive fs nam =
     (case fs nam of
        None \<Rightarrow> False
      | Some text \<Rightarrow> (case scan_int text of None \<Rightarrow> False | Some p \<Rightarrow> alive p))"

definition PATH_MAX :: nat where "PATH_MAX = 4096"

definition PATH_LOCKD :: string where "PATH_LOCKD = ''/var/lock''"

definition lock_path :: "string \<Rightarrow> string" where
  "lock_path path = PATH_LOCKD @ ''/LCK..'' @ path"

text \<open>
  The state of the program and of the line: the statics of \<open>tty_lock\<close>, the globals, the files, and
  what the TTY is set to.
\<close>

record attach =
  files :: files
  saved_lock :: bool
  saved_path :: string
  tty_fd :: int
  tty_before :: termios
  tty_current :: termios
  ldisc_before :: int
  line_termios :: termios
  line_ldisc :: int

text \<open>
  The answers of the system: negative numbers are error numbers. \<open>e_write\<close> is how much of the lock
  file's text is written, \<open>e_uucp\<close> whether the user that owns locks is known. \<open>e_after\<close> is the
  length of the string that \<open>name + 6\<close> points to when the name is shorter than that.
\<close>

record attach_env =
  e_alive :: "int \<Rightarrow> bool"
  e_pid :: nat
  e_creat :: int
  e_write :: int
  e_uucp :: bool
  e_unlink :: int
  e_open :: int
  e_tcgets :: int
  e_tcsets :: int
  e_getd :: int
  e_setd :: "int \<Rightarrow> int"
  e_after :: nat

definition lock_line :: "attach_env \<Rightarrow> string \<Rightarrow> attach \<Rightarrow> (int \<times> attach) option" where
  "lock_line V path s =
     (if PATH_MAX \<le> length (lock_path path) then None
      else
        let s = s\<lparr>saved_path := lock_path path\<rparr> in
        if tty_already_locked (e_alive V) (files s) (saved_path s) then Some (-1, s)
        else if e_creat V < 0 then Some (-1, s)
        else
          let s = s\<lparr>files := (files s)(saved_path s \<mapsto> [])\<rparr>;
              apid = pid_text (e_pid V) in
          if 16 \<le> length apid then None
          else
            let s = s\<lparr>files := (files s)(saved_path s \<mapsto> take (nat (e_write V)) apid)\<rparr> in
            if e_write V \<noteq> int (length apid) then Some (-1, if e_unlink V < 0 then s else s\<lparr>files := (files s)(saved_path s := None)\<rparr>)
            else if \<not> e_uucp V then Some (0, s)
            else Some (0, s\<lparr>saved_lock := True\<rparr>))"

definition unlock_line :: "attach_env \<Rightarrow> attach \<Rightarrow> int \<times> attach" where
  "unlock_line V s =
     (if \<not> saved_lock s then (0, s)
      else if e_unlink V < 0 then (-1, s)
      else (0, s\<lparr>files := (files s)(saved_path s := None), saved_lock := False\<rparr>))"

definition tty_lock :: "attach_env \<Rightarrow> string \<Rightarrow> int \<Rightarrow> attach \<Rightarrow> (int \<times> attach) option" where
  "tty_lock V path mode s = (if mode = 1 then lock_line V path s else Some (unlock_line V s))"

section \<open>Opening and closing the line\<close>

definition tty_get_state :: "attach_env \<Rightarrow> attach \<Rightarrow> int \<times> termios" where
  "tty_get_state V s = (if e_tcgets V < 0 then (e_tcgets V, tty_before s) else (0, line_termios s))"

definition tty_set_state :: "attach_env \<Rightarrow> termios \<Rightarrow> attach \<Rightarrow> int \<times> attach" where
  "tty_set_state V tty s = (if e_tcsets V < 0 then (e_tcsets V, s) else (0, s\<lparr>line_termios := tty\<rparr>))"

definition tty_get_ldisc :: "attach_env \<Rightarrow> attach \<Rightarrow> int \<times> int" where
  "tty_get_ldisc V s = (if e_getd V < 0 then (e_getd V, ldisc_before s) else (0, line_ldisc s))"

definition tty_set_ldisc :: "attach_env \<Rightarrow> int \<Rightarrow> attach \<Rightarrow> int \<times> attach" where
  "tty_set_ldisc V disc s = (if e_setd V disc < 0 then (e_setd V disc, s) else (0, s\<lparr>line_ldisc := disc\<rparr>))"

definition tty_restore :: "attach_env \<Rightarrow> attach \<Rightarrow> int \<times> attach" where
  "tty_restore V s =
     (let tty = snd (tty_set_speed (tty_before s) ''0'')
      in tty_set_state V tty s)"

definition tty_close :: "attach_env \<Rightarrow> attach \<Rightarrow> int \<times> attach" where
  "tty_close V s =
     (let s = snd (tty_set_ldisc V (ldisc_before s) s);
          s = snd (tty_restore V s);
          s = snd (unlock_line V s)
      in (0, s))"

text \<open>
  The paths that \<open>tty_open\<close> makes of its argument. The test for long names measures \<open>name + 6\<close>
  instead of adding 6 to the length.
\<close>

datatype tty_path = Too_long | Overflow | Paths string string

definition tty_paths :: "attach_env \<Rightarrow> string \<Rightarrow> tty_path" where
  "tty_paths V name =
     (if name = [] \<or> hd name \<noteq> CHR ''/'' then
        (if PATH_MAX < (if length name < 6 then e_after V else length name - 6) then Too_long
         else if PATH_MAX \<le> length (''/dev/'' @ name) then Overflow
         else Paths (''/dev/'' @ name) name)
      else if take 5 name = ''/dev/'' then Paths name (drop 5 name)
      else Paths name name)"

text \<open>The condition of \<open>tty_open\<close> that sets 8 data bits, 1 stop bit and no parity: the first of the three
  that fails ends it.\<close>

definition set_8N1 :: "termios \<Rightarrow> int \<times> termios" where
  "set_8N1 tty =
     (case tty_set_databits tty CHR ''8'' of (r, tty) \<Rightarrow>
      if r \<noteq> 0 then (r, tty)
      else case tty_set_stopbits tty CHR ''1'' of (r, tty) \<Rightarrow>
      if r \<noteq> 0 then (r, tty)
      else tty_set_parity tty CHR ''N'')"

text \<open>The part of \<open>tty_open\<close> after the device is open. What it returns for the settings that cannot
  fail is left open in the code (the last error number).\<close>

definition tty_setup :: "attach_env \<Rightarrow> attach \<Rightarrow> int \<times> attach" where
  "tty_setup V s =
     (case tty_get_state V s of (r, t) \<Rightarrow>
      let s = s\<lparr>tty_before := t\<rparr> in
      if r < 0 then (r, s)
      else
        let s = s\<lparr>tty_current := tty_before s\<rparr> in
        case tty_get_ldisc V s of (r, d) \<Rightarrow>
        let s = s\<lparr>ldisc_before := d\<rparr> in
        if r < 0 then (r, s)
        else
          let s = s\<lparr>tty_current := tty_set_raw (tty_current s)\<rparr> in
          case tty_set_speed (tty_current s) ''57600'' of (r, t) \<Rightarrow>
          let s = s\<lparr>tty_current := t\<rparr> in
          if r \<noteq> 0 then (-1, s)
          else
            case set_8N1 (tty_current s) of (r, t) \<Rightarrow>
            let s = s\<lparr>tty_current := t\<rparr> in
            if r \<noteq> 0 then (-1, s)
            else
              case tty_set_state V (tty_current s) s of (r, s) \<Rightarrow>
              if r < 0 then (r, s)
              else
                case tty_set_ldisc V N_LUNIX_LDISC s of (r, s) \<Rightarrow>
                if r < 0 then (r, s) else (0, s))"

definition tty_open :: "attach_env \<Rightarrow> string option \<Rightarrow> attach \<Rightarrow> (int \<times> attach) option" where
  "tty_open V name s =
     (case name of
        None \<Rightarrow> Some (tty_setup V (s\<lparr>tty_fd := 0\<rparr>))
      | Some name \<Rightarrow>
          (case tty_paths V name of
             Too_long \<Rightarrow> Some (-1, s)
           | Overflow \<Rightarrow> None
           | Paths path_open path_lock \<Rightarrow> do {
               (r, s) \<leftarrow> tty_lock V path_lock 1 s;
               if r \<noteq> 0 then Some (-1, s)
               else if e_open V < 0 then Some (e_open V, s)
               else Some (tty_setup V (s\<lparr>tty_fd := e_open V\<rparr>))
             }))"

text \<open>
  \<open>main\<close>, up to the signal that ends it: the exit status. \<open>V'\<close> are the answers of the system when
  the signal comes.
\<close>

definition attach_main :: "attach_env \<Rightarrow> attach_env \<Rightarrow> string list \<Rightarrow> attach \<Rightarrow> (int \<times> attach) option" where
  "attach_main V V' args s =
     (case args of
        [name] \<Rightarrow> do {
          (r, s) \<leftarrow> tty_open V (Some name) s;
          if r < 0 then Some (1, s)
          else Some (0, snd (tty_close V' s))
        }
      | _ \<Rightarrow> Some (1, s))"

section \<open>Lemmas\<close>

text \<open>What \<open>pid_text\<close> writes, \<open>scan_int\<close> reads.\<close>

lemma is_digit_digit: "n < 10 \<Longrightarrow> is_digit (digit n)"
  by (simp add: is_digit_def digit_def)

lemma dec_is_digit: "c \<in> set (dec n) \<Longrightarrow> is_digit c"
  using dec_digits is_digit_digit by blast

lemma digit_no_space: "is_digit c \<Longrightarrow> \<not> is_space c \<and> c \<noteq> CHR ''-'' \<and> c \<noteq> CHR ''+''"
  by (auto simp: is_digit_def is_space_def)

lemma dropWhile_replicate: "P c \<Longrightarrow> dropWhile P (replicate k c @ s) = dropWhile P s"
  by (induction k) simp_all

lemma scan_pid_text [simp]: "scan_int (pid_text p) = Some (int p)"
proof -
  obtain c cs where c: "dec p = c # cs" using dec_nonempty by (metis neq_Nil_conv)
  then have d: "is_digit c" "\<forall>x \<in> set (dec p). is_digit x" using dec_is_digit by (metis list.set_intros(1), blast)
  have "dropWhile is_space (pid_text p) = dropWhile is_space (dec p @ [CHR 0x0A])"
    unfolding pid_text_def by (rule dropWhile_replicate) (simp add: is_space_def)
  then have s: "dropWhile is_space (pid_text p) = dec p @ [CHR 0x0A]"
    using c d(1) digit_no_space by simp
  have n: "\<not> is_digit (CHR 0x0A)" by (simp add: is_digit_def)
  have t: "takeWhile is_digit (dec p @ [CHR 0x0A]) = dec p"
    using d(2) n by (simp add: takeWhile_append2)
  have h: "hd (dec p @ [CHR 0x0A]) = c" by (simp add: c)
  have "\<not> hd (dec p @ [CHR 0x0A]) \<in> {CHR ''-'', CHR ''+''}" "hd (dec p @ [CHR 0x0A]) \<noteq> CHR ''-''"
    using digit_no_space [OF d(1)] by (simp_all add: h)
  then show ?thesis
    unfolding scan_int_def s Let_def by (simp add: t dec_nonempty)
qed

lemma length_pid_text: "p < 2 ^ 31 \<Longrightarrow> length (pid_text p) = 11"
proof -
  assume "p < 2 ^ 31"
  then have "length (dec p) \<le> Suc 9" by (intro length_dec_le) simp
  then show ?thesis by (simp add: pid_text_def)
qed

text \<open>The settings that \<open>tty_open\<close> makes, from any settings before.\<close>

definition lunix_termios :: termios where
  "lunix_termios = \<lparr>c_iflag = 0x5, c_oflag = 0, c_cflag = 0x80001CB1, c_lflag = 0, c_cc = (replicate 32 0)[6 := 1]\<rparr>"

lemma raw_cc: "length cc = 32 \<Longrightarrow> fold (\<lambda>i cc. cc[i := 0]) [0..<NCCS] cc = replicate 32 0"
proof -
  assume "length cc = 32"
  moreover have "k \<le> length cc \<Longrightarrow> fold (\<lambda>i cc. cc[i := 0]) [0..<k] cc = replicate k 0 @ drop k cc" for k
  proof (induction k)
    case (Suc k)
    then have "drop k cc = cc ! k # drop (Suc k) cc" by (simp add: Cons_nth_drop_Suc)
    then show ?case using Suc by (simp add: list_update_append replicate_append_same)
  qed simp
  ultimately show ?thesis by (simp add: NCCS_def)
qed

lemma speed_57600: "tty_find_speed ''57600'' = 0x1001" and speed_0: "tty_find_speed ''0'' = - EINVAL"
  by (simp_all add: tty_find_speed_def tty_speeds_def)

lemma toupper_N: "toupper CHR ''N'' = CHR ''N''"
  by (simp add: toupper_def)

lemma settings:
  assumes "length (c_cc t) = 32"
  shows "\<exists>t1. tty_set_speed (tty_set_raw t) ''57600'' = (0, t1) \<and> set_8N1 t1 = (0, lunix_termios)"
proof -
  let ?c = "CRTSCTS OR HUPCL OR CREAD OR CLOCAL OR (c_cflag t AND CBAUD)"
  have cc: "(replicate 32 (0 :: u8))[6 := 1, 5 := 0] = (replicate 32 0)[6 := 1]"
    by (simp add: list_update_same_conv)
  have raw: "tty_set_raw t = \<lparr>c_iflag = 0x5, c_oflag = 0, c_cflag = ?c, c_lflag = 0, c_cc = (replicate 32 0)[6 := 1]\<rparr>"
    using assms cc
    by (cases t) (simp add: tty_set_raw_def Let_def raw_cc VMIN_def VTIME_def IGNBRK_def IGNPAR_def or.assoc)
  have flags: "(?c AND NOT CBAUD OR 0x1001) AND NOT CSIZE OR CS8 = 0x80001CB1"
  proof -
    have "(?c AND NOT CBAUD) = CRTSCTS OR HUPCL OR CREAD OR CLOCAL"
      by (simp add: termios_flags bit.conj_disj_distrib2 and.assoc)
    then show ?thesis by (simp add: termios_flags)
  qed
  show ?thesis
    by (simp add: raw tty_set_speed_def speed_57600 set_8N1_def tty_set_databits_def tty_set_stopbits_def
        tty_set_parity_def toupper_N Let_def flags) (simp add: lunix_termios_def termios_flags)
qed

text \<open>A lock that has been taken.\<close>

lemma lock_line_ok:
  assumes "lock_line V path s = Some (0, s1)" "e_pid V < 2 ^ 31"
  shows "s1 = s\<lparr>saved_path := lock_path path, files := (files s)(lock_path path \<mapsto> pid_text (e_pid V)),
      saved_lock := (e_uucp V \<or> saved_lock s)\<rparr>"
  using assms by (cases s) (auto simp: lock_line_def Let_def length_pid_text split: if_splits)

text \<open>What \<open>tty_setup\<close> does when every call succeeds, and in general to the line discipline.\<close>

lemma tty_setup_ok:
  assumes "length (c_cc (line_termios s)) = 32"
    and "0 \<le> e_tcgets V" "0 \<le> e_getd V" "0 \<le> e_tcsets V"
  shows "tty_setup V s =
    (let s1 = s\<lparr>tty_before := line_termios s, tty_current := lunix_termios, ldisc_before := line_ldisc s,
         line_termios := lunix_termios\<rparr>
     in if e_setd V N_LUNIX_LDISC < 0 then (e_setd V N_LUNIX_LDISC, s1)
        else (0, s1\<lparr>line_ldisc := N_LUNIX_LDISC\<rparr>))"
proof -
  obtain t1 where t1: "tty_set_speed (tty_set_raw (line_termios s)) ''57600'' = (0, t1)" "set_8N1 t1 = (0, lunix_termios)"
    using settings [OF assms(1)] by blast
  show ?thesis
    using assms(2-4) t1
    by (cases s) (simp add: tty_setup_def tty_get_state_def tty_get_ldisc_def tty_set_state_def tty_set_ldisc_def Let_def)
qed

lemma tty_setup_success:
  assumes "tty_setup V s = (0, s1)" "length (c_cc (line_termios s)) = 32"
  shows "0 \<le> e_tcgets V \<and> 0 \<le> e_getd V \<and> 0 \<le> e_tcsets V \<and> 0 \<le> e_setd V N_LUNIX_LDISC"
proof -
  obtain t1 where t1: "tty_set_speed (tty_set_raw (line_termios s)) ''57600'' = (0, t1)" "set_8N1 t1 = (0, lunix_termios)"
    using settings [OF assms(2)] by blast
  show ?thesis
    using assms(1) t1
    by (auto simp: tty_setup_def tty_get_state_def tty_get_ldisc_def tty_set_state_def tty_set_ldisc_def Let_def
        split: if_splits)
qed

lemma tty_open_success:
  assumes "tty_open V (Some name) s = Some (0, s1)" "e_pid V < 2 ^ 31" "length (c_cc (line_termios s)) = 32"
  obtains dev path where "tty_paths V name = Paths dev path"
    "s1 = s\<lparr>saved_path := lock_path path, files := (files s)(lock_path path \<mapsto> pid_text (e_pid V)),
       saved_lock := (e_uucp V \<or> saved_lock s), tty_fd := e_open V, tty_before := line_termios s,
       tty_current := lunix_termios, ldisc_before := line_ldisc s, line_termios := lunix_termios,
       line_ldisc := N_LUNIX_LDISC\<rparr>"
proof -
  obtain dev path where p: "tty_paths V name = Paths dev path"
    using assms(1) by (auto simp: tty_open_def split: tty_path.splits)
  obtain s0 where s0: "lock_line V path s = Some (0, s0)" "0 \<le> e_open V" "tty_setup V (s0\<lparr>tty_fd := e_open V\<rparr>) = (0, s1)"
    using assms(1) p by (auto simp: tty_open_def tty_lock_def bind_Some_iff split: if_splits)
  have s0_eq: "s0 = s\<lparr>saved_path := lock_path path, files := (files s)(lock_path path \<mapsto> pid_text (e_pid V)),
      saved_lock := (e_uucp V \<or> saved_lock s)\<rparr>"
    by (rule lock_line_ok [OF s0(1) assms(2)])
  have cc: "length (c_cc (line_termios (s0\<lparr>tty_fd := e_open V\<rparr>))) = 32" using assms(3) s0_eq by simp
  note ok = tty_setup_success [OF s0(3) cc]
  then show thesis
    using that p s0(3) tty_setup_ok [OF cc, of V] s0_eq by (simp add: Let_def)
qed

text \<open>What is left when the kernel refuses the discipline.\<close>

lemma refused_attach:
  assumes "tty_paths V name = Paths dev path" "tty_lock V path 1 s = Some (0, s0)" "e_pid V < 2 ^ 31"
    and "length (c_cc (line_termios s)) = 32" "0 \<le> e_open V" "0 \<le> e_tcgets V" "0 \<le> e_getd V" "0 \<le> e_tcsets V"
    and "e_setd V N_LUNIX_LDISC < 0"
  shows "\<exists>s1. attach_main V V' [name] s = Some (1, s1) \<and> line_ldisc s1 = line_ldisc s
    \<and> line_termios s1 = lunix_termios \<and> files s1 (lock_path path) = Some (pid_text (e_pid V))"
proof -
  have s0: "s0 = s\<lparr>saved_path := lock_path path, files := (files s)(lock_path path \<mapsto> pid_text (e_pid V)),
      saved_lock := (e_uucp V \<or> saved_lock s)\<rparr>"
    using assms(2,3) by (intro lock_line_ok) (simp_all add: tty_lock_def)
  have "length (c_cc (line_termios (s0\<lparr>tty_fd := e_open V\<rparr>))) = 32" using assms(4) s0 by simp
  from tty_setup_ok [OF this assms(6-8)] show ?thesis
    using assms(1,2,5,9) s0 by (auto simp: attach_main_def tty_open_def Let_def)
qed

section \<open>Properties\<close>

text \<open>C22: a lock excludes. Once the line is locked, any other instance that tries to lock the same line
  is refused, and changes no file, as long as the process of the first is alive; when it is dead, the
  stale lock is taken over. The number of the process goes through the text of the file and back.\<close>

theorem lock_excludes:
  assumes "tty_lock V path 1 s = Some (0, s1)" "e_pid V < 2 ^ 31" "files t = files s1"
  shows "(e_alive V2 (int (e_pid V)) \<longrightarrow> tty_lock V2 path 1 t = Some (-1, t\<lparr>saved_path := lock_path path\<rparr>))
    \<and> (\<not> e_alive V2 (int (e_pid V)) \<and> 0 \<le> e_creat V2 \<and> e_write V2 = 11 \<and> e_pid V2 < 2 ^ 31 \<longrightarrow>
        (\<exists>t1. tty_lock V2 path 1 t = Some (0, t1) \<and> files t1 = (files s1)(lock_path path \<mapsto> pid_text (e_pid V2))))"
proof -
  have l: "lock_line V path s = Some (0, s1)" using assms(1) by (simp add: tty_lock_def)
  then have len: "length (lock_path path) < PATH_MAX" by (auto simp: lock_line_def split: if_splits)
  have lockfile: "files t (lock_path path) = Some (pid_text (e_pid V))"
    using lock_line_ok [OF l assms(2)] assms(3) by simp
  show ?thesis
    using len lockfile assms(3)
    by (auto simp: tty_lock_def lock_line_def tty_already_locked_def Let_def length_pid_text)
qed

definition sample_env :: attach_env where
  "sample_env = \<lparr>e_alive = (\<lambda>p. p = 42), e_pid = 42, e_creat = 3, e_write = 11, e_uucp = True, e_unlink = 0, e_open = 3,
     e_tcgets = 0, e_tcsets = 0, e_getd = 0, e_setd = (\<lambda>_. 0), e_after = 0\<rparr>"

definition sample_line :: attach where
  "sample_line = \<lparr>files = Map.empty, saved_lock = False, saved_path = [], tty_fd = -1,
     tty_before = lunix_termios, tty_current = lunix_termios, ldisc_before = 0,
     line_termios = \<lparr>c_iflag = 0x500, c_oflag = 1, c_cflag = 0xCBD, c_lflag = 0x8A3B, c_cc = replicate 32 3\<rparr>, line_ldisc = 0\<rparr>"

lemma sample_lock:
  "tty_lock sample_env ''ttyS0'' 1 sample_line = Some (0, sample_line\<lparr>saved_path := lock_path ''ttyS0'',
     files := [lock_path ''ttyS0'' \<mapsto> pid_text 42], saved_lock := True\<rparr>)"
  by (simp add: tty_lock_def lock_line_def sample_env_def sample_line_def tty_already_locked_def Let_def length_pid_text
      lock_path_def PATH_LOCKD_def PATH_MAX_def)

lemma lock_excludes_witness:
  "\<exists>s1. tty_lock sample_env ''ttyS0'' 1 sample_line = Some (0, s1)
    \<and> tty_lock sample_env ''ttyS0'' 1 s1 = Some (-1, s1\<lparr>saved_path := lock_path ''ttyS0''\<rparr>)"
  using sample_lock lock_excludes [OF sample_lock _ refl, of sample_env] by (simp add: sample_env_def)

text \<open>C21: attach and detach. An attach that succeeds leaves the line at 57600 bps, 8N1, raw, whatever
  its settings were, with the Lunix discipline and a lock file with the process's number; a detach
  gives the line its settings and its discipline back. The lock file is removed when the user that owns
  locks is known, and left behind otherwise.\<close>

theorem attach_then_detach:
  assumes "tty_open V (Some name) s = Some (0, s1)" "e_pid V < 2 ^ 31" "length (c_cc (line_termios s)) = 32"
    and "\<not> saved_lock s" "0 \<le> e_setd V' (line_ldisc s)" "0 \<le> e_tcsets V'" "0 \<le> e_unlink V'"
  shows "line_termios s1 = lunix_termios \<and> line_ldisc s1 = N_LUNIX_LDISC
    \<and> files s1 (saved_path s1) = Some (pid_text (e_pid V))
    \<and> (\<exists>s2. tty_close V' s1 = (0, s2) \<and> line_termios s2 = line_termios s \<and> line_ldisc s2 = line_ldisc s
         \<and> files s2 = (if e_uucp V then (files s)(saved_path s1 := None) else (files s)(saved_path s1 \<mapsto> pid_text (e_pid V))))"
proof -
  obtain dev path where s1: "tty_paths V name = Paths dev path"
    "s1 = s\<lparr>saved_path := lock_path path, files := (files s)(lock_path path \<mapsto> pid_text (e_pid V)),
       saved_lock := (e_uucp V \<or> saved_lock s), tty_fd := e_open V, tty_before := line_termios s,
       tty_current := lunix_termios, ldisc_before := line_ldisc s, line_termios := lunix_termios,
       line_ldisc := N_LUNIX_LDISC\<rparr>"
    by (rule tty_open_success [OF assms(1-3)])
  then show ?thesis
    using assms(4-7)
    by (simp add: tty_close_def tty_set_ldisc_def tty_restore_def tty_set_state_def tty_set_speed_def speed_0
        unlock_line_def Let_def)
qed

lemma sample_setup:
  "tty_open sample_env (Some ''ttyS0'') sample_line = Some (0, sample_line\<lparr>saved_path := lock_path ''ttyS0'',
     files := [lock_path ''ttyS0'' \<mapsto> pid_text 42], saved_lock := True, tty_fd := 3,
     tty_before := line_termios sample_line, tty_current := lunix_termios, ldisc_before := 0,
     line_termios := lunix_termios, line_ldisc := N_LUNIX_LDISC\<rparr>)"
proof -
  have p: "tty_paths sample_env ''ttyS0'' = Paths ''/dev/ttyS0'' ''ttyS0''"
    by (simp add: tty_paths_def sample_env_def PATH_MAX_def)
  let ?s = "sample_line\<lparr>saved_path := lock_path ''ttyS0'', files := [lock_path ''ttyS0'' \<mapsto> pid_text 42], saved_lock := True, tty_fd := 3\<rparr>"
  have "length (c_cc (line_termios ?s)) = 32" by (simp add: sample_line_def)
  from tty_setup_ok [OF this, of sample_env]
  have "tty_setup sample_env ?s = (0, ?s\<lparr>tty_before := line_termios sample_line, tty_current := lunix_termios, ldisc_before := 0,
     line_termios := lunix_termios, line_ldisc := N_LUNIX_LDISC\<rparr>)"
    by (simp add: sample_env_def sample_line_def Let_def)
  then show ?thesis
    by (simp add: tty_open_def p sample_lock) (simp add: sample_env_def)
qed

lemma attach_then_detach_witness:
  "\<exists>s1 s2. tty_open sample_env (Some ''ttyS0'') sample_line = Some (0, s1) \<and> tty_close sample_env s1 = (0, s2)
    \<and> c_cflag (line_termios s1) = 0x80001CB1 \<and> c_cflag (line_termios s2) = 0xCBD \<and> files s2 (lock_path ''ttyS0'') = None"
proof -
  have "e_pid sample_env < 2 ^ 31" "length (c_cc (line_termios sample_line)) = 32" "\<not> saved_lock sample_line"
    "0 \<le> e_setd sample_env (line_ldisc sample_line)" "0 \<le> e_tcsets sample_env" "0 \<le> e_unlink sample_env"
    by (simp_all add: sample_env_def sample_line_def)
  note a = attach_then_detach [OF sample_setup this]
  let ?s1 = "sample_line\<lparr>saved_path := lock_path ''ttyS0'', files := [lock_path ''ttyS0'' \<mapsto> pid_text 42], saved_lock := True,
     tty_fd := 3, tty_before := line_termios sample_line, tty_current := lunix_termios, ldisc_before := 0,
     line_termios := lunix_termios, line_ldisc := N_LUNIX_LDISC\<rparr>"
  from a obtain s2 where "tty_close sample_env ?s1 = (0, s2)" "line_termios s2 = line_termios sample_line"
    "files s2 = (if e_uucp sample_env then (files sample_line)(saved_path ?s1 := None)
       else (files sample_line)(saved_path ?s1 \<mapsto> pid_text (e_pid sample_env)))" by blast
  moreover have "c_cflag (line_termios ?s1) = 0x80001CB1" "c_cflag (line_termios sample_line) = 0xCBD"
    by (simp_all add: lunix_termios_def sample_line_def)
  moreover have "files s2 (lock_path ''ttyS0'') = None"
    using calculation(3) by (simp add: sample_env_def sample_line_def)
  ultimately show ?thesis using sample_setup by (intro exI [of _ ?s1] exI [of _ s2]) simp
qed

text \<open>C35: the bounds of the path buffers. The length test lets relative names through that do not fit:
  a name of 4081 to 4102 characters overruns one of the buffers of \<open>PATH_MAX\<close> bytes, a longer one is
  refused; and every name that is let through and is not too long for the lock file gives two paths that
  fit.\<close>

theorem long_names_overrun:
  assumes "name \<noteq> []" "hd name \<noteq> CHR ''/''" "6 \<le> length name"
  shows "(4080 < length name \<and> length name \<le> 4102 \<longrightarrow> tty_open V (Some name) s = None)
    \<and> (4102 < length name \<longrightarrow> tty_open V (Some name) s = Some (-1, s))
    \<and> (length name \<le> 4080 \<longrightarrow> tty_paths V name = Paths (''/dev/'' @ name) name
         \<and> length (''/dev/'' @ name) < PATH_MAX \<and> length (lock_path name) < PATH_MAX)"
proof -
  have l: "length (lock_path name) = length name + 15" by (simp add: lock_path_def PATH_LOCKD_def)
  have o: "lock_line V name s = None" if "4080 < length name"
    using that l by (simp add: lock_line_def PATH_MAX_def)
  show ?thesis
    using assms l o by (auto simp: tty_open_def tty_paths_def tty_lock_def PATH_MAX_def)
qed

lemma long_names_overrun_witness:
  "tty_open sample_env (Some (replicate 4085 CHR ''x'')) sample_line = None"
  using long_names_overrun [of "replicate 4085 CHR ''x''" sample_env sample_line] by simp

end
