(* ===== verification/Riddle.thy ===== *)
theory Riddle
  imports Format
begin

text \<open>
  The scripts \<open>Riddle/riddle-*.c\<close>, each of which prepares something for the binary of the exercise and
  then runs it: descriptors (5, 6), files (8), or data in a file that the binary has open (11, 12), or a process (14). A
  script is modelled up to the point where it hands over; the answers of calls that may fail are
  arguments.
\<close>

section \<open>Descriptors\<close>

text \<open>What a descriptor refers to, and the table, in which the lowest free place is taken.\<close>

datatype open_object = Inherited nat | Pipe_read nat | Pipe_write nat

type_synonym fd_table = "open_object option list"

definition lowest_free :: "fd_table \<Rightarrow> nat" where
  "lowest_free t = length (takeWhile (\<lambda>x. x \<noteq> None) t)"

definition fd_set :: "nat \<Rightarrow> open_object \<Rightarrow> fd_table \<Rightarrow> fd_table" where
  "fd_set n x t = (t @ replicate (Suc n - length t) None)[n := Some x]"

definition fd_get :: "fd_table \<Rightarrow> nat \<Rightarrow> open_object option" where
  "fd_get t n = (if n < length t then t ! n else None)"

text \<open>\<open>dup2\<close> of a closed descriptor fails and changes nothing; the scripts do not look at its result.\<close>

definition dup2 :: "nat \<Rightarrow> nat \<Rightarrow> fd_table \<Rightarrow> fd_table" where
  "dup2 old new t = (case fd_get t old of None \<Rightarrow> t | Some x \<Rightarrow> fd_set new x t)"

text \<open>The \<open>k\<close>-th pipe: its two descriptors.\<close>

definition new_pipe :: "nat \<Rightarrow> fd_table \<Rightarrow> (nat \<times> nat) \<times> fd_table" where
  "new_pipe k t =
     (let r = lowest_free t; t = fd_set r (Pipe_read k) t;
          w = lowest_free t; t = fd_set w (Pipe_write k) t
      in ((r, w), t))"

definition riddle_5 :: "fd_table \<Rightarrow> fd_table" where
  "riddle_5 t = dup2 1 99 t"

definition riddle_6 :: "fd_table \<Rightarrow> fd_table" where
  "riddle_6 t =
     (case new_pipe 1 t of (p1, t) \<Rightarrow>
      case new_pipe 2 t of (p2, t) \<Rightarrow>
        let t = dup2 (fst p1) 33 t;
            t = dup2 (snd p1) 34 t;
            t = dup2 (fst p2) 53 t
        in dup2 (snd p2) 54 t)"

lemma fd_get_set [simp]: "fd_get (fd_set n x t) m = (if m = n then Some x else fd_get t m)"
  by (auto simp: fd_get_def fd_set_def nth_append nth_list_update)

lemma fd_get_dup2 [simp]:
  "fd_get (dup2 old new t) m = (if m = new \<and> fd_get t old \<noteq> None then fd_get t old else fd_get t m)"
  by (cases "fd_get t old") (simp_all add: dup2_def)

lemma lowest_free_is_free: "fd_get t (lowest_free t) = None"
proof (cases "lowest_free t < length t")
  case True
  then have "t ! length (takeWhile (\<lambda>x. x \<noteq> None) t) = None"
    using nth_length_takeWhile [of "\<lambda>x. x \<noteq> None" t] by (simp add: lowest_free_def)
  then show ?thesis by (simp add: fd_get_def lowest_free_def)
qed (simp add: fd_get_def)

text \<open>The binary finds its standard output on descriptor 99.\<close>

lemma riddle_5_output: "fd_get t 1 = Some x \<Longrightarrow> fd_get (riddle_5 t) 99 = Some x"
  by (simp add: riddle_5_def)

text \<open>The binary finds the two ends of a pipe on 33 and 34, and of another on 53 and 54, whatever it has
  inherited, as long as the pipes do not get these numbers themselves: then a \<open>dup2\<close> closes one of them.\<close>

lemma riddle_6_pipes:
  assumes "new_pipe 1 t = (p1, t1)" "new_pipe 2 t1 = (p2, t2)"
    and "{fst p1, snd p1, fst p2, snd p2} \<inter> {33, 34, 53, 54} = {}"
  shows "fd_get (riddle_6 t) 33 = Some (Pipe_read 1) \<and> fd_get (riddle_6 t) 34 = Some (Pipe_write 1)
    \<and> fd_get (riddle_6 t) 53 = Some (Pipe_read 2) \<and> fd_get (riddle_6 t) 54 = Some (Pipe_write 2)"
proof -
  have new: "fd_get u' (fst p) = Some (Pipe_read k) \<and> fd_get u' (snd p) = Some (Pipe_write k)
      \<and> fd_get u (fst p) = None \<and> fd_get u (snd p) = None
      \<and> (\<forall>m. m \<noteq> fst p \<longrightarrow> m \<noteq> snd p \<longrightarrow> fd_get u' m = fd_get u m)" if "new_pipe k u = (p, u')" for k u p u'
  proof -
    let ?v = "fd_set (lowest_free u) (Pipe_read k) u"
    have "fd_get ?v (lowest_free ?v) = None" by (rule lowest_free_is_free)
    then have w: "lowest_free ?v \<noteq> lowest_free u" "fd_get u (lowest_free ?v) = None" by (auto split: if_splits)
    moreover have "p = (lowest_free u, lowest_free ?v)" "u' = fd_set (lowest_free ?v) (Pipe_write k) ?v"
      using that by (auto simp: new_pipe_def Let_def)
    ultimately show ?thesis using lowest_free_is_free [of u] by simp
  qed
  note n1 = new [OF assms(1)] and n2 = new [OF assms(2)]
  have apart: "fst p2 \<noteq> fst p1" "fst p2 \<noteq> snd p1" "snd p2 \<noteq> fst p1" "snd p2 \<noteq> snd p1" using n1 n2 by auto
  have t2: "fd_get t2 (fst p1) = Some (Pipe_read 1)" "fd_get t2 (snd p1) = Some (Pipe_write 1)"
    "fd_get t2 (fst p2) = Some (Pipe_read 2)" "fd_get t2 (snd p2) = Some (Pipe_write 2)"
    using n1 n2 apart by auto
  show ?thesis
    unfolding riddle_6_def assms(1,2) prod.case Let_def using t2 assms(3) by simp
qed

section \<open>Files\<close>

text \<open>A file: its size, the bytes that are not zero, its mode.\<close>

record riddle_file =
  f_size :: nat
  f_bytes :: "nat \<Rightarrow> u8"
  f_mode :: nat

text \<open>Which calls succeed on a path.\<close>

record riddle_env =
  can_open :: "string \<Rightarrow> bool"
  can_truncate :: "string \<Rightarrow> bool"
  can_write :: "string \<Rightarrow> bool"
  can_chmod :: "string \<Rightarrow> bool"
  umask :: "nat \<Rightarrow> nat"

definition new_file :: "nat \<Rightarrow> riddle_file" where
  "new_file m = \<lparr>f_size = 0, f_bytes = (\<lambda>_. 0), f_mode = m\<rparr>"

definition pwrite_byte :: "u8 \<Rightarrow> nat \<Rightarrow> riddle_file \<Rightarrow> riddle_file" where
  "pwrite_byte b off f = f\<lparr>f_bytes := (f_bytes f)(off := b), f_size := max (f_size f) (off + 1)\<rparr>"

definition truncate_file :: "nat \<Rightarrow> riddle_file \<Rightarrow> riddle_file" where
  "truncate_file n f = f\<lparr>f_size := n, f_bytes := (\<lambda>i. if i < n then f_bytes f i else 0)\<rparr>"

text \<open>
  The body of the loop of \<open>riddle-8.c\<close> on one path; \<open>None\<close> is the return after an error. The modes are
  written in decimal in the code.
\<close>

definition riddle_8_body :: "riddle_env \<Rightarrow> string \<Rightarrow> (string \<rightharpoonup> riddle_file) \<Rightarrow> (string \<rightharpoonup> riddle_file) option" where
  "riddle_8_body V p fs =
     (if \<not> can_open V p then None
      else
        let f = (case fs p of None \<Rightarrow> new_file (umask V 666) | Some f \<Rightarrow> f);
            f = (if can_truncate V p then truncate_file 1073741824 f else f);
            f = (if can_write V p then pwrite_byte (of_char CHR ''l'') (f_size f) f else f);
            f = (if can_chmod V p then f\<lparr>f_mode := 777\<rparr> else f)
        in Some (fs(p \<mapsto> f)))"

text \<open>The loop; the path buffer has five bytes. The flag says that all ten have been made.\<close>

definition riddle_8_path :: "nat \<Rightarrow> string" where
  "riddle_8_path c = ''bf0'' @ dec c"

function riddle_8_loop :: "riddle_env \<Rightarrow> nat \<Rightarrow> (string \<rightharpoonup> riddle_file) \<Rightarrow> bool \<times> (string \<rightharpoonup> riddle_file)" where
  "riddle_8_loop V counter fs =
     (if counter \<le> 9 then
        (case riddle_8_body V (riddle_8_path counter) fs of
           None \<Rightarrow> (False, fs)
         | Some fs \<Rightarrow> riddle_8_loop V (counter + 1) fs)
      else (True, fs))"
  by pat_completeness auto
termination by (relation "measure (\<lambda>(V, c, fs). 10 - c)") auto

declare riddle_8_loop.simps [simp del]

definition riddle_8 :: "riddle_env \<Rightarrow> (string \<rightharpoonup> riddle_file) \<Rightarrow> bool \<times> (string \<rightharpoonup> riddle_file)" where
  "riddle_8 V fs = riddle_8_loop V 0 fs"

text \<open>The file as the binary wants it. The mode is 777 in decimal, 01411: the owner may read the file but
  not write it.\<close>

definition challenge_file :: "riddle_file \<Rightarrow> bool" where
  "challenge_file f \<longleftrightarrow> f_size f = 2 ^ 30 + 1 \<and> f_bytes f (2 ^ 30) = of_char CHR ''l'' \<and> f_mode f = 777"

definition owner_may_read :: "riddle_file \<Rightarrow> bool" where
  "owner_may_read f = bit (f_mode f) 8"

definition owner_may_write :: "riddle_file \<Rightarrow> bool" where
  "owner_may_write f = bit (f_mode f) 7"

lemma challenge_file_mode: "challenge_file f \<Longrightarrow> owner_may_read f \<and> \<not> owner_may_write f"
  by (simp add: challenge_file_def owner_may_read_def owner_may_write_def bit_iff_odd)

lemma riddle_8_one:
  assumes "can_open V p" "can_truncate V p" "can_write V p" "can_chmod V p"
  obtains f where "riddle_8_body V p fs = Some (fs(p \<mapsto> f))" "challenge_file f"
  using assms that
  by (auto simp: riddle_8_body_def Let_def challenge_file_def truncate_file_def pwrite_byte_def)

lemma riddle_8_path_inj: "riddle_8_path c = riddle_8_path c' \<Longrightarrow> c = c'"
  using undec_dec by (metis append_same_eq riddle_8_path_def same_append_eq)

text \<open>Every path fits into the five bytes, with its NUL.\<close>

lemma riddle_8_path_fits: "c \<le> 9 \<Longrightarrow> length (riddle_8_path c) + 1 \<le> 5"
  by (subst riddle_8_path_def, subst dec.simps) simp

lemma riddle_8_loop_files:
  assumes "\<forall>c \<le> 9. can_open V (riddle_8_path c) \<and> can_truncate V (riddle_8_path c)
    \<and> can_write V (riddle_8_path c) \<and> can_chmod V (riddle_8_path c)"
  shows "\<exists>fs'. riddle_8_loop V i fs = (True, fs')
    \<and> (\<forall>c. i \<le> c \<longrightarrow> c \<le> 9 \<longrightarrow> (\<exists>f. fs' (riddle_8_path c) = Some f \<and> challenge_file f))
    \<and> (\<forall>p. (\<forall>c. i \<le> c \<longrightarrow> c \<le> 9 \<longrightarrow> p \<noteq> riddle_8_path c) \<longrightarrow> fs' p = fs p)"
proof (induction "10 - i" arbitrary: i fs)
  case 0
  then show ?case by (subst riddle_8_loop.simps) simp
next
  case (Suc k)
  let ?p = "riddle_8_path i"
  have i: "i \<le> 9" "k = 10 - (i + 1)" using Suc(2) by simp_all
  obtain f where f: "riddle_8_body V ?p fs = Some (fs(?p \<mapsto> f))" "challenge_file f"
    using assms i(1) by (meson riddle_8_one)
  obtain fs' where fs': "riddle_8_loop V (i + 1) (fs(?p \<mapsto> f)) = (True, fs')"
    "\<forall>c. i + 1 \<le> c \<longrightarrow> c \<le> 9 \<longrightarrow> (\<exists>f. fs' (riddle_8_path c) = Some f \<and> challenge_file f)"
    "\<forall>p. (\<forall>c. i + 1 \<le> c \<longrightarrow> c \<le> 9 \<longrightarrow> p \<noteq> riddle_8_path c) \<longrightarrow> fs' p = (fs(?p \<mapsto> f)) p"
    using Suc(1) [OF i(2)] by blast
  have "riddle_8_loop V i fs = (True, fs')"
    using i(1) f(1) fs'(1) by (subst riddle_8_loop.simps) simp
  moreover have "fs' ?p = Some f"
    using fs'(3) riddle_8_path_inj [of i] by fastforce
  moreover have "\<exists>f. fs' (riddle_8_path c) = Some f \<and> challenge_file f" if "i \<le> c" "c \<le> 9" for c
    using fs'(2) f(2) that \<open>fs' ?p = Some f\<close> by (cases "c = i") auto
  moreover have "fs' p = fs p" if "\<forall>c. i \<le> c \<longrightarrow> c \<le> 9 \<longrightarrow> p \<noteq> riddle_8_path c" for p
    using fs'(3) that i(1) by auto
  ultimately show ?case by blast
qed

text \<open>When every call succeeds, \<open>riddle-8.c\<close> makes exactly its ten files; but it cannot be run again, since
  the owner may not open them for writing any more.\<close>

lemma riddle_8_files:
  assumes "\<forall>c \<le> 9. can_open V (riddle_8_path c) \<and> can_truncate V (riddle_8_path c)
    \<and> can_write V (riddle_8_path c) \<and> can_chmod V (riddle_8_path c)"
  obtains fs' where "riddle_8 V fs = (True, fs')"
    "\<forall>c \<le> 9. \<exists>f. fs' (riddle_8_path c) = Some f \<and> challenge_file f \<and> \<not> owner_may_write f"
    "\<forall>p. p \<notin> riddle_8_path ` {..9} \<longrightarrow> fs' p = fs p"
proof -
  obtain fs' where fs': "riddle_8_loop V 0 fs = (True, fs')"
    "\<forall>c. 0 \<le> c \<longrightarrow> c \<le> 9 \<longrightarrow> (\<exists>f. fs' (riddle_8_path c) = Some f \<and> challenge_file f)"
    "\<forall>p. (\<forall>c. 0 \<le> c \<longrightarrow> c \<le> 9 \<longrightarrow> p \<noteq> riddle_8_path c) \<longrightarrow> fs' p = fs p"
    using riddle_8_loop_files [OF assms, of 0 fs] by blast
  show thesis
  proof (rule that)
    show "riddle_8 V fs = (True, fs')" using fs'(1) by (simp add: riddle_8_def)
    show "\<forall>c \<le> 9. \<exists>f. fs' (riddle_8_path c) = Some f \<and> challenge_file f \<and> \<not> owner_may_write f"
      using fs'(2) challenge_file_mode by blast
    show "\<forall>p. p \<notin> riddle_8_path ` {..9} \<longrightarrow> fs' p = fs p" using fs'(3) by auto
  qed
qed

section \<open>The secret number\<close>

text \<open>
  \<open>riddle-11.c\<close>: what the last \<open>printf\<close> shows, given the contents of the file at the time of the read
  and of the buffer on the stack before it; \<open>None\<close> when no NUL ends the text in the buffer. A file that
  cannot be opened or read leaves the buffer as it is.
\<close>

definition riddle_11 :: "u8 list option \<Rightarrow> u8 list \<Rightarrow> u8 list option" where
  "riddle_11 contents buff =
     (let data = (case contents of None \<Rightarrow> [] | Some bs \<Rightarrow> take 1024 bs);
          buff = data @ drop (length data) buff
      in if 0 \<in> set buff then Some (takeWhile (\<lambda>x. x \<noteq> 0) buff) else None)"

text \<open>The secret is shown, but the read does not end it: the text runs on into what was on the stack.\<close>

lemma riddle_11_shows:
  assumes "0 \<notin> set bs" "length bs \<le> 1024" "length bs \<le> length buff"
  shows "riddle_11 (Some bs) buff =
    (if 0 \<in> set (drop (length bs) buff) then Some (bs @ takeWhile (\<lambda>x. x \<noteq> 0) (drop (length bs) buff)) else None)"
proof -
  have "\<forall>x \<in> set bs. x \<noteq> 0" using assms(1) by auto
  then show ?thesis using assms by (simp add: riddle_11_def takeWhile_append2)
qed

section \<open>The bytes of the grid\<close>

text \<open>
  \<open>riddle-12.c\<close> reads two words from \<open>input\<close>, into arrays of 18 and of one byte, with their NULs; a word
  that does not fit makes it undefined, and so does printing the first array when there is no word for it.
  \<open>s0\<close> is what the second array holds before the word. The comma operator drops the formats: the path and
  the data are the words themselves.
\<close>

definition is_space :: "char \<Rightarrow> bool" where
  "is_space c \<longleftrightarrow> c = CHR '' '' \<or> (9 \<le> (of_char c :: nat) \<and> (of_char c :: nat) \<le> 13)"

definition scan_word :: "nat \<Rightarrow> string \<Rightarrow> (string \<times> string) option" where
  "scan_word room input =
     (let input = dropWhile is_space input; word = takeWhile (\<lambda>c. \<not> is_space c) input
      in if length word + 1 \<le> room \<or> word = [] then Some (word, dropWhile (\<lambda>c. \<not> is_space c) input) else None)"

definition riddle_12 ::
  "riddle_env \<Rightarrow> u8 \<Rightarrow> string \<Rightarrow> (string \<rightharpoonup> riddle_file) \<Rightarrow> (string \<rightharpoonup> riddle_file) option"
where
  "riddle_12 V s0 input fs =
     (case scan_word 18 input of
        None \<Rightarrow> None
      | Some (c, input) \<Rightarrow>
          if c = [] then None
          else
            let fd = (if can_open V c then fs c else None);
                fd = (if can_truncate V c then map_option (truncate_file 111) fd else fd);
                ptr = (case fd of None \<Rightarrow> 0 | Some f \<Rightarrow> f_size f)
            in case scan_word 1 input of
                 None \<Rightarrow> None
               | Some (s, input) \<Rightarrow>
                   (case fd of
                      None \<Rightarrow> Some fs
                    | Some f \<Rightarrow> Some (fs(c \<mapsto> if can_write V c then pwrite_byte s0 ptr f else f))))"

lemma scan_word_eq:
  assumes "w \<noteq> []" "\<forall>c \<in> set w. \<not> is_space c" "\<forall>c \<in> set ws. is_space c" "rest = [] \<or> is_space (hd rest)"
  shows "scan_word n (ws @ w @ rest) = (if length w + 1 \<le> n then Some (w, rest) else None)"
proof -
  obtain a w' where w: "w = a # w'" using assms(1) by (cases w) auto
  have "dropWhile is_space (ws @ w @ rest) = w @ rest" using assms(2,3) w by (simp add: dropWhile_append2)
  moreover have "takeWhile (\<lambda>c. \<not> is_space c) (w @ rest) = w" "dropWhile (\<lambda>c. \<not> is_space c) (w @ rest) = rest"
    using assms(2,4) by (cases rest; simp add: takeWhile_append2 dropWhile_append2)+
  ultimately show ?thesis using assms(1) by (simp add: scan_word_def)
qed

lemma scan_nothing: "\<forall>c \<in> set ws. is_space c \<Longrightarrow> scan_word n ws = Some ([], [])"
proof -
  assume "\<forall>c \<in> set ws. is_space c"
  then have "dropWhile is_space ws = []" by (simp add: dropWhile_eq_Nil_conv)
  then show ?thesis by (simp only: scan_word_def Let_def) simp
qed

text \<open>The letter that the binary wants, typed as the second word, always overruns its array.\<close>

lemma riddle_12_overruns:
  assumes "c \<noteq> []" "\<forall>x \<in> set c. \<not> is_space x" "l \<noteq> []" "\<forall>x \<in> set l. \<not> is_space x"
    and "rest = [] \<or> is_space (hd rest)"
  shows "riddle_12 V s0 (c @ '' '' @ l @ rest) fs = None"
proof -
  have sp: "is_space CHR '' ''" by (simp add: is_space_def)
  have first: "scan_word 18 (c @ '' '' @ l @ rest) = (if length c + 1 \<le> 18 then Some (c, '' '' @ l @ rest) else None)"
    using scan_word_eq [OF assms(1,2), of "[]" "'' '' @ l @ rest" 18] sp by simp
  have "length l + 1 > 1" using assms(3) by simp
  then have "scan_word 1 ('' '' @ l @ rest) = None"
    using scan_word_eq [OF assms(3,4) _ assms(5), of "'' ''" 1] sp by simp
  then show ?thesis unfolding riddle_12_def first by (simp add: Let_def)
qed

text \<open>With one word only it is defined, and then it is the file of that name which it changes, not one
  under \<open>/temp\<close>: 112 bytes long, the last one from the stack.\<close>

lemma riddle_12_file:
  assumes "c \<noteq> []" "length c \<le> 17" "\<forall>x \<in> set c. \<not> is_space x" "fs c = Some f"
    and "can_open V c" "can_truncate V c" "can_write V c"
  obtains f' where "riddle_12 V s0 (c @ [CHR 0x0A]) fs = Some (fs(c \<mapsto> f'))" "f_size f' = 112" "f_bytes f' 111 = s0"
proof -
  have sp: "is_space CHR 0x0A" by (simp add: is_space_def)
  have "scan_word 18 (c @ [CHR 0x0A]) = Some (c, [CHR 0x0A])"
    using scan_word_eq [OF assms(1,3), of "[]" "[CHR 0x0A]" 18] sp assms(2) by simp
  moreover have "scan_word 1 [CHR 0x0A] = Some ([], [])" using scan_nothing sp by simp
  ultimately have "riddle_12 V s0 (c @ [CHR 0x0A]) fs = Some (fs(c \<mapsto> pwrite_byte s0 111 (truncate_file 111 f)))"
    using assms by (simp add: riddle_12_def truncate_file_def)
  then show thesis by (rule that) (simp_all add: pwrite_byte_def truncate_file_def)
qed

section \<open>The process number\<close>

text \<open>\<open>riddle-14.c\<close>: what becomes of the process in which \<open>fork\<close> returns \<open>pid\<close>; the parent waits first, and
  \<open>wait\<close> returns also when there is no child.\<close>

datatype fate = Becomes string | Exits int

definition riddle_14 :: "int \<Rightarrow> bool \<Rightarrow> fate" where
  "riddle_14 pid exec_works =
     (if pid = 0 then (if exec_works then Becomes ''./riddle'' else Exits 0) else Exits 0)"

end
