(* ===== verification/Spec2Isabelle.thy ===== *)
theory Spec2Isabelle
  imports Measurement ChatTalk CryptoSystem CryptoSpec HostDevice RawHost ShowPacket ChatC Attach Riddle
begin

text \<open>
  A verification library for the programs of an operating systems laboratory: a Linux driver for a
  network of wireless sensors with its helper programs (\<open>Lunix_Device_Driver/\<close>), a paravirtual
  crypto device with its tests and an encrypted chat on top of it (\<open>Virtio_Crypto_Chat/\<close>), and some
  scripts for an exercise with a binary (\<open>Riddle/\<close>).

  \<^bold>\<open>The programs.\<close> The base station of the sensors sends packets over a serial line. \<open>lunix-attach.c\<close>
  configures the line and gives it the line discipline of \<open>lunix-ldisc.c\<close>, which hands every buffer of
  received bytes to the protocol of \<open>lunix-protocol.c\<close>. A complete packet updates the three buffers of
  one sensor (\<open>lunix-sensors.c\<close>) and wakes its sleepers. Each sensor has three character devices, one
  per measurement (\<open>lunix-chrdev.c\<close>): a read waits for news, converts the raw value with the tables that
  \<open>mk_lookup_tables.c\<close> generates and delivers its text. \<open>lunix-module.c\<close> loads and unloads all of it.
  In the second part, a driver in a guest system (\<open>guest/crypto-chrdev.c\<close>, \<open>guest/crypto-module.c\<close>)
  forwards open, close and ioctl of \<open>/dev/crypto\<close> through a virtqueue to the host
  (\<open>qemu_driver/virtio-cryptodev.c\<close>), which performs them on its own \<open>/dev/crypto\<close>; the chat programs
  \<open>server.c\<close> and \<open>client.c\<close> encrypt and decrypt their messages with it, and \<open>test_crypto.c\<close> and
  \<open>test_fork_crypto.c\<close> try it out, the latter with two processes at once.

  \<^bold>\<open>The theories.\<close> Definitions carry the names of the code.
  \<^item> \<open>Prelude\<close>: C integers as words, error numbers, the option monad (\<open>None\<close> is an Oops), lemma
    collections, and the locale \<open>token_counter\<close> of counters that hand out a resource.
  \<^item> \<open>Sensors\<close> (\<open>lunix-sensors.c\<close>): a heap of pages, the sensors' buffers, init, destroy, update.
  \<^item> \<open>Protocol\<close> (\<open>lunix-protocol.c\<close>): the receiver, as the code has it. \<open>Receiver\<close> has its invariant and
    a byte-by-byte reference receiver, \<open>Frames\<close> the packets as the base station encodes them,
    \<open>Reporting\<close> what a packet does to the sensors, \<open>ReceiverProps\<close> the properties.
  \<^item> \<open>Ldisc\<close> (\<open>lunix-ldisc.c\<close>): the discipline and the step relation of the TTY layer. Its locale
    \<open>line_receiver\<close> says what a discipline needs of a receiver; the protocol is an interpretation.
  \<^item> \<open>Format\<close>, \<open>Chrdev\<close>, \<open>ChrdevRead\<close> (\<open>lunix-chrdev.c\<close>): decimal text, the file operations, and \<open>read\<close>
    as a step relation of any number of readers (\<open>read_call\<close> has the steps of a process, \<open>read_step\<close>
    those and the reports that arrive in between).
  \<^item> \<open>Module\<close> (\<open>lunix-module.c\<close>): init with every error path, and cleanup.
  \<^item> \<open>Lunix\<close>: the whole driver as one step relation, \<open>system_step\<close>: loading and unloading, the TTY layer, any
    number of open files with their readers. Each open file sees a run of \<open>read_step\<close> (\<open>view_step\<close>), so that the
    lemmas on one file hold in the system.
  \<^item> \<open>Tables\<close> (\<open>mk_lookup_tables.c\<close>): the tables for light, battery and temperature, with the
    infinities and NaN that the last one runs into. \<open>TableText\<close>: the header file as text, a strict reader of
    it in place of the compiler, and what a driver built with it shows. \<open>Measurement\<close>: all of the sensor part
    at once, from the report on the line to the text that a reader of the driver built with that header gets.
    \<open>ShowPacket\<close>: the debug line with the bytes of a packet.
  \<^item> \<open>Attach\<close> (\<open>lunix-attach.c\<close>): lock files, line settings, attach and detach.
  \<^item> \<open>Virtio\<close> (\<open>virtio-cryptodev.c\<close>): requests of segments, the host's handler, and the locale
    \<open>request_server\<close> of what the guest relies on, interpreted on the handler; the types of requests.
    \<open>CLayout\<close> and \<open>CryptodevApi\<close> (\<open>cryptodev.h\<close>): sizes and places of C structures, all numbers, structures
    and commands of the interface. \<open>RawHost\<close>: the handler once more, on raw bytes with these places; the typed
    one is its reading. \<open>HostDevice\<close>: the device class around the handler, its callbacks and the realization of a device.
  \<^item> \<open>CryptoModule\<close> (\<open>crypto-module.c\<close>, lookup and registration of \<open>crypto-chrdev.c\<close>): probe, removal,
    load, unload; the locale \<open>minor_table\<close>, interpreted on the list of devices.
  \<^item> \<open>CryptoGuest\<close> (\<open>crypto-chrdev.c\<close>): open, release and ioctl on user memory, with the live kernel
    objects in a multiset. \<open>CryptoSystem\<close>: the whole guest driver as one step relation, \<open>crypto_step\<close>, with
    devices that come and go and any number of open files over one host.
  \<^item> \<open>Chat\<close> (\<open>server.c\<close>, \<open>client.c\<close>): the shared functions, the loops and both programs; the locale
    \<open>cipher_device\<close> is what they need of \<open>/dev/crypto\<close>. \<open>ChatGuest\<close> interprets it on the guest driver,
    and \<open>ChatTalk\<close> has whole conversations: two ends in virtual machines of their own joined by a socket, and
    the server between its clients. \<open>ChatC\<close> has the sending functions of the client and the receiving ones of
    the server once more, with their machine integers, pointers and bounds.
  \<^item> \<open>CryptoTest\<close> (\<open>test_crypto.c\<close>): the test program on any device; the locale \<open>session_device\<close> is what
    it needs, per-session keys in particular. \<open>CryptoFork\<close> (\<open>test_fork_crypto.c\<close>): the same as a machine
    of one system call per step, two of which interleave; the extended locale \<open>released_device\<close> and the
    assertions at each place that the other process does not disturb. \<open>CryptoTestGuest\<close> interprets both on
    the guest driver. \<open>CryptoSpec\<close>: the abstract machine of \<open>/dev/crypto\<close>, a store of sessions, which every
    session device implements against any client.
  \<^item> \<open>Riddle\<close> (\<open>riddle-5.c\<close>, \<open>-6\<close>, \<open>-8\<close>, \<open>-11\<close>, \<open>-12\<close>, \<open>-14\<close>): the descriptors, pipes and files that the scripts
    set up.

  \<^bold>\<open>State.\<close> Every structure of the code is a record with its fields; globals are fields of a record that
  the operations pass on. Pages, device structures and user memory are maps from addresses. Waiting
  is explicit: in \<open>ChrdevRead\<close> a reader is a program counter, in \<open>Chat\<close> the input and output are
  scripts, and a call on an exhausted script is \<open>Blocked\<close>. \<open>None\<close> (\<open>Undefined\<close> in \<open>Chat\<close>) is an access
  the code must not make; for the guest driver it is also the wait for a host that never answers.

  \<^bold>\<open>What is shown.\<close> Sensors: a report that arrives in any pieces is stored and wakes the sleepers; the
  receiver refines a reference receiver, never Oopses and never writes past its packet buffer (the
  position stays below 265 of 300); the texts fit the 20-byte buffer and say when they denote the
  value. Concurrency: readers exclude each other when no signal arrives, no wake-up is lost, a reader
  with news can finish; and in the whole driver a report that arrives on the line reaches the text that a
  sleeping reader returns, the text of the number that the generator's formulas give, and no handler Oopses
  after any history. Resources: init and exit of both
  modules restore what they take, whatever happens in between, on every path but those of the findings;
  every open file of the guest owns one descriptor of the host. Crypto: the handler on typed segments is what the code does on
  raw memory; the guest's ioctls come back and
  implement a store of sessions, hot-plug keeps the table of devices right, a conversation between two
  guests is displayed at both ends line by line, the loops of the chat on machine integers are those on lists, the server
  outlives its clients, and the two processes
  of the fork test never disturb each other's session.
  Helpers: a lock excludes, an attach is undone by a detach, the table is exact for light and ordered
  for the temperature.
  A part of the properties states what goes wrong where the code is wrong.

  \<^bold>\<open>Bounds and fuel.\<close> The parse loop of a debug build stops at its 50th byte; that is in the code. The
  loops of the receiver, the chat and the drivers are structural or have a measure. The two
  \<open>while(1)\<close> loops of the chat are given as many rounds as there is input left, and more rounds change
  nothing (\<open>rounds_enough\<close>, \<open>chat_loops_end\<close>). A run of the fork test has at most 14 steps. The client of
  \<open>CryptoSpec\<close> makes at most \<open>n\<close> calls, any \<open>n\<close> for which the host has room.

  \<^bold>\<open>Parameters and hypotheses.\<close> The build (\<open>LUNIX_DEBUG\<close>), time, the results of page and object
  allocations, the answers of the kernel's registration functions, of \<open>virtqueue_pop\<close>, of the host's
  cryptodev and of the system calls of the user programs are arguments. Named hypotheses: fresh pages
  (\<open>fresh_pages\<close>), memory that is not short and a host that pops well-formed requests (\<open>ample\<close>), a host
  cipher that its inverse undoes (\<open>cipher_host\<close>), a host that keeps its sessions apart
  (\<open>session_host\<close>) and gives every file a descriptor of its own (\<open>fd_host\<close>), \<open>kzalloc\<close> with the kernel's alignment
  (\<open>aligned\<close>), a kernel that allocates what it says (\<open>sane_kernel\<close>), rounding as in IEEE doubles (\<open>double_rounding\<close>, \<open>nearest_rounding\<close>) and monotone
  library functions (\<open>temp_functions\<close>).

  \<^bold>\<open>Not modelled.\<close> Progress messages; what QEMU does with the host's device class; the tables of names
  and callbacks that only register drivers with the kernel; a few limits in \<open>cryptodev.h\<close> that nothing uses; the
  generated \<open>virtio_crypto.mod.c\<close>. The functions that \<open>server.c\<close> and \<open>client.c\<close> each have a copy of are modelled
  once on lists; on machine integers only those that a client needs to send and a server to receive.
\<close>

section \<open>A property of the driver and its helper program\<close>

text \<open>C26: a second attach is refused and leaves traces. While the discipline is on a TTY, after whatever
  history, a \<open>lunix-attach\<close> for another line gets the driver's -EBUSY and exits with 1. The driver is
  unchanged and the second line keeps its discipline, but it stays in the raw settings of the sensors,
  and its lock file stays.\<close>

theorem second_attach_refused:
  assumes "proto_inv st" "wf_world w" "ldisc_run dbg (fresh_driver st w) es d" "attached d \<noteq> []"
    and "lunix_ldisc_open True tty d = (r, d1)" "e_setd V N_LUNIX_LDISC = r"
    and "tty_paths V name = Paths dev_path path" "tty_lock V path 1 s = Some (0, s0)" "e_pid V < 2 ^ 31"
    and "length (c_cc (line_termios s)) = 32" "0 \<le> e_open V" "0 \<le> e_tcgets V" "0 \<le> e_getd V" "0 \<le> e_tcsets V"
  shows "d1 = d \<and> r = - EBUSY \<and> (\<exists>s1. attach_main V V' [name] s = Some (1, s1) \<and> line_ldisc s1 = line_ldisc s
    \<and> line_termios s1 = lunix_termios \<and> files s1 (lock_path path) = Some (pid_text (e_pid V)))"
proof -
  have "ldisc_inv d" using ldisc_run_inv [OF assms(3)] fresh_driver_inv [OF assms(1,2)] by simp
  then have "r = - EBUSY" "d1 = d" using open_result [OF _ assms(5)] assms(4) by auto
  then show ?thesis using refused_attach [OF assms(7-14)] assms(6) by simp
qed

lemma second_attach_refused_witness:
  "\<exists>s1. attach_main (sample_env\<lparr>e_setd := (\<lambda>d. if d = 8 then - EBUSY else 0)\<rparr>) sample_env [''ttyS0''] sample_line = Some (1, s1)
    \<and> line_ldisc s1 = 0 \<and> line_termios s1 = lunix_termios \<and> files s1 (lock_path ''ttyS0'') = Some (pid_text 42)"
proof -
  obtain d where run: "ldisc_run True (fresh_driver sample_state sample_world) [(Set_Ldisc 4 True, 0)] d"
    and att: "attached d \<noteq> []"
    using first_open [OF sample_state_inv(1) sample_world_wf] by fastforce
  obtain r d1 where o: "lunix_ldisc_open True 5 d = (r, d1)" by fastforce
  have "ldisc_inv d" using ldisc_run_inv [OF run] fresh_driver_inv [OF sample_state_inv(1) sample_world_wf] by simp
  then have r: "r = - EBUSY" using open_result(1) [OF _ o] att by simp
  let ?V = "sample_env\<lparr>e_setd := (\<lambda>d. if d = 8 then - EBUSY else 0)\<rparr>"
  have p: "tty_paths ?V ''ttyS0'' = Paths ''/dev/ttyS0'' ''ttyS0''"
    by (simp add: tty_paths_def sample_env_def PATH_MAX_def)
  have l: "tty_lock ?V ''ttyS0'' 1 sample_line = tty_lock sample_env ''ttyS0'' 1 sample_line"
    by (simp add: tty_lock_def lock_line_def Let_def)
  have v: "e_pid ?V < 2 ^ 31" "length (c_cc (line_termios sample_line)) = 32" "0 \<le> e_open ?V" "0 \<le> e_tcgets ?V"
    "0 \<le> e_getd ?V" "0 \<le> e_tcsets ?V"
    by (simp_all add: sample_env_def sample_line_def)
  have e: "e_setd ?V N_LUNIX_LDISC = r" by (simp add: r N_LUNIX_LDISC_def)
  show ?thesis
    using second_attach_refused [OF sample_state_inv(1) sample_world_wf run att o e p l [unfolded sample_lock] v] by (simp add: sample_line_def sample_env_def)
qed

end
